(* ===== verification/Prelude.thy ===== *)
theory Prelude
  imports Main "HOL-Library.Word"
begin

text \<open>
  The shared vocabulary of the development: machine integers at the widths the C code
  uses, character codes, the byte-addressed memory with its block reads and writes, C
  strings in memory.
\<close>

unbundle bit_operations_syntax

section \<open>Machine integers and characters\<close>

type_synonym byte = "8 word"
type_synonym u16 = "16 word"
type_synonym u32 = "32 word"
type_synonym u64 = "64 word"

text \<open>A character constant of the source as the byte the compiler stores.\<close>

abbreviation ch :: "char \<Rightarrow> byte" where
  "ch c \<equiv> of_char c"

text \<open>A string literal of the source as its bytes, without the terminator.\<close>

definition lit :: "string \<Rightarrow> byte list" where
  "lit s = map (\<lambda>c. of_char c) s"

lemma lit_simps [simp]:
  "lit [] = []" "lit (c # cs) = ch c # lit cs"
  by (simp_all add: lit_def)

text \<open>Simplifier bundles: word arithmetic moved to \<open>nat\<close>, and unfolding of memory writes.\<close>

named_theorems mem_simps
named_theorems unat_simps

lemma unat_of_nat_lt [unat_simps]:
  "n < 2 ^ LENGTH('a::len) \<Longrightarrow> unat (of_nat n :: 'a word) = n"
  by (simp add: unat_of_nat take_bit_nat_eq_self)

lemma of_nat_add_1 [simp]: "of_nat n + 1 = (of_nat (Suc n) :: 'a::len word)"
  by simp

lemma unat_lt_64: "unat (x :: u64) < 2 ^ 64"
  by (rule order_less_le_trans [OF unsigned_less]) simp

lemma unat_lt_32: "unat (x :: u32) < 2 ^ 32"
  by (rule order_less_le_trans [OF unsigned_less]) simp

lemma unat_add_of_nat:
  "unat (p :: u64) + j < 2 ^ 64 \<Longrightarrow> unat (p + of_nat j) = unat p + j"
  by (simp add: unat_word_ariths unat_of_nat)

lemma add_of_nat_eq_iff:
  "unat (p :: u64) + j < 2 ^ 64 \<Longrightarrow> unat (q :: u64) + k < 2 ^ 64 \<Longrightarrow>
     (p + of_nat j = q + of_nat k) = (unat p + j = unat q + k)"
  by (simp add: word_unat_eq_iff unat_add_of_nat)

lemma add_of_nat_inj:
  "i < 2 ^ LENGTH('a) \<Longrightarrow> j < 2 ^ LENGTH('a) \<Longrightarrow>
     (p + of_nat i = p + (of_nat j :: 'a::len word)) = (i = j)"
  by (metis add_left_cancel unat_of_nat_lt)

lemma of_nat_2p64: "(of_nat (2 ^ 64) :: u64) = 0"
  by (simp add: word_unat_eq_iff unat_of_nat take_bit_eq_mod)

lemma unat_minus_of_nat: "0 < n \<Longrightarrow> n < 2 ^ 64 \<Longrightarrow> unat (- of_nat n :: u64) = 2 ^ 64 - n"
proof -
  assume n: "0 < n" "n < 2 ^ 64"
  then have "of_nat (2 ^ 64 - n) + of_nat n = (of_nat (2 ^ 64) :: u64)"
    by (metis le_add_diff_inverse2 less_imp_le of_nat_add)
  then have "- of_nat n = (of_nat (2 ^ 64 - n) :: u64)"
    by (simp only: of_nat_2p64 add_eq_0_iff minus_minus)
  moreover have "unat (of_nat (2 ^ 64 - n) :: u64) = 2 ^ 64 - n"
    using n by (intro unat_of_nat_lt) auto
  ultimately show ?thesis by simp
qed

section \<open>Byte-addressed memory\<close>

type_synonym mem = "u64 \<Rightarrow> byte"

text \<open>The \<open>n\<close> bytes from \<open>p\<close> on, and the memory with a run of bytes stored at \<open>p\<close>.\<close>

definition bytes_at :: "mem \<Rightarrow> u64 \<Rightarrow> nat \<Rightarrow> byte list" where
  "bytes_at m p n = map (\<lambda>i. m (p + of_nat i)) [0..<n]"

definition put_bytes :: "mem \<Rightarrow> u64 \<Rightarrow> byte list \<Rightarrow> mem" where
  "put_bytes m p bs =
     (\<lambda>a. if unat (a - p) < length bs then bs ! unat (a - p) else m a)"

lemma length_bytes_at [simp]: "length (bytes_at m p n) = n"
  by (simp add: bytes_at_def)

lemma nth_bytes_at [simp]: "i < n \<Longrightarrow> bytes_at m p n ! i = m (p + of_nat i)"
  by (simp add: bytes_at_def)

lemma bytes_at_0 [simp]: "bytes_at m p 0 = []"
  by (simp add: bytes_at_def)

lemma bytes_at_Suc: "bytes_at m p (Suc n) = bytes_at m p n @ [m (p + of_nat n)]"
  by (simp add: bytes_at_def)

lemma bytes_at_Cons: "bytes_at m p (Suc n) = m p # bytes_at m (p + 1) n"
  by (rule nth_equalityI) (auto simp: nth_Cons' algebra_simps less_Suc_eq_0_disj)

lemma bytes_at_add:
  "bytes_at m p (i + j) = bytes_at m p i @ bytes_at m (p + of_nat i) j"
  by (rule nth_equalityI) (auto simp: nth_append add.assoc of_nat_diff)

lemma put_bytes_Nil [simp]: "put_bytes m p [] = m"
  by (simp add: put_bytes_def)

lemma put_bytes_single: "put_bytes m p [b] = m(p := b)"
  by (auto simp: put_bytes_def fun_eq_iff unat_eq_0)

lemma put_bytes_in:
  "i < length bs \<Longrightarrow> length bs \<le> 2 ^ 64 \<Longrightarrow> put_bytes m p bs (p + of_nat i) = bs ! i"
  by (simp add: put_bytes_def unat_simps)

lemma put_bytes_out: "length bs \<le> unat (a - p) \<Longrightarrow> put_bytes m p bs a = m a"
  by (simp add: put_bytes_def)

lemma bytes_at_put_bytes [simp]:
  "length bs \<le> 2 ^ 64 \<Longrightarrow> bytes_at (put_bytes m p bs) p (length bs) = bs"
  by (rule nth_equalityI) (auto simp: put_bytes_in)

lemma put_bytes_Cons:
  "Suc (length bs) \<le> 2 ^ 64 \<Longrightarrow> put_bytes (m(p := b)) (p + 1) bs = put_bytes m p (b # bs)"
proof (rule ext)
  fix a
  assume le: "Suc (length bs) \<le> 2 ^ 64"
  show "put_bytes (m(p := b)) (p + 1) bs a = put_bytes m p (b # bs) a"
  proof (cases "a = p")
    case True
    have "p - (p + 1) = - 1" by simp
    then have "unat (p - (p + 1)) = 2 ^ 64 - 1" by (simp only: unsigned_minus_1_eq_mask mask_eq_exp_minus_1) simp
    with True le show ?thesis by (simp add: put_bytes_def)
  next
    case False
    then have "unat (a - p) = Suc (unat (a - (p + 1)))"
      by (simp add: unat_gt_0 diff_diff_eq [symmetric] unat_minus_one)
    with False show ?thesis by (simp add: put_bytes_def)
  qed
qed

lemma put_bytes_snoc:
  "length bs < 2 ^ 64 \<Longrightarrow>
     put_bytes (m(p + of_nat (length bs) := b)) p bs = put_bytes m p (bs @ [b])"
proof (rule ext)
  fix a
  assume len: "length bs < 2 ^ 64"
  have "unat (a - p) = length bs \<longleftrightarrow> a = p + of_nat (length bs)"
  proof -
    have "unat (a - p) = length bs \<longleftrightarrow> a - p = of_nat (length bs)"
      using len by (auto simp: word_unat_eq_iff unat_simps)
    then show ?thesis by (auto simp: algebra_simps)
  qed
  then show "put_bytes (m(p + of_nat (length bs) := b)) p bs a = put_bytes m p (bs @ [b]) a"
    by (auto simp: put_bytes_def nth_append)
qed

lemma put_bytes_snoc_last:
  "length bs < 2 ^ 64 \<Longrightarrow>
     (put_bytes m p bs)(p + of_nat (length bs) := b) = put_bytes m p (bs @ [b])"
  by (rule ext) (use put_bytes_snoc [of bs m p b] in \<open>auto simp: put_bytes_def unat_simps fun_eq_iff split: if_splits\<close>)

text \<open>
  The bytes read by a copy loop are those of the original memory when no earlier write of
  the loop lands on a byte still to be read.
\<close>

lemma bytes_at_upd_other:
  "(\<And>k. k < n \<Longrightarrow> p + of_nat k \<noteq> a) \<Longrightarrow> bytes_at (m(a := b)) p n = bytes_at m p n"
  by (auto simp: bytes_at_def)

text \<open>A block write leaves a block elsewhere alone.\<close>

lemma bytes_at_put_other:
  assumes "unat p + length bs \<le> 2 ^ 64" "unat q + n \<le> 2 ^ 64"
    and "unat q + n \<le> unat p \<or> unat p + length bs \<le> unat q"
  shows "bytes_at (put_bytes m p bs) q n = bytes_at m q n"
proof (rule nth_equalityI)
  fix i assume "i < length (bytes_at (put_bytes m p bs) q n)"
  then have i: "i < n" by simp
  have "put_bytes m p bs (q + of_nat i) = m (q + of_nat i)"
  proof (rule put_bytes_out, rule ccontr)
    let ?j = "unat (q + of_nat i - p)"
    assume "\<not> length bs \<le> ?j"
    then have j: "?j < length bs" by simp
    have "p + of_nat ?j = q + of_nat i" by simp
    moreover have "unat p + ?j < 2 ^ 64" "unat q + i < 2 ^ 64" using j i assms by simp_all
    ultimately have "unat p + ?j = unat q + i" using add_of_nat_eq_iff by blast
    with j i assms(3) show False by linarith
  qed
  with i show "bytes_at (put_bytes m p bs) q n ! i = bytes_at m q n ! i" by simp
qed simp

section \<open>Little-endian integers in memory\<close>

definition to_le :: "nat \<Rightarrow> 'a::len word \<Rightarrow> byte list" where
  "to_le n w = map (\<lambda>i. ucast (drop_bit (8 * i) w)) [0..<n]"

definition of_le :: "byte list \<Rightarrow> 'a::len word" where
  "of_le bs = foldr (\<lambda>b a. ucast b OR push_bit 8 a) bs 0"

lemma length_to_le [simp]: "length (to_le n w) = n"
  by (simp add: to_le_def)

lemma nth_to_le [simp]: "i < n \<Longrightarrow> to_le n w ! i = ucast (drop_bit (8 * i) w)"
  by (simp add: to_le_def)

lemma to_le_Suc: "to_le (Suc n) w = ucast w # to_le n (drop_bit 8 w)"
  by (rule nth_equalityI) (auto simp: nth_Cons' less_Suc_eq_0_disj add.commute)

lemma of_le_Cons: "of_le (b # bs) = ucast b OR push_bit 8 (of_le bs)"
  by (simp add: of_le_def)

lemma of_le_to_le: "of_le (to_le n w) = (take_bit (8 * n) w :: 'a::len word)"
proof (induction n arbitrary: w)
  case 0
  then show ?case by (simp add: of_le_def to_le_def)
next
  case (Suc n)
  have "(ucast (ucast w :: byte) :: 'a word) OR push_bit 8 (take_bit (8 * n) (drop_bit 8 w)) = take_bit (8 + 8 * n) w"
    by (rule bit_word_eqI) (auto simp: bit_simps)
  then show ?case by (simp add: to_le_Suc of_le_Cons Suc.IH)
qed

lemma to_le_of_le: "LENGTH('a) = 8 * length bs \<Longrightarrow> to_le (length bs) (of_le bs :: 'a::len word) = bs"
proof -
  have "8 * length bs \<le> LENGTH('a) \<Longrightarrow> to_le (length bs) (of_le bs :: 'a word) = bs"
  proof (induction bs)
    case Nil
    then show ?case by (simp add: to_le_def)
  next
    case (Cons b bs)
    have nb: "\<And>i k. \<not> bit b (8 * i + 8 + k)" by (auto dest: bit_imp_le_length)
    have "ucast (ucast b OR push_bit 8 (of_le bs) :: 'a word) = b"
      using Cons.prems by (intro bit_word_eqI) (auto simp: bit_simps)
    moreover have "to_le (length bs) (drop_bit 8 (ucast b OR push_bit 8 (of_le bs) :: 'a word)) = to_le (length bs) (of_le bs :: 'a word)"
      using Cons.prems nb by (intro nth_equalityI) (auto simp: bit_simps intro!: bit_word_eqI)
    ultimately show ?case using Cons by (simp add: to_le_Suc of_le_Cons)
  qed
  then show "LENGTH('a) = 8 * length bs \<Longrightarrow> to_le (length bs) (of_le bs :: 'a word) = bs" by simp
qed

definition read16 :: "mem \<Rightarrow> u64 \<Rightarrow> u16" where "read16 m p = of_le (bytes_at m p 2)"
definition read32 :: "mem \<Rightarrow> u64 \<Rightarrow> u32" where "read32 m p = of_le (bytes_at m p 4)"
definition read64 :: "mem \<Rightarrow> u64 \<Rightarrow> u64" where "read64 m p = of_le (bytes_at m p 8)"
definition write16 :: "mem \<Rightarrow> u64 \<Rightarrow> u16 \<Rightarrow> mem" where "write16 m p v = put_bytes m p (to_le 2 v)"
definition write32 :: "mem \<Rightarrow> u64 \<Rightarrow> u32 \<Rightarrow> mem" where "write32 m p v = put_bytes m p (to_le 4 v)"
definition write64 :: "mem \<Rightarrow> u64 \<Rightarrow> u64 \<Rightarrow> mem" where "write64 m p v = put_bytes m p (to_le 8 v)"

lemma read64_write64 [simp]: "read64 (write64 m p v) p = v"
  using bytes_at_put_bytes [of "to_le 8 v" m p] by (simp add: read64_def write64_def of_le_to_le take_bit_word_eq_self)

lemma read32_write32 [simp]: "read32 (write32 m p v) p = v"
  using bytes_at_put_bytes [of "to_le 4 v" m p] by (simp add: read32_def write32_def of_le_to_le take_bit_word_eq_self)

lemma read16_write16 [simp]: "read16 (write16 m p v) p = v"
  using bytes_at_put_bytes [of "to_le 2 v" m p] by (simp add: read16_def write16_def of_le_to_le take_bit_word_eq_self)

section \<open>NUL-terminated strings in memory\<close>

text \<open>\<open>cstr m p s\<close>: the C string at \<open>p\<close> has the (non-NUL) bytes \<open>s\<close>.\<close>

fun cstr :: "mem \<Rightarrow> u64 \<Rightarrow> byte list \<Rightarrow> bool" where
  "cstr m p [] = (m p = 0)"
| "cstr m p (c # cs) = (m p = c \<and> c \<noteq> 0 \<and> cstr m (p + 1) cs)"

lemma cstr_unique: "cstr m p s \<Longrightarrow> cstr m p t \<Longrightarrow> s = t"
proof (induction s arbitrary: p t)
  case Nil
  then show ?case by (cases t) auto
next
  case (Cons c s)
  then show ?case by (cases t) auto
qed

lemma cstr_append:
  "cstr m p (s @ t) \<longleftrightarrow>
     (\<forall>i < length s. m (p + of_nat i) = s ! i \<and> s ! i \<noteq> 0) \<and> cstr m (p + of_nat (length s)) t"
proof (induction s arbitrary: p)
  case Nil
  then show ?case by simp
next
  case (Cons c s)
  have "(\<forall>i < length (c # s). m (p + of_nat i) = (c # s) ! i \<and> (c # s) ! i \<noteq> 0) \<longleftrightarrow>
      m p = c \<and> c \<noteq> 0 \<and> (\<forall>i < length s. m (p + 1 + of_nat i) = s ! i \<and> s ! i \<noteq> 0)"
    by (auto simp: All_less_Suc2 add.assoc)
  then show ?case by (simp add: Cons.IH add.assoc)
qed

lemma cstr_nth: "cstr m p s \<Longrightarrow> i < length s \<Longrightarrow> m (p + of_nat i) = s ! i \<and> s ! i \<noteq> 0"
  using cstr_append [of m p s "[]"] by simp

lemma cstr_end: "cstr m p s \<Longrightarrow> m (p + of_nat (length s)) = 0"
  using cstr_append [of m p s "[]"] by simp

lemma cstrI:
  "(\<And>i. i < length s \<Longrightarrow> m (p + of_nat i) = s ! i) \<Longrightarrow> 0 \<notin> set s \<Longrightarrow>
     m (p + of_nat (length s)) = 0 \<Longrightarrow> cstr m p s"
  using cstr_append [of m p s "[]"] by (auto simp: in_set_conv_nth)

lemma cstr_no_nul: "cstr m p s \<Longrightarrow> 0 \<notin> set s"
  by (induction s arbitrary: p) auto

lemma cstr_drop:
  "cstr m p s \<Longrightarrow> i \<le> length s \<Longrightarrow> cstr m (p + of_nat i) (drop i s)"
  using cstr_append [of m p "take i s" "drop i s"] by (simp add: min_absorb2)

text \<open>A write outside a string and its terminator does not change it.\<close>

lemma cstr_upd:
  "cstr m p s \<Longrightarrow> length s < unat (a - p) \<Longrightarrow> cstr (m(a := b)) p s"
proof (induction s arbitrary: p)
  case Nil
  then show ?case by auto
next
  case (Cons c s)
  then have ne: "a \<noteq> p" by auto
  then have "unat (a - p) = Suc (unat (a - (p + 1)))"
    by (simp add: unat_gt_0 diff_diff_eq [symmetric] unat_minus_one)
  with Cons ne show ?case by auto
qed

text \<open>A C string is shorter than the address space: one that wrapped would meet itself.\<close>

lemma cstr_length: "cstr m p s \<Longrightarrow> length s < 2 ^ 64"
proof (rule ccontr)
  assume s: "cstr m p s" and "\<not> length s < 2 ^ 64"
  then have le: "2 ^ 64 \<le> length s" by simp
  let ?j = "length s - 2 ^ 64"
  have "of_nat (length s) = (of_nat ?j + of_nat (2 ^ 64) :: u64)"
    using le by (metis le_add_diff_inverse2 of_nat_add)
  then have "of_nat (length s) = (of_nat ?j :: u64)" by (simp only: of_nat_2p64 add_0_right)
  moreover have "?j < length s" using le by (auto intro!: diff_less)
  ultimately show False using cstr_nth [OF s, of ?j] cstr_end [OF s] by simp
qed

text \<open>Two positions of one string and its terminator have different addresses.\<close>

lemma cstr_ptr_inj:
  "cstr m p s \<Longrightarrow> i \<le> length s \<Longrightarrow> j \<le> length s \<Longrightarrow>
     (p + of_nat i = p + (of_nat j :: u64)) = (i = j)"
  using cstr_length [of m p s] by (intro add_of_nat_inj) simp_all

end
