(* ===== verification/LibcString.thy ===== *)
theory LibcString
  imports Prelude "HOL-Library.List_Lexorder" "HOL-Library.Monad_Syntax" "HOL-Library.Sublist"
begin

text \<open>
  \<open>libc/string\<close>, \<open>libc/ctype\<close> and \<open>libc/stdio/stdio.c\<close>: the memory block functions, the
  C string functions and the in-place whitespace filters, over the byte-addressed memory of
  the prelude. A loop bounded by a size is structural recursion on the count; a loop that
  runs to a terminator is a \<^theory_text>\<open>partial_function (option)\<close>, so that a missing
  terminator shows up as \<open>None\<close>. Pointers are \<open>u64\<close> addresses, 0 is \<open>NULL\<close>.
\<close>

section \<open>libc/ctype/ctype.c\<close>

definition isdigit :: "int \<Rightarrow> bool" where
  "isdigit c \<longleftrightarrow> 48 \<le> c \<and> c \<le> 57"

definition isspace :: "int \<Rightarrow> bool" where
  "isspace c \<longleftrightarrow> c = 32 \<or> c = 9 \<or> c = 10 \<or> c = 11 \<or> c = 12 \<or> c = 13"

definition isxdigit :: "int \<Rightarrow> bool" where
  "isxdigit c \<longleftrightarrow> (48 \<le> c \<and> c \<le> 57) \<or> (97 \<le> c \<and> c \<le> 102) \<or> (65 \<le> c \<and> c \<le> 70)"

definition tolower :: "int \<Rightarrow> int" where
  "tolower c = (if 65 \<le> c \<and> c \<le> 90 then c + (97 - 65) else c)"

section \<open>Memory blocks\<close>

fun memcmp_from :: "mem \<Rightarrow> u64 \<Rightarrow> u64 \<Rightarrow> u64 \<Rightarrow> nat \<Rightarrow> int" where
  "memcmp_from m a b i 0 = 0"
| "memcmp_from m a b i (Suc n) =
     (if m (a + i) < m (b + i) then - 1
      else if m (b + i) < m (a + i) then 1
      else memcmp_from m a b (i + 1) n)"

definition memcmp :: "mem \<Rightarrow> u64 \<Rightarrow> u64 \<Rightarrow> u64 \<Rightarrow> int" where
  "memcmp m a b sz = memcmp_from m a b 0 (unat sz)"

fun memcpy_from :: "mem \<Rightarrow> u64 \<Rightarrow> u64 \<Rightarrow> u64 \<Rightarrow> nat \<Rightarrow> mem" where
  "memcpy_from m dst src i 0 = m"
| "memcpy_from m dst src i (Suc n) =
     memcpy_from (m(dst + i := m (src + i))) dst src (i + 1) n"

definition memcpy :: "mem \<Rightarrow> u64 \<Rightarrow> u64 \<Rightarrow> u64 \<Rightarrow> mem \<times> u64" where
  "memcpy m dstptr srcptr sz = (memcpy_from m dstptr srcptr 0 (unat sz), dstptr)"

fun memmove_down :: "mem \<Rightarrow> u64 \<Rightarrow> u64 \<Rightarrow> nat \<Rightarrow> mem" where
  "memmove_down m dst src 0 = m"
| "memmove_down m dst src (Suc i) =
     memmove_down (m(dst + of_nat i := m (src + of_nat i))) dst src i"

definition memmove :: "mem \<Rightarrow> u64 \<Rightarrow> u64 \<Rightarrow> u64 \<Rightarrow> mem \<times> u64" where
  "memmove m dstptr srcptr sz =
     (if dstptr < srcptr then memcpy_from m dstptr srcptr 0 (unat sz)
      else memmove_down m dstptr srcptr (unat sz), dstptr)"

fun memset_from :: "mem \<Rightarrow> u64 \<Rightarrow> byte \<Rightarrow> u64 \<Rightarrow> nat \<Rightarrow> mem" where
  "memset_from m buf v i 0 = m"
| "memset_from m buf v i (Suc n) = memset_from (m(buf + i := v)) buf v (i + 1) n"

definition memset :: "mem \<Rightarrow> u64 \<Rightarrow> byte \<Rightarrow> u64 \<Rightarrow> mem \<times> u64" where
  "memset m bufptr v sz = (memset_from m bufptr v 0 (unat sz), bufptr)"

lemma memset_from_eq:
  "n \<le> 2 ^ 64 \<Longrightarrow> memset_from m buf v i n = put_bytes m (buf + i) (replicate n v)"
proof (induction n arbitrary: m i)
  case 0
  then show ?case by simp
next
  case (Suc n)
  then show ?case
    using put_bytes_Cons [of "replicate n v" m "buf + i" v] by (simp add: add.assoc)
qed

lemma memset_eq:
  "memset m buf v sz = (put_bytes m buf (replicate (unat sz) v), buf)"
  using unat_lt_64 [of sz] by (simp add: memset_def memset_from_eq less_imp_le)

text \<open>
  The copy loops write what a simultaneous copy would write when no byte still to be read
  has been overwritten: the ascending loop needs that of later sources, the descending loop
  of earlier ones.
\<close>

lemma memcpy_from_eq:
  "n \<le> 2 ^ 64 \<Longrightarrow>
   (\<And>j k. j < k \<Longrightarrow> k < n \<Longrightarrow> dst + i + of_nat j \<noteq> src + i + of_nat k) \<Longrightarrow>
   memcpy_from m dst src i n = put_bytes m (dst + i) (bytes_at m (src + i) n)"
proof (induction n arbitrary: m i)
  case 0
  then show ?case by simp
next
  case (Suc n)
  let ?m = "m(dst + i := m (src + i))"
  have "memcpy_from ?m dst src (i + 1) n
      = put_bytes ?m (dst + (i + 1)) (bytes_at ?m (src + (i + 1)) n)"
  proof (rule Suc.IH)
    show "n \<le> 2 ^ 64" using Suc.prems(1) by simp
    fix j k :: nat
    assume "j < k" "k < n"
    then show "dst + (i + 1) + of_nat j \<noteq> src + (i + 1) + of_nat k"
      using Suc.prems(2) [of "Suc j" "Suc k"] by (simp add: algebra_simps)
  qed
  moreover have "bytes_at ?m (src + (i + 1)) n = bytes_at m (src + (i + 1)) n"
  proof (rule bytes_at_upd_other)
    fix k
    assume "k < n"
    then show "src + (i + 1) + of_nat k \<noteq> dst + i"
      using Suc.prems(2) [of 0 "Suc k"] by (simp add: algebra_simps)
  qed
  ultimately show ?case
    using put_bytes_Cons [of "bytes_at m (src + (i + 1)) n" m "dst + i"] Suc.prems(1)
    by (simp add: bytes_at_Cons add.assoc)
qed

lemma memmove_down_eq:
  "n \<le> 2 ^ 64 \<Longrightarrow>
   (\<And>j k. k < j \<Longrightarrow> j < n \<Longrightarrow> dst + of_nat j \<noteq> src + of_nat k) \<Longrightarrow>
   memmove_down m dst src n = put_bytes m dst (bytes_at m src n)"
proof (induction n arbitrary: m)
  case 0
  then show ?case by simp
next
  case (Suc n)
  let ?m = "m(dst + of_nat n := m (src + of_nat n))"
  have "memmove_down ?m dst src n = put_bytes ?m dst (bytes_at ?m src n)"
    by (rule Suc.IH) (use Suc.prems in auto)
  moreover have "bytes_at ?m src n = bytes_at m src n"
    by (rule bytes_at_upd_other) (use Suc.prems(2) [of _ n] in force)
  ultimately show ?case
    using put_bytes_snoc [of "bytes_at m src n" m dst "m (src + of_nat n)"] Suc.prems(1)
    by (simp add: bytes_at_Suc)
qed

lemma memmove_eq:
  assumes "unat dst + unat n \<le> 2 ^ 64" "unat src + unat n \<le> 2 ^ 64"
  shows "memmove m dst src n = (put_bytes m dst (bytes_at m src (unat n)), dst)"
proof -
  have n: "unat n \<le> 2 ^ 64" using unat_lt_64 [of n] by simp
  show ?thesis
  proof (cases "dst < src")
    case True
    then have lt: "unat dst < unat src" by (simp add: word_less_nat_alt)
    have "memcpy_from m dst src 0 (unat n) = put_bytes m (dst + 0) (bytes_at m (src + 0) (unat n))"
      by (rule memcpy_from_eq [OF n]) (use assms lt in \<open>simp add: add_of_nat_eq_iff\<close>)
    with True show ?thesis by (simp add: memmove_def)
  next
    case False
    then have le: "unat src \<le> unat dst" by (simp add: word_less_nat_alt)
    have "memmove_down m dst src (unat n) = put_bytes m dst (bytes_at m src (unat n))"
      by (rule memmove_down_eq [OF n]) (use assms le in \<open>simp add: add_of_nat_eq_iff\<close>)
    with False show ?thesis by (simp add: memmove_def)
  qed
qed

text \<open>\<open>memcpy\<close> is the same copy when the destination does not start inside the source.\<close>

lemma memcpy_eq:
  assumes "unat dst + unat n \<le> 2 ^ 64" "unat src + unat n \<le> 2 ^ 64"
    and "unat dst \<le> unat src \<or> unat src + unat n \<le> unat dst"
  shows "memcpy m dst src n = (put_bytes m dst (bytes_at m src (unat n)), dst)"
proof -
  have n: "unat n \<le> 2 ^ 64" using unat_lt_64 [of n] by simp
  have "memcpy_from m dst src 0 (unat n) = put_bytes m (dst + 0) (bytes_at m (src + 0) (unat n))"
    by (rule memcpy_from_eq [OF n]) (use assms in \<open>auto simp: add_of_nat_eq_iff\<close>)
  then show ?thesis by (simp add: memcpy_def)
qed

lemma memcmp_from_lex:
  "memcmp_from m a b i n =
     (let x = bytes_at m (a + i) n; y = bytes_at m (b + i) n
      in if x < y then - 1 else if y < x then 1 else 0)"
proof (induction n arbitrary: i)
  case 0
  then show ?case by simp
next
  case (Suc n)
  then show ?case by (auto simp: bytes_at_Cons Let_def add.assoc)
qed

section \<open>C strings\<close>

partial_function (option) strlen_from :: "mem \<Rightarrow> u64 \<Rightarrow> u64 \<Rightarrow> u64 option" where
  "strlen_from m str len = (if m (str + len) \<noteq> 0 then strlen_from m str (len + 1) else Some len)"

definition strlen :: "mem \<Rightarrow> u64 \<Rightarrow> u64 option" where
  "strlen m str = strlen_from m str 0"

text \<open>\<open>c\<close> is a C \<open>int\<close>: the loop compares its low byte, the last test the whole of it.\<close>

partial_function (option) strchr :: "mem \<Rightarrow> u64 \<Rightarrow> u32 \<Rightarrow> u64 option" where
  "strchr m s c =
     (if m s \<noteq> 0 then (if m s = ucast c then Some s else strchr m (s + 1) c)
      else Some (if c \<noteq> 0 then 0 else s))"

fun strncmp_from :: "mem \<Rightarrow> u64 \<Rightarrow> u64 \<Rightarrow> u64 \<Rightarrow> nat \<Rightarrow> int" where
  "strncmp_from m a b i 0 = 0"
| "strncmp_from m a b i (Suc n) =
     (if m (a + i) = 0 \<and> m (b + i) = 0 then 0
      else if m (a + i) = 0 then - 1
      else if m (b + i) = 0 then 1
      else if m (a + i) < m (b + i) then - 1
      else if m (a + i) > m (b + i) then 1
      else strncmp_from m a b (i + 1) n)"

definition strncmp :: "mem \<Rightarrow> u64 \<Rightarrow> u64 \<Rightarrow> u64 \<Rightarrow> int" where
  "strncmp m aptr bptr sz = strncmp_from m aptr bptr 0 (unat sz)"

partial_function (option) strrchr_from :: "mem \<Rightarrow> u64 \<Rightarrow> u32 \<Rightarrow> u64 \<Rightarrow> u64 option" where
  "strrchr_from m str c last_occurrence =
     (if m str \<noteq> 0 then strrchr_from m (str + 1) c (if m str = ucast c then str else last_occurrence)
      else Some (if c = 0 then str else last_occurrence))"

definition strrchr :: "mem \<Rightarrow> u64 \<Rightarrow> u32 \<Rightarrow> u64 option" where
  "strrchr m str c = strrchr_from m str c 0"

partial_function (option) strstr_match :: "mem \<Rightarrow> u64 \<Rightarrow> u64 \<Rightarrow> u64 option" where
  "strstr_match m h n =
     (if m h = m n \<and> m n \<noteq> 0 then strstr_match m (h + 1) (n + 1) else Some n)"

partial_function (option) strstr_scan :: "mem \<Rightarrow> u64 \<Rightarrow> u64 \<Rightarrow> u64 option" where
  "strstr_scan m haystack needle =
     (if m haystack \<noteq> 0 then
        do { n \<leftarrow> strstr_match m haystack needle;
             if m n = 0 then Some haystack else strstr_scan m (haystack + 1) needle }
      else Some 0)"

definition strstr :: "mem \<Rightarrow> u64 \<Rightarrow> u64 \<Rightarrow> u64 option" where
  "strstr m haystack needle =
     (if needle = 0 \<or> m needle = 0 then Some haystack
      else if haystack = 0 \<or> m haystack = 0 then Some 0
      else strstr_scan m haystack needle)"

partial_function (option) strcmp :: "mem \<Rightarrow> u64 \<Rightarrow> u64 \<Rightarrow> int option" where
  "strcmp m s1 s2 =
     (if m s1 \<noteq> 0 \<and> m s1 = m s2 then strcmp m (s1 + 1) (s2 + 1)
      else Some (uint (m s1) - uint (m s2)))"

text \<open>
  The two loops \<open>strcat\<close> and \<open>strjoin\<close> share: run to the terminator of \<open>dst\<close>, and copy
  characters up to the terminator of \<open>src\<close>, leaving the pointer behind the last one.
\<close>

partial_function (option) str_end :: "mem \<Rightarrow> u64 \<Rightarrow> u64 option" where
  "str_end m dst = (if m dst \<noteq> 0 then str_end m (dst + 1) else Some dst)"

partial_function (option) str_copy :: "mem \<Rightarrow> u64 \<Rightarrow> u64 \<Rightarrow> (mem \<times> u64) option" where
  "str_copy m dst src =
     (if m src \<noteq> 0 then str_copy (m(dst := m src)) (dst + 1) (src + 1) else Some (m, dst))"

definition strcat :: "mem \<Rightarrow> u64 \<Rightarrow> u64 \<Rightarrow> (mem \<times> u64) option" where
  "strcat m dst src =
     do { d \<leftarrow> str_end m dst;
          (m', d') \<leftarrow> str_copy m d src;
          Some (m'(d' := 0), dst) }"

text \<open>\<open>strjoin_loop\<close> runs the \<open>for\<close> loop for the arguments \<open>i, \<dots>, i + n - 1\<close>.\<close>

fun strjoin_loop :: "mem \<Rightarrow> u64 \<Rightarrow> (int \<Rightarrow> u64) \<Rightarrow> u64 \<Rightarrow> int \<Rightarrow> nat \<Rightarrow> (mem \<times> u64) option" where
  "strjoin_loop m dst argv delim i 0 = Some (m, dst)"
| "strjoin_loop m dst argv delim i (Suc n) =
     do { (m1, d1) \<leftarrow> str_copy m dst (argv i);
          (m2, d2) \<leftarrow> str_copy m1 d1 delim;
          strjoin_loop m2 d2 argv delim (i + 1) n }"

definition strjoin :: "mem \<Rightarrow> u64 \<Rightarrow> int \<Rightarrow> (int \<Rightarrow> u64) \<Rightarrow> u64 \<Rightarrow> (mem \<times> u64) option" where
  "strjoin m dst argc argv delim =
     do { d \<leftarrow> str_end m dst;
          (m1, d1) \<leftarrow> strjoin_loop m d argv delim 0 (nat (argc - 1));
          (m2, d2) \<leftarrow> str_copy m1 d1 (argv (argc - 1));
          Some (m2(d2 := 0), dst) }"

text \<open>
  \<open>strtok\<close> keeps its position in a static variable: \<open>start\<close> is passed in and returned.
  \<open>strtok_end\<close> is the loop that looks for the end of the token.
\<close>

partial_function (option) strtok_end :: "mem \<Rightarrow> u64 \<Rightarrow> u64 \<Rightarrow> u64 option" where
  "strtok_end m e delim =
     (if m e \<noteq> 0 then
        do { r \<leftarrow> strchr m delim (scast (m e));
             if r = 0 then strtok_end m (e + 1) delim else Some e }
      else Some e)"

definition strtok :: "mem \<Rightarrow> u64 \<Rightarrow> u64 \<Rightarrow> u64 \<Rightarrow> (u64 \<times> mem \<times> u64) option" where
  "strtok m start str delim =
     (let start = (if str \<noteq> 0 then str else start) in
      if start = 0 then Some (0, m, start)
      else do { e \<leftarrow> strtok_end m start delim;
                if e = start then Some (0, m, 0)
                else if m e = 0 then Some (start, m, 0)
                else Some (start, m(e := 0), e + 1) })"

definition isnumber :: "mem \<Rightarrow> u64 \<Rightarrow> bool option" where
  "isnumber m s =
     do { len \<leftarrow> strlen m s;
          Some (\<forall>i \<in> set [0..<unat len]. isdigit (sint (m (s + of_nat i)))) }"

section \<open>libc/stdio/stdio.c: whitespace filters\<close>

partial_function (option) skip_space :: "mem \<Rightarrow> u64 \<Rightarrow> u64 option" where
  "skip_space m s = (if isspace (uint (m s)) then skip_space m (s + 1) else Some s)"

partial_function (option) trim_back :: "mem \<Rightarrow> u64 \<Rightarrow> u64 \<Rightarrow> u64 option" where
  "trim_back m s e = (if e > s \<and> isspace (uint (m e)) then trim_back m s (e - 1) else Some e)"

definition trimwhitespace :: "mem \<Rightarrow> u64 \<Rightarrow> (mem \<times> u64) option" where
  "trimwhitespace m s =
     do { s \<leftarrow> skip_space m s;
          if m s = 0 then Some (m, s)
          else do { len \<leftarrow> strlen m s;
                    e \<leftarrow> trim_back m s (s + len - 1);
                    Some (m(e + 1 := 0), s) } }"

text \<open>
  The index variables of the next two functions are C \<open>int\<close>s: the models read them as
  naturals, which is what they are for strings shorter than \<open>2 ^ 31\<close>.
\<close>

partial_function (option) rmwhitespace_from :: "mem \<Rightarrow> u64 \<Rightarrow> nat \<Rightarrow> nat \<Rightarrow> mem option" where
  "rmwhitespace_from m s i j =
     (if m (s + of_nat i) \<noteq> 0 then
        if \<not> isspace (sint (m (s + of_nat i)))
        then rmwhitespace_from (m(s + of_nat j := m (s + of_nat i))) s (i + 1) (j + 1)
        else rmwhitespace_from m s (i + 1) j
      else Some (m(s + of_nat j := 0)))"

definition rmwhitespace :: "mem \<Rightarrow> u64 \<Rightarrow> (mem \<times> u64) option" where
  "rmwhitespace m s = do { m' \<leftarrow> rmwhitespace_from m s 0 0; Some (m', s) }"

partial_function (option) ftrimwhitespace_from ::
  "mem \<Rightarrow> u64 \<Rightarrow> nat \<Rightarrow> nat \<Rightarrow> bool \<Rightarrow> mem option" where
  "ftrimwhitespace_from m s i j sf =
     (if m (s + of_nat i) \<noteq> 0 then
        if m (s + of_nat i) \<noteq> 32
        then ftrimwhitespace_from (m(s + of_nat j := m (s + of_nat i))) s (i + 1) (j + 1) False
        else if \<not> sf
        then ftrimwhitespace_from (m(s + of_nat j := 32)) s (i + 1) (j + 1) True
        else ftrimwhitespace_from m s (i + 1) j sf
      else Some (m(s + of_nat j := 0)))"

definition ftrimwhitespace :: "mem \<Rightarrow> u64 \<Rightarrow> (mem \<times> u64) option" where
  "ftrimwhitespace m s = do { m' \<leftarrow> ftrimwhitespace_from m s 0 0 False; Some (m', s) }"

declare strlen_from.simps [code] strchr.simps [code] strrchr_from.simps [code] strstr_match.simps [code]
  strstr_scan.simps [code] strcmp.simps [code] str_end.simps [code] str_copy.simps [code]
  strtok_end.simps [code] skip_space.simps [code] trim_back.simps [code]
  rmwhitespace_from.simps [code] ftrimwhitespace_from.simps [code]

section \<open>What the string functions compute\<close>

lemma strlen_from_eq: "cstr m (str + len) s \<Longrightarrow> strlen_from m str len = Some (len + of_nat (length s))"
proof (induction s arbitrary: len)
  case Nil
  then show ?case by (subst strlen_from.simps) simp
next
  case (Cons c s)
  then show ?case by (subst strlen_from.simps) (simp add: add.assoc)
qed

lemma strlen_eq: "cstr m str s \<Longrightarrow> strlen m str = Some (of_nat (length s))"
  using strlen_from_eq [of m str 0 s] by (simp add: strlen_def)

lemma str_end_eq: "cstr m p s \<Longrightarrow> str_end m p = Some (p + of_nat (length s))"
proof (induction s arbitrary: p)
  case Nil
  then show ?case by (subst str_end.simps) simp
next
  case (Cons c s)
  then show ?case by (subst str_end.simps) (simp add: add.assoc)
qed

lemma strchr_eq:
  "cstr m p s \<Longrightarrow> strchr m p c =
     Some (let i = length (takeWhile (\<lambda>b. b \<noteq> ucast c) s)
           in if i < length s \<or> c = 0 then p + of_nat i else 0)"
proof (induction s arbitrary: p)
  case Nil
  then show ?case by (subst strchr.simps) simp
next
  case (Cons b s)
  then show ?case by (subst strchr.simps) (auto simp: Let_def add.assoc)
qed

lemma strrchr_from_miss:
  "cstr m p s \<Longrightarrow> c \<noteq> 0 \<Longrightarrow> ucast c \<notin> set s \<Longrightarrow> strrchr_from m p c l = Some l"
proof (induction s arbitrary: p)
  case Nil
  then show ?case by (subst strrchr_from.simps) simp
next
  case (Cons b s)
  then show ?case by (subst strrchr_from.simps) auto
qed

lemma strrchr_from_hit:
  "cstr m p (s @ ucast c # t) \<Longrightarrow> c \<noteq> 0 \<Longrightarrow> ucast c \<notin> set t \<Longrightarrow>
     strrchr_from m p c l = Some (p + of_nat (length s))"
proof (induction s arbitrary: p l)
  case Nil
  then show ?case by (subst strrchr_from.simps) (auto intro: strrchr_from_miss)
next
  case (Cons b s)
  then show ?case by (subst strrchr_from.simps) (auto simp: add.assoc)
qed

lemma uint_pos: "0 < uint (x :: 'a::len word) \<longleftrightarrow> x \<noteq> 0"
  using uint_ge_0 [of x] by (auto simp: less_le unsigned_eq_0_iff)

text \<open>\<open>strcmp\<close> is the sign-compatible difference at the first position where the strings differ.\<close>

lemma strcmp_eq:
  "cstr m p s \<Longrightarrow> cstr m q t \<Longrightarrow>
     \<exists>r. strcmp m p q = Some r \<and> (r = 0 \<longleftrightarrow> s = t) \<and> (r < 0 \<longleftrightarrow> s < t) \<and> (r > 0 \<longleftrightarrow> t < s)"
proof (induction s arbitrary: p q t)
  case Nil
  then show ?case
    by (cases t; subst strcmp.simps) (auto simp: unsigned_eq_0_iff uint_pos)
next
  case (Cons c s)
  show ?case
  proof (cases t)
    case Nil
    with Cons.prems show ?thesis
      by (subst strcmp.simps) (auto simp: unsigned_eq_0_iff uint_pos)
  next
    case (Cons d t')
    show ?thesis
    proof (cases "c = d")
      case True
      with Cons Cons.prems Cons.IH [of "p + 1" "q + 1" t'] show ?thesis
        by (subst strcmp.simps) auto
    next
      case False
      with Cons Cons.prems show ?thesis
        by (subst strcmp.simps) (auto simp: word_less_def dest: unsigned_word_eqI)
    qed
  qed
qed

text \<open>\<open>strstr\<close> returns the first position at which the needle is a prefix of the rest.\<close>

fun first_occ :: "'a list \<Rightarrow> 'a list \<Rightarrow> nat option" where
  "first_occ t [] = None"
| "first_occ t (c # s) = (if prefix t (c # s) then Some 0 else map_option Suc (first_occ t s))"

lemma first_occ_SomeD:
  "first_occ t s = Some i \<Longrightarrow> i < length s \<and> prefix t (drop i s) \<and> (\<forall>j < i. \<not> prefix t (drop j s))"
proof (induction t s arbitrary: i rule: first_occ.induct)
  case (1 t)
  then show ?case by simp
next
  case (2 t c s)
  then show ?case by (auto split: if_splits simp: less_Suc_eq_0_disj)
qed

lemma first_occ_NoneD: "first_occ t s = None \<Longrightarrow> t \<noteq> [] \<Longrightarrow> \<not> sublist t s"
  by (induction t s rule: first_occ.induct) (auto split: if_splits simp: sublist_Cons_right)

lemma strstr_match_eq:
  "cstr m h s \<Longrightarrow> cstr m n t \<Longrightarrow> \<exists>n'. strstr_match m h n = Some n' \<and> (m n' = 0 \<longleftrightarrow> prefix t s)"
proof (induction t arbitrary: h n s)
  case Nil
  then show ?case by (subst strstr_match.simps) simp
next
  case (Cons c t)
  show ?case
  proof (cases s)
    case Nil
    with Cons.prems show ?thesis by (subst strstr_match.simps) auto
  next
    case (Cons d s')
    with Cons.prems Cons.IH [of "h + 1" s' "n + 1"] show ?thesis
      by (subst strstr_match.simps) auto
  qed
qed

lemma strstr_scan_eq:
  "cstr m h s \<Longrightarrow> cstr m n t \<Longrightarrow>
     strstr_scan m h n = Some (case first_occ t s of None \<Rightarrow> 0 | Some i \<Rightarrow> h + of_nat i)"
proof (induction s arbitrary: h)
  case Nil
  then show ?case by (subst strstr_scan.simps) simp
next
  case (Cons c s)
  obtain n' where "strstr_match m h n = Some n'" "(m n' = 0) = prefix t (c # s)"
    using strstr_match_eq [OF Cons.prems] by blast
  with Cons show ?case
    by (subst strstr_scan.simps) (auto split: option.splits simp: add.assoc)
qed

text \<open>\<open>str_copy\<close> reads the original source while no write lands on what is still to be read.\<close>

lemma str_copy_eq:
  "cstr m src t \<Longrightarrow> (\<And>j k. j < k \<Longrightarrow> k \<le> length t \<Longrightarrow> dst + of_nat j \<noteq> src + of_nat k) \<Longrightarrow>
     str_copy m dst src = Some (put_bytes m dst t, dst + of_nat (length t))"
proof (induction t arbitrary: m dst src)
  case Nil
  then show ?case by (subst str_copy.simps) simp
next
  case (Cons c t)
  have len: "Suc (length t) \<le> 2 ^ 64" using cstr_length [OF Cons.prems(1)] by simp
  have "cstr (m(dst := c)) (src + 1) t"
  proof (rule cstrI)
    fix i assume i: "i < length t"
    have "dst + of_nat 0 \<noteq> src + of_nat (Suc i)" using Cons.prems(2) [of 0 "Suc i"] i by simp
    then show "(m(dst := c)) (src + 1 + of_nat i) = t ! i"
      using cstr_nth [OF Cons.prems(1), of "Suc i"] i by (auto simp: add.assoc)
  next
    show "0 \<notin> set t" using cstr_no_nul [OF Cons.prems(1)] by simp
    have "dst + of_nat 0 \<noteq> src + of_nat (Suc (length t))"
      using Cons.prems(2) [of 0 "Suc (length t)"] by simp
    then show "(m(dst := c)) (src + 1 + of_nat (length t)) = 0"
      using cstr_end [OF Cons.prems(1)] by (auto simp: add.assoc)
  qed
  moreover have "dst + 1 + of_nat j \<noteq> src + 1 + of_nat k" if "j < k" "k \<le> length t" for j k
    using Cons.prems(2) [of "Suc j" "Suc k"] that by (simp add: add.assoc)
  ultimately have "str_copy (m(dst := c)) (dst + 1) (src + 1)
      = Some (put_bytes (m(dst := c)) (dst + 1) t, dst + 1 + of_nat (length t))"
    by (rule Cons.IH)
  with Cons.prems(1) len show ?case
    by (subst str_copy.simps) (auto simp: put_bytes_Cons add.assoc)
qed

lemma strcat_eq:
  assumes d: "cstr m dst s" and q: "cstr m src t"
    and out: "\<And>j k. j \<le> length t \<Longrightarrow> k \<le> length t \<Longrightarrow> dst + of_nat (length s + j) \<noteq> src + of_nat k"
  shows "strcat m dst src = Some (put_bytes m (dst + of_nat (length s)) (t @ [0]), dst)"
proof -
  have "str_copy m (dst + of_nat (length s)) src
      = Some (put_bytes m (dst + of_nat (length s)) t, dst + of_nat (length s) + of_nat (length t))"
    using out by (intro str_copy_eq [OF q]) (auto simp: add.assoc)
  with cstr_length [OF q] show ?thesis
    by (simp add: strcat_def str_end_eq [OF d] put_bytes_snoc_last)
qed

lemma cstr_put_bytes_append:
  assumes d: "cstr m dst s" and t: "0 \<notin> set t" and len: "length s + length t < 2 ^ 64"
  shows "cstr (put_bytes m (dst + of_nat (length s)) (t @ [0])) dst (s @ t)"
proof (rule cstrI)
  let ?p = "dst + of_nat (length s)"
  fix i assume i: "i < length (s @ t)"
  show "put_bytes m ?p (t @ [0]) (dst + of_nat i) = (s @ t) ! i"
  proof (cases "i < length s")
    case True
    have "dst + of_nat i - ?p = - of_nat (length s - i)"
      using True by (simp add: of_nat_diff)
    then have "unat (dst + of_nat i - ?p) = 2 ^ 64 - (length s - i)"
      using True len unat_minus_of_nat [of "length s - i"] by simp
    with True len show ?thesis
      using cstr_nth [OF d] by (simp add: put_bytes_out nth_append)
  next
    case False
    then have "dst + of_nat i = ?p + of_nat (i - length s)" by (simp add: of_nat_diff)
    moreover have "i - length s < length t" using False i by simp
    ultimately show ?thesis
      using False len put_bytes_in [of "i - length s" "t @ [0]" m ?p] by (simp add: nth_append)
  qed
next
  show "0 \<notin> set (s @ t)" using t cstr_no_nul [OF d] by simp
  show "put_bytes m (dst + of_nat (length s)) (t @ [0]) (dst + of_nat (length (s @ t))) = 0"
    using len put_bytes_in [of "length t" "t @ [0]" m "dst + of_nat (length s)"]
    by (simp add: add.assoc)
qed

text \<open>The end of a token is the first delimiter or the terminator.\<close>

lemma ucast_scast_byte [simp]: "ucast (scast (b :: byte) :: u32) = b"
  by (rule bit_word_eqI) (simp add: bit_unsigned_iff bit_signed_iff)

lemma scast_byte_eq_0 [simp]: "(scast (b :: byte) :: u32) = 0 \<longleftrightarrow> b = 0"
  by (metis ucast_scast_byte unsigned_0 signed_0)

lemma strchr_member:
  assumes "cstr m d ds" "b \<noteq> 0" "unat d + length ds < 2 ^ 64" "d \<noteq> 0"
  shows "\<exists>r. strchr m d (scast b) = Some r \<and> (r = 0 \<longleftrightarrow> b \<notin> set ds)"
proof -
  let ?i = "length (takeWhile (\<lambda>x. x \<noteq> b) ds)"
  have "?i < length ds \<longleftrightarrow> b \<in> set ds"
    by (metis (mono_tags) length_takeWhile_le le_neq_implies_less less_irrefl takeWhile_eq_all_conv
        takeWhile_eq_take take_all_iff order_refl)
  moreover have "d + of_nat ?i \<noteq> 0"
  proof -
    have "unat d + ?i < 2 ^ 64"
      using assms(3) length_takeWhile_le [of "\<lambda>x. x \<noteq> b" ds] by linarith
    then have "unat (d + of_nat ?i) = unat d + ?i" by (rule unat_add_of_nat)
    with assms(4) show ?thesis by (metis add_is_0 unat_eq_0 unsigned_0)
  qed
  ultimately show ?thesis
    using assms(2) by (simp add: strchr_eq [OF assms(1)] Let_def)
qed

lemma strtok_end_eq:
  assumes d: "cstr m d ds" "unat d + length ds < 2 ^ 64" "d \<noteq> 0"
  shows "cstr m p s \<Longrightarrow>
    strtok_end m p d = Some (p + of_nat (length (takeWhile (\<lambda>b. b \<notin> set ds) s)))"
proof (induction s arbitrary: p)
  case Nil
  then show ?case by (subst strtok_end.simps) simp
next
  case (Cons b s)
  then obtain r where "strchr m d (scast b) = Some r" "r = 0 \<longleftrightarrow> b \<notin> set ds"
    using strchr_member [OF d(1), of b] d by auto
  with Cons show ?case by (subst strtok_end.simps) (auto simp: add.assoc)
qed

section \<open>What the whitespace filters compute\<close>

text \<open>
  Both in-place filters keep a read index \<open>i\<close> and a write index \<open>j \<le> i\<close>: a write never
  reaches the part of the string still to be read.
\<close>

lemma inplace_write:
  assumes s: "cstr m (p + of_nat i) (c # t)" and acc: "bytes_at m p j = acc" and ji: "j \<le> i"
    and len: "i + length (c # t) < 2 ^ 64"
  shows "cstr (m(p + of_nat j := b)) (p + of_nat (Suc i)) t"
    and "bytes_at (m(p + of_nat j := b)) p (Suc j) = acc @ [b]"
proof -
  have tl: "cstr m (p + of_nat (Suc i)) t" using s by (simp add: ac_simps)
  show "cstr (m(p + of_nat j := b)) (p + of_nat (Suc i)) t"
  proof (rule cstr_upd [OF tl])
    have "p + of_nat j - (p + of_nat (Suc i)) = - (of_nat (Suc i - j) :: u64)"
      using ji by (simp add: of_nat_diff)
    then have "unat (p + of_nat j - (p + of_nat (Suc i))) = 2 ^ 64 - (Suc i - j)"
      using ji len unat_minus_of_nat [of "Suc i - j"] by simp
    with len ji show "length t < unat (p + of_nat j - (p + of_nat (Suc i)))" by simp
  qed
  have "p + of_nat k \<noteq> p + of_nat j" if "k < j" for k
    using that ji len add_of_nat_inj [of k j p] by auto
  with acc show "bytes_at (m(p + of_nat j := b)) p (Suc j) = acc @ [b]"
    by (simp add: bytes_at_Suc bytes_at_upd_other)
qed

lemma inplace_end:
  assumes acc: "bytes_at m p j = acc" "0 \<notin> set acc" and j: "j < 2 ^ 64"
  shows "cstr (m(p + of_nat j := 0)) p acc"
proof (rule cstrI)
  have len: "length acc = j" using acc by auto
  fix i assume i: "i < length acc"
  then have "p + of_nat i \<noteq> p + of_nat j" using len j add_of_nat_inj [of i j p] by auto
  with acc i len show "(m(p + of_nat j := 0)) (p + of_nat i) = acc ! i" by auto
next
  show "0 \<notin> set acc" "(m(p + of_nat j := 0)) (p + of_nat (length acc)) = 0" using acc by auto
qed

lemma rmwhitespace_from_eq:
  "cstr m (p + of_nat i) t \<Longrightarrow> bytes_at m p j = acc \<Longrightarrow> 0 \<notin> set acc \<Longrightarrow> j \<le> i \<Longrightarrow>
   i + length t < 2 ^ 64 \<Longrightarrow>
   \<exists>m'. rmwhitespace_from m p i j = Some m' \<and> cstr m' p (acc @ filter (\<lambda>c. \<not> isspace (sint c)) t)"
proof (induction t arbitrary: m i j acc)
  case Nil
  then show ?case
    by (subst rmwhitespace_from.simps) (simp add: inplace_end)
next
  case (Cons c t)
  note w = inplace_write [OF Cons.prems(1,2,4,5)]
  have c: "m (p + of_nat i) = c" "c \<noteq> 0" using Cons.prems(1) by auto
  have tl: "cstr m (p + of_nat (Suc i)) t" using Cons.prems(1) by (simp add: ac_simps)
  show ?case
  proof (cases "isspace (sint c)")
    case True
    have "\<exists>m'. rmwhitespace_from m p (Suc i) j = Some m' \<and>
        cstr m' p (acc @ filter (\<lambda>c. \<not> isspace (sint c)) t)"
      by (rule Cons.IH [OF tl Cons.prems(2,3)]) (use Cons.prems in auto)
    with c True show ?thesis by (subst rmwhitespace_from.simps) simp
  next
    case False
    have "\<exists>m'. rmwhitespace_from (m(p + of_nat j := c)) p (Suc i) (Suc j) = Some m' \<and>
        cstr m' p ((acc @ [c]) @ filter (\<lambda>c. \<not> isspace (sint c)) t)"
      by (rule Cons.IH [OF w(1) w(2)]) (use Cons.prems c in auto)
    with c False show ?thesis by (subst rmwhitespace_from.simps) simp
  qed
qed

text \<open>\<open>squeeze\<close> keeps one space of every run; the flag says the last character kept was one.\<close>

fun squeeze :: "bool \<Rightarrow> byte list \<Rightarrow> byte list" where
  "squeeze sf [] = []"
| "squeeze sf (c # s) =
     (if c \<noteq> 32 then c # squeeze False s else if \<not> sf then 32 # squeeze True s else squeeze sf s)"

lemma ftrimwhitespace_from_eq:
  "cstr m (p + of_nat i) t \<Longrightarrow> bytes_at m p j = acc \<Longrightarrow> 0 \<notin> set acc \<Longrightarrow> j \<le> i \<Longrightarrow>
   i + length t < 2 ^ 64 \<Longrightarrow>
   \<exists>m'. ftrimwhitespace_from m p i j sf = Some m' \<and> cstr m' p (acc @ squeeze sf t)"
proof (induction t arbitrary: m i j acc sf)
  case Nil
  then show ?case
    by (subst ftrimwhitespace_from.simps) (simp add: inplace_end)
next
  case (Cons c t)
  note w = inplace_write [OF Cons.prems(1,2,4,5)]
  have c: "m (p + of_nat i) = c" "c \<noteq> 0" using Cons.prems(1) by auto
  have tl: "cstr m (p + of_nat (Suc i)) t" using Cons.prems(1) by (simp add: ac_simps)
  have wr: "\<exists>m'. ftrimwhitespace_from (m(p + of_nat j := c)) p (Suc i) (Suc j) f = Some m' \<and>
        cstr m' p ((acc @ [c]) @ squeeze f t)" for f
    by (rule Cons.IH [OF w(1) w(2)]) (use Cons.prems c in auto)
  have sk: "\<exists>m'. ftrimwhitespace_from m p (Suc i) j sf = Some m' \<and> cstr m' p (acc @ squeeze sf t)"
    by (rule Cons.IH [OF tl Cons.prems(2,3)]) (use Cons.prems in auto)
  show ?case
    using c wr [of False] wr [of True] sk by (subst ftrimwhitespace_from.simps) auto
qed

lemma squeeze_no_double:
  "Suc i < length (squeeze sf s) \<Longrightarrow> squeeze sf s ! i = 32 \<Longrightarrow> squeeze sf s ! Suc i \<noteq> 32"
proof (induction sf s arbitrary: i rule: squeeze.induct)
  case (1 sf)
  then show ?case by simp
next
  case (2 sf c s)
  have hd: "squeeze True t \<noteq> [] \<Longrightarrow> squeeze True t ! 0 \<noteq> 32" for t
    by (induction t) auto
  from 2 show ?case
    by (cases i) (auto split: if_splits dest: hd)
qed

section \<open>Correctness of the string library\<close>

text \<open>
  C1. \<open>memmove\<close> is right for overlapping blocks: when neither block wraps around the address
  space, the destination then holds the bytes the source held before the call, and every
  byte outside the destination is unchanged.
\<close>

theorem memmove_overlap:
  assumes "unat dst + unat n \<le> 2 ^ 64" "unat src + unat n \<le> 2 ^ 64"
  shows "case memmove m dst src n of (m', r) \<Rightarrow>
    r = dst \<and> bytes_at m' dst (unat n) = bytes_at m src (unat n) \<and>
    (\<forall>a. unat (a - dst) \<ge> unat n \<longrightarrow> m' a = m a)"
proof -
  have "unat n \<le> 2 ^ 64" using unat_lt_64 [of n] by simp
  then show ?thesis
    using bytes_at_put_bytes [of "bytes_at m src (unat n)" m dst]
    by (simp add: memmove_eq [OF assms] put_bytes_out)
qed

theorem memmove_overlap_witness:
  "case memmove (\<lambda>a. ucast a) 101 100 4 of (m', r) \<Rightarrow>
    r = 101 \<and> bytes_at m' 101 4 = [100, 101, 102, 103] \<and>
    (\<forall>a. unat (a - 101) \<ge> 4 \<longrightarrow> m' a = ucast a)"
  using memmove_overlap [of 101 4 100 "\<lambda>a. ucast a"]
  by (simp add: bytes_at_def upt_rec split: prod.splits)

text \<open>
  C2. \<open>strstr\<close> always returns on C strings; for a non-empty needle the result is NULL when
  the needle does not occur, and otherwise the pointer to its first occurrence.
\<close>

theorem strstr_first:
  assumes "cstr m h s" "cstr m n t" "t \<noteq> []" "n \<noteq> 0" "h \<noteq> 0"
  shows "\<exists>r. strstr m h n = Some r \<and>
    (if sublist t s
     then \<exists>i < length s. r = h + of_nat i \<and> prefix t (drop i s) \<and> (\<forall>j < i. \<not> prefix t (drop j s))
     else r = 0)"
proof -
  have n: "m n \<noteq> 0" using assms(2,3) by (cases t) auto
  have scan: "strstr m h n = Some (case first_occ t s of None \<Rightarrow> 0 | Some i \<Rightarrow> h + of_nat i)"
  proof (cases s)
    case Nil
    with assms n show ?thesis by (simp add: strstr_def)
  next
    case (Cons c s')
    with assms n show ?thesis by (simp add: strstr_def strstr_scan_eq del: first_occ.simps)
  qed
  show ?thesis
  proof (cases "first_occ t s")
    case None
    with assms(3) scan show ?thesis by (simp add: first_occ_NoneD)
  next
    case (Some i)
    then have i: "i < length s" "prefix t (drop i s)" "\<forall>j < i. \<not> prefix t (drop j s)"
      by (auto dest: first_occ_SomeD)
    then have "sublist t s"
      by (metis append_take_drop_id prefixE sublist_appendI)
    with Some i scan show ?thesis by auto
  qed
qed

theorem strstr_first_witness:
  "let m = put_bytes (put_bytes (\<lambda>_. 0) 16 (lit ''abcab'')) 32 (lit ''ca'') in
   \<exists>r. strstr m 16 32 = Some r \<and>
    (\<exists>i < length (lit ''abcab''). r = 16 + of_nat i \<and> prefix (lit ''ca'') (drop i (lit ''abcab'')))"
proof -
  let ?m = "put_bytes (put_bytes (\<lambda>_. 0) 16 (lit ''abcab'')) 32 (lit ''ca'')"
  have "cstr ?m 16 (lit ''abcab'')" "cstr ?m 32 (lit ''ca'')" by (simp_all add: put_bytes_def)
  moreover have "sublist (lit ''ca'') (lit ''abcab'')"
    by (simp add: sublist_code)
  ultimately show ?thesis
    using strstr_first [of ?m 16 "lit ''abcab''" 32 "lit ''ca''"] unfolding Let_def
    by (simp del: lit_simps) (auto simp: lit_def)
qed

lemma strtok_call:
  assumes "cstr m p s" "p \<noteq> 0" "cstr m d ds" "d \<noteq> 0" "unat d + length ds < 2 ^ 64"
    and "str = p \<or> str = 0 \<and> start = p"
  defines "tok \<equiv> takeWhile (\<lambda>b. b \<notin> set ds) s"
  shows "\<exists>r m' start'. strtok m start str d = Some (r, m', start') \<and>
    (if tok = [] then r = 0 \<and> m' = m \<and> start' = 0
     else r = p \<and> cstr m' p tok \<and>
       (if tok = s then m' = m \<and> start' = 0
        else m' = m(p + of_nat (length tok) := 0) \<and> start' = p + of_nat (length tok) + 1 \<and>
          cstr m' start' (drop (Suc (length tok)) s)))"
proof -
  let ?k = "length tok"
  have e: "strtok_end m p d = Some (p + of_nat ?k)"
    unfolding tok_def by (rule strtok_end_eq [OF assms(3,5,4,1)])
  have st: "(if str \<noteq> 0 then str else start) = p" using assms(2,6) by auto
  have le: "?k \<le> length s" by (simp add: tok_def length_takeWhile_le)
  have s: "tok @ drop ?k s = s" by (simp add: tok_def dropWhile_eq_drop [symmetric])
  have z: "m (p + of_nat ?k) = 0 \<longleftrightarrow> tok = s"
  proof (cases "drop ?k s")
    case Nil
    with cstr_drop [OF assms(1) le] s show ?thesis by simp
  next
    case (Cons c t)
    with s have "length s = ?k + Suc (length t)" by (metis length_append length_Cons)
    with Cons cstr_drop [OF assms(1) le] show ?thesis by auto
  qed
  have k0: "p + of_nat ?k = p \<longleftrightarrow> tok = []"
    using cstr_ptr_inj [OF assms(1) le, of 0] by auto
  have cut: "cstr (m(p + of_nat ?k := 0)) p tok" "cstr (m(p + of_nat ?k := 0)) (p + of_nat ?k + 1) (drop (Suc ?k) s)"
    if ne: "tok \<noteq> s"
  proof -
    have k: "?k < length s" using ne le s by (metis append.right_neutral drop_all le_neq_implies_less order_refl)
    have bs: "bytes_at m p ?k = tok"
      using cstr_append [of m p tok "drop ?k s"] assms(1) unfolding s by (intro nth_equalityI) auto
    show "cstr (m(p + of_nat ?k := 0)) p tok"
    proof (rule inplace_end [OF bs])
      show "0 \<notin> set tok" using cstr_no_nul [OF assms(1)] by (auto simp: tok_def dest: set_takeWhileD)
      show "?k < 2 ^ 64" using cstr_length [OF assms(1)] k by (rule order_less_trans [rotated])
    qed
    have "cstr m (p + of_nat ?k) (s ! ?k # drop (Suc ?k) s)"
      using cstr_drop [OF assms(1) le] k by (simp add: Cons_nth_drop_Suc)
    moreover have "?k + length (s ! ?k # drop (Suc ?k) s) < 2 ^ 64"
      using k cstr_length [OF assms(1)] by simp
    ultimately have "cstr (m(p + of_nat ?k := 0)) (p + of_nat (Suc ?k)) (drop (Suc ?k) s)"
      by (rule inplace_write(1) [OF _ bs order_refl])
    then show "cstr (m(p + of_nat ?k := 0)) (p + of_nat ?k + 1) (drop (Suc ?k) s)"
      by (simp add: ac_simps)
  qed
  have run: "strtok m start str d =
      (if tok = [] then Some (0, m, 0) else if tok = s then Some (p, m, 0)
       else Some (p, m(p + of_nat ?k := 0), p + of_nat ?k + 1))"
    using assms(2) unfolding strtok_def st Let_def e by (simp only: z k0 bind.bind_lunit if_False)
  show ?thesis
  proof (cases "tok = [] \<or> tok = s")
    case True
    then show ?thesis using run assms(1) by auto
  next
    case False
    then show ?thesis using run cut by simp
  qed
qed

text \<open>
  C3. One call of \<open>strtok\<close>, on a fresh string or continuing at the static position, cuts off
  the longest prefix without a delimiter: an empty prefix ends the tokenisation; the last
  token is returned unchanged; otherwise the delimiter is overwritten by a terminator, the
  token is a C string of its own, and the static position is the C string after the delimiter.
\<close>

theorem strtok_token:
  assumes "cstr m p s" "p \<noteq> 0" "cstr m d ds" "d \<noteq> 0" "unat d + length ds < 2 ^ 64"
    and "str = p \<or> str = 0 \<and> start = p"
  defines "tok \<equiv> takeWhile (\<lambda>b. b \<notin> set ds) s"
  shows "\<exists>r m' start'. strtok m start str d = Some (r, m', start') \<and>
    (if tok = [] then r = 0 \<and> m' = m \<and> start' = 0
     else r = p \<and> cstr m' p tok \<and>
       (if tok = s then m' = m \<and> start' = 0
        else m' = m(p + of_nat (length tok) := 0) \<and> start' = p + of_nat (length tok) + 1 \<and>
          cstr m' start' (drop (Suc (length tok)) s)))"
  using strtok_call [OF assms(1-6)] unfolding tok_def .

theorem strtok_token_witness:
  "let m = put_bytes (put_bytes (\<lambda>_. 0) 16 (lit ''ls -l'')) 32 (lit '' '') in
   \<exists>m'. strtok m 0 16 32 = Some (16, m', 19) \<and> cstr m' 16 (lit ''ls'') \<and> cstr m' 19 (lit ''-l'')"
proof -
  let ?m = "put_bytes (put_bytes (\<lambda>_. 0) 16 (lit ''ls -l'')) 32 (lit '' '')"
  have "cstr ?m 16 (lit ''ls -l'')" "cstr ?m 32 (lit '' '')" by (simp_all add: put_bytes_def)
  then show ?thesis
    using strtok_token [of ?m 16 "lit ''ls -l''" 32 "lit '' ''" 16 0] by simp
qed

text \<open>
  \<open>rmwhitespace\<close> compacts a C string in place: it returns, and the string at the same
  address is then the original one without its whitespace characters.
\<close>

lemma rmwhitespace_filter:
  assumes "cstr m p s" "length s < 2 ^ 31"
  shows "\<exists>m'. rmwhitespace m p = Some (m', p) \<and> cstr m' p (filter (\<lambda>c. \<not> isspace (sint c)) s)"
  using rmwhitespace_from_eq [of m p 0 s 0 "[]"] assms
  by (auto simp: rmwhitespace_def)

lemma rmwhitespace_filter_witness:
  "\<exists>m'. rmwhitespace (put_bytes (\<lambda>_. 0) 16 (lit '' 1 +2'')) 16 = Some (m', 16) \<and> cstr m' 16 (lit ''1+2'')"
  using rmwhitespace_filter [of "put_bytes (\<lambda>_. 0) 16 (lit '' 1 +2'')" 16 "lit '' 1 +2''"]
  by (simp add: put_bytes_def isspace_def)

text \<open>
  \<open>strcat\<close> appends: when the terminator of \<open>dst\<close> and the room behind it do not overlap the
  source, \<open>dst\<close> becomes the concatenation, the source is still intact, and nothing but the
  \<open>length t + 1\<close> bytes from the old terminator on is written.
\<close>

lemma strcat_appends:
  assumes "cstr m dst s" "cstr m src t" "length s + length t < 2 ^ 64"
    and out: "\<And>j k. j \<le> length t \<Longrightarrow> k \<le> length t \<Longrightarrow> dst + of_nat (length s + j) \<noteq> src + of_nat k"
  shows "\<exists>m'. strcat m dst src = Some (m', dst) \<and> cstr m' dst (s @ t) \<and> cstr m' src t \<and>
    (\<forall>a. unat (a - (dst + of_nat (length s))) > length t \<longrightarrow> m' a = m a)"
proof -
  let ?p = "dst + of_nat (length s)" and ?m = "put_bytes m (dst + of_nat (length s)) (t @ [0])"
  have same: "?m (src + of_nat k) = m (src + of_nat k)" if "k \<le> length t" for k
  proof (rule put_bytes_out, rule ccontr)
    let ?j = "unat (src + of_nat k - ?p)"
    assume "\<not> length (t @ [0]) \<le> ?j"
    then have "?j \<le> length t" by simp
    moreover have "?p + of_nat ?j = src + of_nat k" by simp
    ultimately show False using out [of ?j k] that by (simp add: add.assoc)
  qed
  have "cstr ?m src t"
    using same [of "length t"] cstr_end [OF assms(2)] cstr_no_nul [OF assms(2)]
      cstr_nth [OF assms(2)] same by (intro cstrI) auto
  then show ?thesis
    using strcat_eq [OF assms(1,2) out] cstr_put_bytes_append [OF assms(1) cstr_no_nul [OF assms(2)] assms(3)]
    by (auto intro: put_bytes_out)
qed

lemma strcat_appends_witness:
  "\<exists>m'. strcat (put_bytes (put_bytes (\<lambda>_. 0) 16 (lit ''ab'')) 32 (lit ''cd'')) 16 32 = Some (m', 16) \<and>
    cstr m' 16 (lit ''abcd'') \<and> cstr m' 32 (lit ''cd'')"
proof -
  let ?m = "put_bytes (put_bytes (\<lambda>_. 0) 16 (lit ''ab'')) 32 (lit ''cd'')"
  have "16 + of_nat (length (lit ''ab'') + j) \<noteq> (32 :: u64) + of_nat k"
    if "j \<le> length (lit ''cd'')" "k \<le> length (lit ''cd'')" for j k
    using that by (auto simp: le_Suc_eq)
  moreover have "cstr ?m 16 (lit ''ab'')" "cstr ?m 32 (lit ''cd'')" by (simp_all add: put_bytes_def)
  ultimately show ?thesis
    using strcat_appends [of ?m 16 "lit ''ab''" 32 "lit ''cd''"] by auto
qed

end
