(* ===== verification/LibcMemory.thy ===== *)
theory LibcMemory
  imports Prelude
begin

text \<open>
  The address alignment functions of \<open>libc/memory/memory.c\<close> and the integer macros of
  \<open>libc/include/math.h\<close>.
\<close>

section \<open>Alignment\<close>

definition UPPER_DIVIDE :: "u64 \<Rightarrow> u64 \<Rightarrow> u64" where
  "UPPER_DIVIDE n d = (n + d - 1) div d"

definition aalign :: "u64 \<Rightarrow> u64 \<Rightarrow> u64" where
  "aalign addr alignment =
     (if alignment = 0 \<or> addr mod alignment = 0 then addr else (addr div alignment + 1) * alignment)"

definition aalign_down :: "u64 \<Rightarrow> u64 \<Rightarrow> u64" where
  "aalign_down addr alignment =
     (if alignment = 0 \<or> addr mod alignment = 0 then addr else (addr div alignment) * alignment)"

lemma unat_aalign_down: "n \<noteq> 0 \<Longrightarrow> unat (aalign_down a n) = unat a - unat a mod unat n"
proof -
  assume n: "n \<noteq> 0"
  have "unat a div unat n * unat n < 2 ^ 64"
    using unat_lt_64 [of a] div_times_less_eq_dividend [of "unat a" "unat n"] by linarith
  then have "unat (a div n * n) = unat a div unat n * unat n"
    by (simp add: unat_word_ariths mod_mult_left_eq)
  with n show ?thesis
    by (auto simp: aalign_down_def word_unat_eq_iff unat_mod minus_mod_eq_div_mult [symmetric])
qed

text \<open>Away from the end of the address space \<open>aalign\<close> is the least multiple above.\<close>

lemma unat_aalign:
  assumes n: "n \<noteq> 0" and lt: "unat a + unat n < 2 ^ 64"
  shows "unat (aalign a n) = (if unat n dvd unat a then unat a else (unat a div unat n + 1) * unat n)"
proof -
  have d: "a mod n = 0 \<longleftrightarrow> unat n dvd unat a"
    by (simp add: word_unat_eq_iff unat_mod dvd_eq_mod_eq_0)
  have le: "(unat a div unat n + 1) * unat n \<le> unat a + unat n"
    by (simp add: div_times_less_eq_dividend)
  have n1: "1 \<le> unat n" using n by (simp add: Suc_leI unat_gt_0)
  then have "unat a div unat n + 1 \<le> (unat a div unat n + 1) * unat n"
    using mult_le_mono2 [OF n1, of "unat a div unat n + 1"] by simp
  then have "unat a div unat n + 1 < 2 ^ 64" using le lt by linarith
  then have "unat (a div n + 1) = unat a div unat n + 1"
    by (subst unat_word_ariths(1)) (simp add: unat_div)
  moreover have "(unat a div unat n + 1) * unat n < 2 ^ 64" using le lt by linarith
  ultimately have "unat ((a div n + 1) * n) = (unat a div unat n + 1) * unat n"
    by (simp add: unat_word_ariths)
  with n d show ?thesis by (simp add: aalign_def)
qed

lemma aalign_bounds:
  assumes "n \<noteq> 0" "unat a + unat n < 2 ^ 64"
  shows "unat a \<le> unat (aalign a n)" "unat (aalign a n) < unat a + unat n" "unat n dvd unat (aalign a n)"
proof -
  have n0: "0 < unat n" using assms(1) by (simp add: unat_gt_0)
  have 1: "unat a < (unat a div unat n + 1) * unat n"
    using n0 by (metis add.commute dividend_less_div_times mult.commute mult_Suc_right Suc_eq_plus1)
  have "\<not> unat n dvd unat a \<Longrightarrow> unat a div unat n * unat n < unat a"
    by (metis div_times_less_eq_dividend dvd_triv_right le_neq_implies_less)
  with 1 n0 show "unat a \<le> unat (aalign a n)" "unat (aalign a n) < unat a + unat n"
      "unat n dvd unat (aalign a n)"
    by (auto simp: unat_aalign [OF assms])
qed

end
