(* ===== verification/LibcHeap.thy ===== *)
theory LibcHeap
  imports LibcString LibcMemory
begin

text \<open>
  The kernel heap, \<open>libc/memory\<close>: \<open>heap.c\<close> (\<open>init_heap\<close>, \<open>brk\<close>, \<open>sbrk\<close>),
  \<open>malloc.c\<close> and \<open>free.c\<close>.  Chunk headers are records in a store indexed by their address and
  the data bytes are in the byte memory; the invariant shows that the address ranges of the
  chunks do not overlap, so that no data byte is a header byte.
\<close>

section \<open>Data structures\<close>

record malloc_chunk =
  mchunk_prev_size :: u32
  mchunk_size :: u32
  fd :: u64
  bk :: u64
  data :: u64

record malloc_state =
  heap_base :: u64
  heap_end :: u64
  heap_total_size :: u64
  mchunk :: u64
  unsorted_bin_head :: u64

text \<open>
  The memory the allocator works on: the \<open>malloc_state\<close> at \<open>g_heap_malloc_state_base\<close>, the
  chunk headers by address, the data bytes.
\<close>

record heap_mem =
  g_heap_malloc_state_base :: u64
  heap :: malloc_state
  chunk :: "u64 \<Rightarrow> malloc_chunk"
  bytes :: mem

abbreviation HEAP_CHUNK_MIN_SIZE_BYTES :: u64 where "HEAP_CHUNK_MIN_SIZE_BYTES \<equiv> 64"
abbreviation sizeof_malloc_chunk :: u64 where "sizeof_malloc_chunk \<equiv> 32"
abbreviation sizeof_malloc_state :: u64 where "sizeof_malloc_state \<equiv> 64"

definition set_fd :: "heap_mem \<Rightarrow> u64 \<Rightarrow> u64 \<Rightarrow> heap_mem" where
  "set_fd h a v = h\<lparr>chunk := (chunk h)(a := (chunk h a)\<lparr>fd := v\<rparr>)\<rparr>"

definition set_bk :: "heap_mem \<Rightarrow> u64 \<Rightarrow> u64 \<Rightarrow> heap_mem" where
  "set_bk h a v = h\<lparr>chunk := (chunk h)(a := (chunk h a)\<lparr>bk := v\<rparr>)\<rparr>"

section \<open>heap.c\<close>

definition brk :: "heap_mem \<Rightarrow> u64 \<Rightarrow> heap_mem \<times> int" where
  "brk h end_data_segment = (h\<lparr>heap := (heap h)\<lparr>heap_end := end_data_segment\<rparr>\<rparr>, 0)"

text \<open>
  The mapping of the heap's pages that \<open>init_heap\<close> does when \<open>map\<close> is set is the page
  tables' business; the heap state is written the same way with and without it.
\<close>

definition init_heap :: "heap_mem \<Rightarrow> u64 \<Rightarrow> u64 \<Rightarrow> heap_mem \<times> u64" where
  "init_heap h base_addr sz =
     (let g = aalign base_addr HEAP_CHUNK_MIN_SIZE_BYTES;
          st = \<lparr>heap_base = g, heap_end = heap_end (heap h),
                heap_total_size = aalign sz HEAP_CHUNK_MIN_SIZE_BYTES,
                mchunk = 0, unsorted_bin_head = 0\<rparr>;
          h = h\<lparr>g_heap_malloc_state_base := g, heap := st\<rparr>;
          (h, _) = brk h (g + sizeof_malloc_state)
      in (h, g))"

definition sbrk :: "heap_mem \<Rightarrow> u64 \<Rightarrow> heap_mem \<times> u64" where
  "sbrk h increment =
     (let old_break = heap_end (heap h)
      in (h\<lparr>heap := (heap h)\<lparr>heap_end := old_break + aalign increment HEAP_CHUNK_MIN_SIZE_BYTES\<rparr>\<rparr>,
          old_break))"

section \<open>malloc.c\<close>

text \<open>The search of the unsorted bin: NULL when no chunk is large enough.\<close>

partial_function (option) find_free :: "(u64 \<Rightarrow> malloc_chunk) \<Rightarrow> u64 \<Rightarrow> u64 \<Rightarrow> u64 option" where
  "find_free ck cur sz =
     (if cur \<noteq> 0 then
        if ucast (mchunk_size (ck cur)) \<ge> sz + sizeof_malloc_chunk then Some cur
        else find_free ck (fd (ck cur)) sz
      else Some 0)"

definition unlink_free :: "heap_mem \<Rightarrow> u64 \<Rightarrow> heap_mem" where
  "unlink_free h cur =
     (let h = (if bk (chunk h cur) \<noteq> 0 then set_fd h (bk (chunk h cur)) (fd (chunk h cur))
               else h\<lparr>heap := (heap h)\<lparr>unsorted_bin_head := fd (chunk h cur)\<rparr>\<rparr>)
      in if fd (chunk h cur) \<noteq> 0 then set_bk h (fd (chunk h cur)) (bk (chunk h cur)) else h)"

text \<open>The chunk header built on the stack and the address it belongs to.\<close>

definition grow_heap :: "heap_mem \<Rightarrow> u64 \<Rightarrow> heap_mem \<times> malloc_chunk \<times> u64" where
  "grow_heap h sz =
     (let data_size = max (HEAP_CHUNK_MIN_SIZE_BYTES - sizeof_malloc_chunk) sz;
          new_size = ucast (sizeof_malloc_chunk + data_size);
          (h, new_addr) = sbrk h (ucast new_size)
      in (h, \<lparr>mchunk_prev_size = 0, mchunk_size = new_size, fd = 0, bk = 0,
              data = new_addr + sizeof_malloc_chunk\<rparr>, new_addr))"

definition link_allocated :: "heap_mem \<Rightarrow> malloc_chunk \<Rightarrow> u64 \<Rightarrow> bool \<Rightarrow> heap_mem \<times> u64" where
  "link_allocated h new_mchunk new_addr found_free =
     (let nc = new_mchunk\<lparr>bk := 0, fd := mchunk (heap h)\<rparr>;
          h = (if fd nc \<noteq> 0 then set_bk h (fd nc) new_addr else h);
          h = h\<lparr>heap := (heap h)\<lparr>mchunk := new_addr\<rparr>\<rparr>;
          h = (if \<not> found_free then h\<lparr>chunk := (chunk h)(new_addr := nc)\<rparr> else h);
          h = h\<lparr>bytes := fst (memset (bytes h) (data nc) 0 (ucast (mchunk_size nc) - sizeof_malloc_chunk))\<rparr>;
          h = set_fd h new_addr (fd nc)
      in (h, data nc))"

definition malloc :: "heap_mem \<Rightarrow> u64 \<Rightarrow> (heap_mem \<times> u64) option" where
  "malloc h sz =
     (let sz = aalign sz 16 in
      do { cur \<leftarrow> find_free (chunk h) (unsorted_bin_head (heap h)) sz;
           Some (if cur \<noteq> 0
                 then link_allocated (unlink_free h cur) ((chunk h cur)\<lparr>mchunk_prev_size := 0\<rparr>) cur True
                 else let (h, nc, new_addr) = grow_heap h sz in link_allocated h nc new_addr False) })"

section \<open>free.c\<close>

definition unlink_allocated :: "heap_mem \<Rightarrow> u64 \<Rightarrow> heap_mem" where
  "unlink_allocated h cur =
     (let h = (if bk (chunk h cur) \<noteq> 0 then set_fd h (bk (chunk h cur)) (fd (chunk h cur))
               else h\<lparr>heap := (heap h)\<lparr>mchunk := fd (chunk h cur)\<rparr>\<rparr>)
      in if fd (chunk h cur) \<noteq> 0 then set_bk h (fd (chunk h cur)) (bk (chunk h cur)) else h)"

definition link_free :: "heap_mem \<Rightarrow> u64 \<Rightarrow> heap_mem" where
  "link_free h cur =
     (let h = set_bk h cur 0;
          h = set_fd h cur (unsorted_bin_head (heap h));
          h = (if fd (chunk h cur) \<noteq> 0 then set_bk h (fd (chunk h cur)) cur else h);
          h = h\<lparr>heap := (heap h)\<lparr>unsorted_bin_head := cur\<rparr>\<rparr>
      in h\<lparr>bytes := fst (memset (bytes h) (data (chunk h cur)) 0
                         (ucast (mchunk_size (chunk h cur)) - sizeof_malloc_chunk))\<rparr>)"

partial_function (option) find_data :: "(u64 \<Rightarrow> malloc_chunk) \<Rightarrow> u64 \<Rightarrow> u64 \<Rightarrow> u64 option" where
  "find_data ck cur ptr =
     (if cur \<noteq> 0 then if data (ck cur) = ptr then Some cur else find_data ck (fd (ck cur)) ptr
      else Some 0)"

definition free :: "heap_mem \<Rightarrow> u64 \<Rightarrow> heap_mem option" where
  "free h ptr =
     do { cur \<leftarrow> find_data (chunk h) (mchunk (heap h)) ptr;
          Some (if cur \<noteq> 0 then link_free (unlink_allocated h cur) cur else h) }"

declare find_free.simps [code] find_data.simps [code]

section \<open>Doubly linked chunk lists\<close>

text \<open>
  \<open>dll ck p b as\<close>: from \<open>p\<close> the \<open>fd\<close> pointers run through \<open>as\<close> to NULL, and each \<open>bk\<close> points
  to the chunk before, the first one to \<open>b\<close>.  \<open>wdll\<close> does not constrain the \<open>bk\<close> of the first
  chunk: \<open>malloc\<close> leaves a stale one there when it reuses a chunk from inside the bin.
\<close>

fun dll :: "(u64 \<Rightarrow> malloc_chunk) \<Rightarrow> u64 \<Rightarrow> u64 \<Rightarrow> u64 list \<Rightarrow> bool" where
  "dll ck p b [] = (p = 0)"
| "dll ck p b (a # as) = (p = a \<and> a \<noteq> 0 \<and> bk (ck a) = b \<and> dll ck (fd (ck a)) a as)"

fun wdll :: "(u64 \<Rightarrow> malloc_chunk) \<Rightarrow> u64 \<Rightarrow> u64 list \<Rightarrow> bool" where
  "wdll ck p [] = (p = 0)"
| "wdll ck p (a # as) = (p = a \<and> a \<noteq> 0 \<and> dll ck (fd (ck a)) a as)"

lemma dll_cong:
  "(\<And>x. x \<in> set as \<Longrightarrow> fd (ck' x) = fd (ck x) \<and> bk (ck' x) = bk (ck x)) \<Longrightarrow> dll ck' p b as = dll ck p b as"
  by (induction as arbitrary: p b) auto

lemma dll_wdll: "dll ck p b as \<Longrightarrow> wdll ck p as"
  by (cases as) auto

lemma wdll_nonzero: "wdll ck p as \<Longrightarrow> 0 \<notin> set as"
proof -
  have "dll ck p b as \<Longrightarrow> 0 \<notin> set as" for p b as by (induction as arbitrary: p b) auto
  then show "wdll ck p as \<Longrightarrow> 0 \<notin> set as" by (cases as) auto
qed

definition unlink_ck :: "(u64 \<Rightarrow> malloc_chunk) \<Rightarrow> u64 \<Rightarrow> (u64 \<Rightarrow> malloc_chunk)" where
  "unlink_ck ck a =
     (let ck = (if bk (ck a) \<noteq> 0 then ck(bk (ck a) := (ck (bk (ck a)))\<lparr>fd := fd (ck a)\<rparr>) else ck)
      in if fd (ck a) \<noteq> 0 then ck(fd (ck a) := (ck (fd (ck a)))\<lparr>bk := bk (ck a)\<rparr>) else ck)"

lemma unlink_ck_shape [simp]:
  "mchunk_size (unlink_ck ck a x) = mchunk_size (ck x)" "data (unlink_ck ck a x) = data (ck x)"
  by (simp_all add: unlink_ck_def Let_def)

lemma unlink_ck_bk: "bk (ck a) \<noteq> a \<Longrightarrow> x \<noteq> fd (ck a) \<Longrightarrow> bk (unlink_ck ck a x) = bk (ck x)"
  by (auto simp: unlink_ck_def Let_def)

lemma unlink_ck_fd: "x \<noteq> bk (ck a) \<Longrightarrow> fd (unlink_ck ck a x) = fd (ck x)"
  by (auto simp: unlink_ck_def Let_def)

lemma unlink_ck_fd_bk: "bk (ck a) \<noteq> 0 \<Longrightarrow> bk (ck a) \<noteq> a \<Longrightarrow> fd (unlink_ck ck a (bk (ck a))) = fd (ck a)"
  by (auto simp: unlink_ck_def Let_def)

lemma unlink_ck_bk_fd:
  "fd (ck a) \<noteq> 0 \<Longrightarrow> fd (ck a) \<noteq> a \<Longrightarrow> bk (ck a) \<noteq> a \<Longrightarrow> bk (unlink_ck ck a (fd (ck a))) = bk (ck a)"
  by (auto simp: unlink_ck_def Let_def)

lemma dll_tail_after_unlink:
  assumes "dll ck (fd (ck a)) a ys" "distinct (a # ys)" "bk (ck a) \<notin> set (a # ys)"
  shows "dll (unlink_ck ck a) (fd (ck a)) (bk (ck a)) ys"
proof (cases ys)
  case Nil
  with assms(1) show ?thesis by simp
next
  case (Cons y ys')
  with assms have y: "fd (ck a) = y" "y \<noteq> 0" "y \<noteq> a" "bk (ck a) \<noteq> a" by auto
  have "dll (unlink_ck ck a) (fd (ck y)) y ys' = dll ck (fd (ck y)) y ys'"
    using assms Cons y by (intro dll_cong) (auto intro!: unlink_ck_fd unlink_ck_bk)
  with Cons assms y show ?thesis
    using unlink_ck_bk_fd [of ck a] unlink_ck_fd [of y ck a] by auto
qed

lemma dll_fd_of: "dll ck p b (xs @ a # ys) \<Longrightarrow> fd (ck a) = (case ys of [] \<Rightarrow> 0 | y # _ \<Rightarrow> y)"
  by (induction xs arbitrary: p b) (auto split: list.splits)

text \<open>Unlinking a chunk that has a predecessor \<open>z\<close> in the list.\<close>

lemma dll_unlink_after:
  "dll ck (fd (ck z)) z (xs @ a # ys) \<Longrightarrow> distinct (z # xs @ a # ys) \<Longrightarrow> z \<noteq> 0 \<Longrightarrow> 0 \<notin> set xs \<Longrightarrow>
     dll (unlink_ck ck a) (fd (unlink_ck ck a z)) z (xs @ ys) \<and> bk (ck a) \<in> set (z # xs)"
proof (induction xs arbitrary: z)
  case Nil
  then have z: "bk (ck a) = z" "z \<noteq> a" "fd (ck z) = a" by auto
  with Nil dll_tail_after_unlink [of ck a ys] unlink_ck_fd_bk [of ck a] show ?case by auto
next
  case (Cons c xs)
  have IH: "dll (unlink_ck ck a) (fd (unlink_ck ck a c)) c (xs @ ys)" "bk (ck a) \<in> set (c # xs)"
    using Cons.IH [of c] Cons.prems by auto
  have "z \<noteq> bk (ck a)" "bk (ck a) \<noteq> a" "c \<noteq> fd (ck a)"
    using IH(2) Cons.prems dll_fd_of [OF Cons.prems(1)] by (auto split: list.splits)
  then show ?case
    using IH Cons.prems unlink_ck_fd [of z ck a] unlink_ck_bk [of ck a c] by auto
qed

lemma dll_bk_first: "dll ck p 0 (xs @ a # ys) \<Longrightarrow> distinct (xs @ a # ys) \<Longrightarrow> bk (ck a) = 0 \<longleftrightarrow> xs = []"
proof (cases xs rule: rev_cases)
  case Nil
  then show "dll ck p 0 (xs @ a # ys) \<Longrightarrow> bk (ck a) = 0 \<longleftrightarrow> xs = []" by simp
next
  case (snoc xs' z)
  have "dll ck p b (xs' @ z # a # ys) \<Longrightarrow> z \<noteq> 0 \<and> bk (ck a) = z" for b
    by (induction xs' arbitrary: p b) auto
  then show "dll ck p 0 (xs @ a # ys) \<Longrightarrow> bk (ck a) = 0 \<longleftrightarrow> xs = []" using snoc by auto
qed

lemma dll_unlink:
  assumes "dll ck p 0 (xs @ a # ys)" "distinct (xs @ a # ys)"
  shows "dll (unlink_ck ck a) (if bk (ck a) = 0 then fd (ck a) else p) 0 (xs @ ys)"
proof (cases xs)
  case Nil
  have "0 \<notin> set (a # ys)" using wdll_nonzero [OF dll_wdll [OF assms(1)]] by simp
  with Nil assms dll_tail_after_unlink [of ck a ys] show ?thesis by auto
next
  case (Cons x xs')
  have nz: "0 \<notin> set (xs @ a # ys)" using wdll_nonzero [OF dll_wdll [OF assms(1)]] .
  have u: "dll (unlink_ck ck a) (fd (unlink_ck ck a x)) x (xs' @ ys)" "bk (ck a) \<in> set (x # xs')"
    using dll_unlink_after [of ck x xs' a ys] assms Cons nz by auto
  have "bk (ck a) \<noteq> 0" "bk (ck a) \<noteq> a" using u(2) nz Cons assms(2) by auto
  moreover have "x \<noteq> fd (ck a)"
    using dll_fd_of [OF assms(1)] assms(2) Cons nz by (auto split: list.splits)
  ultimately show ?thesis using u(1) assms(1) Cons by (simp add: unlink_ck_bk)
qed

lemma wdll_unlink:
  assumes "wdll ck p (xs @ a # ys)" "distinct (xs @ a # ys)" "xs = [] \<longrightarrow> bk (ck a) = 0"
  shows "wdll (unlink_ck ck a) (if bk (ck a) = 0 then fd (ck a) else p) (xs @ ys)"
proof (cases xs)
  case Nil
  have "0 \<notin> set (a # ys)" using wdll_nonzero [OF assms(1)] by simp
  with Nil assms dll_tail_after_unlink [of ck a ys] show ?thesis by (auto intro: dll_wdll)
next
  case (Cons x xs')
  have nz: "0 \<notin> set (xs @ a # ys)" using wdll_nonzero [OF assms(1)] .
  have u: "dll (unlink_ck ck a) (fd (unlink_ck ck a x)) x (xs' @ ys)" "bk (ck a) \<in> set (x # xs')"
    using dll_unlink_after [of ck x xs' a ys] assms Cons nz by auto
  then have "bk (ck a) \<noteq> 0" using nz Cons by auto
  with u(1) assms(1) Cons show ?thesis by simp
qed

text \<open>Linking a chunk that is not in the list at its front.\<close>

definition link_ck :: "(u64 \<Rightarrow> malloc_chunk) \<Rightarrow> u64 \<Rightarrow> u64 \<Rightarrow> (u64 \<Rightarrow> malloc_chunk)" where
  "link_ck ck p a = (if p \<noteq> 0 then ck(p := (ck p)\<lparr>bk := a\<rparr>) else ck)"

lemma dll_link:
  assumes "wdll ck p as" "distinct as" "a \<notin> set as"
  shows "dll (link_ck ck p a) p a as"
proof (cases as)
  case Nil
  with assms show ?thesis by simp
next
  case (Cons x as')
  have "dll (link_ck ck p a) (fd (ck x)) x as' = dll ck (fd (ck x)) x as'"
    using Cons assms by (intro dll_cong) (auto simp: link_ck_def)
  with Cons assms show ?thesis by (auto simp: link_ck_def)
qed

section \<open>The heap invariant\<close>

definition block_end :: "(u64 \<Rightarrow> malloc_chunk) \<Rightarrow> u64 \<Rightarrow> nat" where
  "block_end ck a = unat a + unat (mchunk_size (ck a))"

definition blocks_ok :: "(u64 \<Rightarrow> malloc_chunk) \<Rightarrow> nat \<Rightarrow> nat \<Rightarrow> u64 set \<Rightarrow> bool" where
  "blocks_ok ck lo hi A \<longleftrightarrow>
     (\<forall>a \<in> A. lo \<le> unat a \<and> 64 \<le> unat (mchunk_size (ck a)) \<and> block_end ck a \<le> hi \<and>
        data (ck a) = a + sizeof_malloc_chunk) \<and>
     (\<forall>a \<in> A. \<forall>b \<in> A. a \<noteq> b \<longrightarrow> block_end ck a \<le> unat b \<or> block_end ck b \<le> unat a)"

text \<open>
  \<open>heap_inv h as bs\<close>: \<open>as\<close> are the allocated and \<open>bs\<close> the free chunks, in list order; the
  chunks lie between the heap state and \<open>heap_end\<close> and do not overlap.
\<close>

definition heap_inv :: "heap_mem \<Rightarrow> u64 list \<Rightarrow> u64 list \<Rightarrow> bool" where
  "heap_inv h as bs \<longleftrightarrow>
     wdll (chunk h) (mchunk (heap h)) as \<and> dll (chunk h) (unsorted_bin_head (heap h)) 0 bs \<and>
     distinct (as @ bs) \<and>
     unat (g_heap_malloc_state_base h) + 64 \<le> unat (heap_end (heap h)) \<and>
     blocks_ok (chunk h) (unat (g_heap_malloc_state_base h) + 64) (unat (heap_end (heap h))) (set (as @ bs))"

lemma blocks_ok_cong:
  "(\<And>x. mchunk_size (ck' x) = mchunk_size (ck x)) \<Longrightarrow> (\<And>x. data (ck' x) = data (ck x)) \<Longrightarrow>
     blocks_ok ck' lo hi A = blocks_ok ck lo hi A"
  by (simp add: blocks_ok_def block_end_def)

lemma link_ck_shape [simp]:
  "mchunk_size (link_ck ck p a x) = mchunk_size (ck x)" "data (link_ck ck p a x) = data (ck x)"
  "fd (link_ck ck p a x) = fd (ck x)"
  by (simp_all add: link_ck_def)

text \<open>The searches of \<open>malloc\<close> and \<open>free\<close> end on the lists of the invariant.\<close>

lemma find_free_eq:
  "dll ck p b bs \<Longrightarrow>
     find_free ck p sz = Some (case find (\<lambda>a. ucast (mchunk_size (ck a)) \<ge> sz + sizeof_malloc_chunk) bs of
                                 None \<Rightarrow> 0 | Some a \<Rightarrow> a)"
proof (induction bs arbitrary: p b)
  case Nil
  then show ?case by (subst find_free.simps) simp
next
  case (Cons a bs)
  then show ?case by (subst find_free.simps) auto
qed

lemma find_data_dll:
  "dll ck p b as \<Longrightarrow> find_data ck p ptr = Some (case find (\<lambda>a. data (ck a) = ptr) as of None \<Rightarrow> 0 | Some a \<Rightarrow> a)"
proof (induction as arbitrary: p b)
  case Nil
  then show ?case by (subst find_data.simps) simp
next
  case (Cons a as)
  then show ?case by (subst find_data.simps) auto
qed

lemma find_data_eq:
  "wdll ck p as \<Longrightarrow> find_data ck p ptr = Some (case find (\<lambda>a. data (ck a) = ptr) as of None \<Rightarrow> 0 | Some a \<Rightarrow> a)"
  by (cases as; subst find_data.simps) (auto simp: find_data_dll)

text \<open>The heap operations in terms of the two list operations.\<close>

lemma unlink_free_eq:
  "unlink_free h a = h\<lparr>chunk := unlink_ck (chunk h) a,
     heap := (heap h)\<lparr>unsorted_bin_head :=
       (if bk (chunk h a) = 0 then fd (chunk h a) else unsorted_bin_head (heap h))\<rparr>\<rparr>"
  by (simp add: unlink_free_def unlink_ck_def set_fd_def set_bk_def Let_def)

lemma unlink_allocated_eq:
  "unlink_allocated h a = h\<lparr>chunk := unlink_ck (chunk h) a,
     heap := (heap h)\<lparr>mchunk := (if bk (chunk h a) = 0 then fd (chunk h a) else mchunk (heap h))\<rparr>\<rparr>"
  by (simp add: unlink_allocated_def unlink_ck_def set_fd_def set_bk_def Let_def)

lemma link_allocated_eq:
  "link_allocated h nc a found =
     (h\<lparr>chunk := (let ck = link_ck (chunk h) (mchunk (heap h)) a;
                       ck = (if found then ck else ck(a := nc\<lparr>bk := 0, fd := mchunk (heap h)\<rparr>))
                   in ck(a := (ck a)\<lparr>fd := mchunk (heap h)\<rparr>)),
        heap := (heap h)\<lparr>mchunk := a\<rparr>,
        bytes := put_bytes (bytes h) (data nc)
                   (replicate (unat (ucast (mchunk_size nc) - sizeof_malloc_chunk)) 0)\<rparr>, data nc)"
  by (simp add: link_allocated_def link_ck_def set_fd_def set_bk_def memset_eq Let_def)

lemma link_free_eq:
  "unsorted_bin_head (heap h) \<noteq> a \<Longrightarrow>
   link_free h a =
     h\<lparr>chunk := (link_ck (chunk h) (unsorted_bin_head (heap h)) a)
          (a := (chunk h a)\<lparr>bk := 0, fd := unsorted_bin_head (heap h)\<rparr>),
       heap := (heap h)\<lparr>unsorted_bin_head := a\<rparr>,
       bytes := put_bytes (bytes h) (data (chunk h a))
                   (replicate (unat (ucast (mchunk_size (chunk h a)) - sizeof_malloc_chunk)) 0)\<rparr>"
  by (simp add: link_free_def link_ck_def set_fd_def set_bk_def memset_eq Let_def fun_eq_iff)

lemma dll_first: "dll ck p b as \<Longrightarrow> p = (case as of [] \<Rightarrow> 0 | a # _ \<Rightarrow> a)"
  by (cases as) auto

lemma wdll_first: "wdll ck p as \<Longrightarrow> p = (case as of [] \<Rightarrow> 0 | a # _ \<Rightarrow> a)"
  by (cases as) auto

text \<open>
  Two disjoint lists under the two operations: unlinking from one leaves the other alone, and
  so does linking a chunk of neither in front of one.
\<close>

lemma dll_neighbours:
  assumes "dll ck p 0 (xs @ a # ys)"
  shows "bk (ck a) \<in> insert 0 (set xs)" "fd (ck a) \<in> insert 0 (set ys)"
proof -
  have "dll ck p b (xs @ a # ys) \<Longrightarrow> bk (ck a) \<in> insert b (set xs)" for b
    by (induction xs arbitrary: p b) auto
  with assms show "bk (ck a) \<in> insert 0 (set xs)" by blast
  show "fd (ck a) \<in> insert 0 (set ys)" using dll_fd_of [OF assms] by (auto split: list.splits)
qed

lemma wdll_neighbours:
  assumes "wdll ck p (xs @ a # ys)" "xs = [] \<longrightarrow> bk (ck a) = 0"
  shows "bk (ck a) \<in> insert 0 (set xs)" "fd (ck a) \<in> insert 0 (set ys)"
proof -
  have b: "dll ck p b (xs @ a # ys) \<Longrightarrow> bk (ck a) \<in> insert b (set xs)" for p b xs
    by (induction xs arbitrary: p b) auto
  show "bk (ck a) \<in> insert 0 (set xs)" using assms b by (cases xs) auto
  show "fd (ck a) \<in> insert 0 (set ys)"
  proof (cases xs)
    case Nil
    with assms(1) show ?thesis using dll_first [of ck "fd (ck a)" a ys] by (auto split: list.splits)
  next
    case (Cons x xs')
    with assms(1) have "dll ck (fd (ck x)) x (xs' @ a # ys)" by simp
    from dll_fd_of [OF this] show ?thesis by (auto split: list.splits)
  qed
qed

lemma unlink_other:
  assumes "bk (ck a) \<in> insert 0 X" "fd (ck a) \<in> insert 0 X" "a \<noteq> 0" "a \<notin> X" "x \<notin> X" "x \<noteq> 0"
  shows "fd (unlink_ck ck a x) = fd (ck x)" "bk (unlink_ck ck a x) = bk (ck x)"
  using assms by (auto intro!: unlink_ck_fd unlink_ck_bk)

lemma wdll_cong:
  "(\<And>x. x \<in> set as \<Longrightarrow> fd (ck' x) = fd (ck x) \<and> bk (ck' x) = bk (ck x)) \<Longrightarrow> wdll ck' p as = wdll ck p as"
  by (cases as) (auto simp: dll_cong [of _ ck' ck])

lemma link_front:
  assumes "wdll ck p as" "distinct as" "a \<notin> set as" "a \<noteq> 0"
    and "\<And>x. x \<in> set as \<Longrightarrow> fd (ck' x) = fd (link_ck ck p a x) \<and> bk (ck' x) = bk (link_ck ck p a x)"
    and "fd (ck' a) = p"
  shows "wdll ck' a (a # as)" "bk (ck' a) = 0 \<Longrightarrow> dll ck' a 0 (a # as)"
proof -
  have "dll ck' p a as"
    using dll_link [OF assms(1-3)] dll_cong [of as ck' "link_ck ck p a" p a] assms(5) by simp
  then show "wdll ck' a (a # as)" "bk (ck' a) = 0 \<Longrightarrow> dll ck' a 0 (a # as)"
    using assms(4,6) by auto
qed

section \<open>The operations keep the invariant\<close>

lemma remove1_split: "distinct (xs @ a # ys) \<Longrightarrow> remove1 a (xs @ a # ys) = xs @ ys"
  by (simp add: remove1_append)

lemma heap_inv_nonzero: "heap_inv h as bs \<Longrightarrow> 0 \<notin> set (as @ bs)"
  using wdll_nonzero dll_wdll unfolding heap_inv_def by fastforce

lemma heap_inv_free:
  assumes inv: "heap_inv h as bs" and a: "a \<in> set as" and head: "a = hd as \<longrightarrow> bk (chunk h a) = 0"
  shows "heap_inv (link_free (unlink_allocated h a) a) (remove1 a as) (a # bs)"
proof -
  obtain xs ys where as: "as = xs @ a # ys" using a by (meson split_list)
  let ?ck = "chunk h" and ?uk = "unlink_ck (chunk h) a" and ?q = "unsorted_bin_head (heap h)"
  let ?p = "if bk (?ck a) = 0 then fd (?ck a) else mchunk (heap h)"
  have d: "distinct (as @ bs)" and w: "wdll ?ck (mchunk (heap h)) as" and b: "dll ?ck ?q 0 bs"
    and bl: "blocks_ok ?ck (unat (g_heap_malloc_state_base h) + 64) (unat (heap_end (heap h))) (set (as @ bs))"
    and e: "unat (g_heap_malloc_state_base h) + 64 \<le> unat (heap_end (heap h))"
    using inv by (auto simp: heap_inv_def)
  have nz: "0 \<notin> set (as @ bs)" using heap_inv_nonzero [OF inv] .
  have hd: "xs = [] \<longrightarrow> bk (?ck a) = 0" using head as by auto
  have dis: "distinct (xs @ a # ys)" using d as by auto
  note nb = wdll_neighbours [OF w [unfolded as] hd]
  have w': "wdll ?uk ?p (xs @ ys)" by (rule wdll_unlink [OF w [unfolded as] dis hd])
  have b': "dll ?uk ?q 0 bs"
    using unlink_other [of ?ck a "set xs \<union> set ys"] nb d as nz b
    by (subst dll_cong [of bs ?uk ?ck]) auto
  have qa: "?q \<noteq> a" using dll_first [OF b] d as nz by (auto split: list.splits)
  let ?fk = "(link_ck ?uk ?q a)(a := (?uk a)\<lparr>bk := 0, fd := ?q\<rparr>)"
  have "dll ?fk a 0 (a # bs)"
    using d as nz dll_wdll [OF b'] by (intro link_front(2)) auto
  moreover have "wdll ?fk ?p (xs @ ys) = wdll ?uk ?p (xs @ ys)"
    using d as nz dll_first [OF b] by (intro wdll_cong) (auto simp: link_ck_def split: list.splits)
  moreover have "blocks_ok ?fk lo hi A = blocks_ok ?ck lo hi A" for lo hi A
    by (rule blocks_ok_cong) auto
  ultimately show ?thesis
    using w' d bl e qa remove1_split [OF dis]
    by (simp add: heap_inv_def unlink_allocated_eq link_free_eq as insert_commute Un_commute Un_left_commute)
qed

lemma heap_inv_reuse:
  assumes inv: "heap_inv h as bs" and a: "a \<in> set bs"
  shows "heap_inv (fst (link_allocated (unlink_free h a) nc a True)) (a # as) (remove1 a bs)"
proof -
  obtain xs ys where bs: "bs = xs @ a # ys" using a by (meson split_list)
  let ?ck = "chunk h" and ?uk = "unlink_ck (chunk h) a" and ?p = "mchunk (heap h)"
  let ?q = "if bk (?ck a) = 0 then fd (?ck a) else unsorted_bin_head (heap h)"
  have d: "distinct (as @ bs)" and w: "wdll ?ck ?p as" and b: "dll ?ck (unsorted_bin_head (heap h)) 0 bs"
    and bl: "blocks_ok ?ck (unat (g_heap_malloc_state_base h) + 64) (unat (heap_end (heap h))) (set (as @ bs))"
    and e: "unat (g_heap_malloc_state_base h) + 64 \<le> unat (heap_end (heap h))"
    using inv by (auto simp: heap_inv_def)
  have nz: "0 \<notin> set (as @ bs)" using heap_inv_nonzero [OF inv] .
  have dis: "distinct (xs @ a # ys)" using d bs by auto
  note nb = dll_neighbours [OF b [unfolded bs]]
  have b': "dll ?uk ?q 0 (xs @ ys)" by (rule dll_unlink [OF b [unfolded bs] dis])
  have w': "wdll ?uk ?p as"
    using unlink_other [of ?ck a "set xs \<union> set ys"] nb d bs nz w
    by (subst wdll_cong [of as ?uk ?ck]) auto
  let ?fk = "(link_ck ?uk ?p a)(a := (link_ck ?uk ?p a a)\<lparr>fd := ?p\<rparr>)"
  have "wdll ?fk a (a # as)"
    using d bs nz w' by (intro link_front(1)) auto
  moreover have "dll ?fk ?q 0 (xs @ ys) = dll ?uk ?q 0 (xs @ ys)"
    using d bs nz wdll_first [OF w] by (intro dll_cong) (auto simp: link_ck_def split: list.splits)
  moreover have "blocks_ok ?fk lo hi A = blocks_ok ?ck lo hi A" for lo hi A
    by (rule blocks_ok_cong) auto
  ultimately show ?thesis
    using b' d bl e remove1_split [OF dis]
    by (simp add: heap_inv_def unlink_free_eq link_allocated_eq bs Let_def insert_commute Un_commute Un_left_commute)
qed

text \<open>The size of a new chunk, for requests that fit the 32-bit size field.\<close>

lemma grow_size:
  assumes "unat n \<le> 2 ^ 31"
  shows "unat (ucast (sizeof_malloc_chunk + max (HEAP_CHUNK_MIN_SIZE_BYTES - sizeof_malloc_chunk) (aalign n 16)) :: u32)
    = 32 + max 32 (unat (aalign n 16))"
proof -
  have "unat (aalign n 16) < unat n + 16" using assms aalign_bounds(2) [of 16 n] by simp
  then have m: "unat (max 32 (aalign n 16)) = max 32 (unat (aalign n 16))"
    "max 32 (unat (aalign n 16)) < 2 ^ 31 + 16"
    using assms by (auto simp: max_def word_le_nat_alt)
  then have "unat (32 + max 32 (aalign n 16)) = 32 + max 32 (unat (aalign n 16))"
    by (subst unat_word_ariths(1)) simp
  with m(2) show ?thesis by (simp add: unsigned_ucast_eq take_bit_nat_eq_self)
qed

lemma blocks_ok_insert:
  assumes bl: "blocks_ok ck lo hi A" and "lo \<le> hi" "hi \<le> unat a" "block_end ck' a \<le> hi'"
    and "64 \<le> unat (mchunk_size (ck' a))" "data (ck' a) = a + sizeof_malloc_chunk"
    and same: "\<And>x. x \<in> A \<Longrightarrow> mchunk_size (ck' x) = mchunk_size (ck x) \<and> data (ck' x) = data (ck x)"
  shows "blocks_ok ck' lo hi' (insert a A)"
proof -
  have "block_end ck' x = block_end ck x" if "x \<in> A" for x using same that by (simp add: block_end_def)
  moreover have "hi \<le> hi'" using assms by (simp add: block_end_def)
  moreover have "block_end ck x \<le> hi" if "x \<in> A" for x using bl that by (simp add: blocks_ok_def)
  ultimately show ?thesis
    using assms unfolding blocks_ok_def by (auto intro: order_trans)
qed

lemma heap_inv_grow:
  assumes inv: "heap_inv h as bs" and n: "unat n \<le> 2 ^ 31"
    and room: "unat (heap_end (heap h)) + 2 ^ 32 \<le> 2 ^ 64"
  shows "case grow_heap h (aalign n 16) of (h', nc, a) \<Rightarrow>
    a = heap_end (heap h) \<and> data nc = a + sizeof_malloc_chunk \<and>
    unat (mchunk_size nc) = 32 + max 32 (unat (aalign n 16)) \<and> bytes h' = bytes h \<and>
    heap_inv (fst (link_allocated h' nc a False)) (a # as) bs"
proof -
  let ?ck = "chunk h" and ?p = "mchunk (heap h)" and ?a = "heap_end (heap h)"
  define sz :: u32 where "sz = ucast (sizeof_malloc_chunk + max (HEAP_CHUNK_MIN_SIZE_BYTES - sizeof_malloc_chunk) (aalign n 16))"
  have sz: "unat sz = 32 + max 32 (unat (aalign n 16))" unfolding sz_def by (rule grow_size [OF n])
  have szd: "ucast (32 + max 32 (aalign n 16)) = sz" by (simp add: sz_def)
  let ?nc = "\<lparr>mchunk_prev_size = 0, mchunk_size = sz, fd = ?p, bk = 0, data = ?a + 32\<rparr>"
  let ?hi = "?a + aalign (ucast sz) 64"
  have "unat (aalign n 16) < unat n + 16" using n aalign_bounds(2) [of 16 n] by simp
  then have szlt: "unat sz < 2 ^ 31 + 64" using sz n by simp
  have ucs: "unat (ucast sz :: u64) = unat sz" using unat_lt_32 [of sz] by (simp add: unsigned_ucast_eq take_bit_nat_eq_self)
  have "unat sz \<le> unat (aalign (ucast sz) 64)" "unat (aalign (ucast sz) 64) < unat sz + 64"
    using aalign_bounds(1,2) [of 64 "ucast sz :: u64"] szlt unfolding ucs by simp_all
  then have hi: "unat ?a + unat sz \<le> unat ?hi"
    using room szlt by (subst unat_word_ariths(1)) simp
  have d: "distinct (as @ bs)" and w: "wdll ?ck ?p as" and b: "dll ?ck (unsorted_bin_head (heap h)) 0 bs"
    and bl: "blocks_ok ?ck (unat (g_heap_malloc_state_base h) + 64) (unat ?a) (set (as @ bs))"
    and e: "unat (g_heap_malloc_state_base h) + 64 \<le> unat ?a"
    using inv by (auto simp: heap_inv_def)
  have a0: "?a \<noteq> 0" using e by auto
  have new: "?a \<notin> set (as @ bs)"
  proof
    assume "?a \<in> set (as @ bs)"
    with bl have "64 \<le> unat (mchunk_size (?ck ?a))" "unat ?a + unat (mchunk_size (?ck ?a)) \<le> unat ?a"
      unfolding blocks_ok_def block_end_def by blast+
    then show False by simp
  qed
  let ?lk = "link_ck ?ck ?p ?a" let ?fk = "?lk(?a := ?nc)"
  have "wdll ?fk ?a (?a # as)" using d new w a0 by (intro link_front(1)) auto
  moreover have "dll ?fk (unsorted_bin_head (heap h)) 0 bs = dll ?ck (unsorted_bin_head (heap h)) 0 bs"
    using d new heap_inv_nonzero [OF inv] wdll_first [OF w]
    by (intro dll_cong) (auto simp: link_ck_def split: list.splits)
  moreover have "blocks_ok ?fk (unat (g_heap_malloc_state_base h) + 64) (unat ?hi) (insert ?a (set as \<union> set bs))"
    using hi e sz new by (intro blocks_ok_insert [OF bl [unfolded set_append]]) (auto simp: block_end_def)
  ultimately show ?thesis
    using d new b e hi sz by (simp add: grow_heap_def sbrk_def link_allocated_eq Let_def heap_inv_def szd)
qed

text \<open>The data area of a chunk, and that writing one area leaves the others alone.\<close>

definition payload :: "heap_mem \<Rightarrow> u64 \<Rightarrow> byte list" where
  "payload h a = bytes_at (bytes h) (data (chunk h a)) (unat (mchunk_size (chunk h a)) - 32)"

lemma unat_data:
  "blocks_ok ck lo hi A \<Longrightarrow> hi \<le> 2 ^ 64 \<Longrightarrow> a \<in> A \<Longrightarrow> unat (data (ck a)) = unat a + 32"
proof -
  assume "blocks_ok ck lo hi A" "hi \<le> 2 ^ 64" "a \<in> A"
  then have "data (ck a) = a + 32" "unat a + 64 \<le> 2 ^ 64"
    unfolding blocks_ok_def block_end_def by fastforce+
  then show ?thesis by (simp add: unat_word_ariths)
qed

lemma unat_data_size:
  "64 \<le> unat (sz :: u32) \<Longrightarrow> unat (ucast sz - sizeof_malloc_chunk) = unat sz - 32"
proof -
  assume "64 \<le> unat sz"
  moreover have "unat (ucast sz :: u64) = unat sz"
    using unat_lt_32 [of sz] by (simp add: unsigned_ucast_eq take_bit_nat_eq_self)
  ultimately show ?thesis by (simp add: unat_sub_if_size)
qed

lemma payload_put_other:
  assumes bl: "blocks_ok ck lo hi A" and hi: "hi \<le> 2 ^ 64" and ab: "a \<in> A" "b \<in> A" "a \<noteq> b"
  shows "bytes_at (put_bytes m (data (ck a)) (replicate (unat (mchunk_size (ck a)) - 32) 0)) (data (ck b))
           (unat (mchunk_size (ck b)) - 32)
       = bytes_at m (data (ck b)) (unat (mchunk_size (ck b)) - 32)"
proof (rule bytes_at_put_other)
  have *: "64 \<le> unat (mchunk_size (ck x)) \<and> unat x + unat (mchunk_size (ck x)) \<le> hi" if "x \<in> A" for x
    using bl that unfolding blocks_ok_def block_end_def by blast
  have "unat a + unat (mchunk_size (ck a)) \<le> unat b \<or> unat b + unat (mchunk_size (ck b)) \<le> unat a"
    using bl ab unfolding blocks_ok_def block_end_def by blast
  then show "unat (data (ck b)) + (unat (mchunk_size (ck b)) - 32) \<le> unat (data (ck a)) \<or>
      unat (data (ck a)) + length (replicate (unat (mchunk_size (ck a)) - 32) 0) \<le> unat (data (ck b))"
    using * [OF ab(1)] * [OF ab(2)] by (auto simp: unat_data [OF bl hi] ab)
  show "unat (data (ck a)) + length (replicate (unat (mchunk_size (ck a)) - 32) 0) \<le> 2 ^ 64"
    "unat (data (ck b)) + (unat (mchunk_size (ck b)) - 32) \<le> 2 ^ 64"
    using * [OF ab(1)] * [OF ab(2)] hi by (auto simp: unat_data [OF bl hi] ab)
qed

lemma fits_size:
  assumes "unat n \<le> 2 ^ 31" "ucast (sz :: u32) \<ge> aalign n 16 + sizeof_malloc_chunk"
  shows "unat n + 32 \<le> unat sz"
proof -
  have "unat n \<le> unat (aalign n 16)" "unat (aalign n 16) < unat n + 16"
    using assms aalign_bounds(1,2) [of 16 n] by simp_all
  then have "unat (aalign n 16 + 32) = unat (aalign n 16) + 32"
    using assms(1) by (subst unat_word_ariths(1)) simp
  moreover have "unat (ucast sz :: u64) = unat sz"
    using unat_lt_32 [of sz] by (simp add: unsigned_ucast_eq take_bit_nat_eq_self)
  ultimately show ?thesis using assms(2) \<open>unat n \<le> unat (aalign n 16)\<close> by (simp add: word_le_nat_alt)
qed

lemma link_allocated_payload:
  assumes eq: "link_allocated h nc a f = (h', p)" and inv: "heap_inv h' (a # as) bs"
    and nc: "data nc = data (chunk h' a)" "mchunk_size nc = mchunk_size (chunk h' a)"
  shows "payload h' a = replicate (unat (mchunk_size nc) - 32) 0"
    and "b \<in> set as \<Longrightarrow> mchunk_size (chunk h' b) = mchunk_size (chunk h b) \<and>
      data (chunk h' b) = data (chunk h b) \<and> payload h' b =
      bytes_at (bytes h) (data (chunk h b)) (unat (mchunk_size (chunk h b)) - 32)"
proof -
  let ?ck = "chunk h'"
  have bl: "blocks_ok ?ck (unat (g_heap_malloc_state_base h') + 64) (unat (heap_end (heap h'))) (set ((a # as) @ bs))"
    and d: "distinct ((a # as) @ bs)" using inv by (simp_all add: heap_inv_def)
  have a: "64 \<le> unat (mchunk_size (?ck a))" using bl by (simp add: blocks_ok_def)
  have "bytes h' = put_bytes (bytes h) (data nc) (replicate (unat (ucast (mchunk_size nc) - sizeof_malloc_chunk)) 0)"
    using arg_cong [OF eq, of "\<lambda>x. bytes (fst x)"] by (simp add: link_allocated_eq)
  then have wr: "bytes h' = put_bytes (bytes h) (data (?ck a)) (replicate (unat (mchunk_size (?ck a)) - 32) 0)"
    using unat_data_size [OF a] nc by simp
  have "unat (mchunk_size (?ck a)) - 32 \<le> 2 ^ 64" using unat_lt_32 [of "mchunk_size (?ck a)"] by simp
  then show "payload h' a = replicate (unat (mchunk_size nc) - 32) 0"
    using bytes_at_put_bytes [of "replicate (unat (mchunk_size (?ck a)) - 32) 0" "bytes h" "data (?ck a)"] nc
    by (simp add: payload_def wr)
  assume b: "b \<in> set as"
  then have ne: "b \<noteq> a" using d by auto
  have sd: "mchunk_size (?ck b) = mchunk_size (chunk h b)" "data (?ck b) = data (chunk h b)"
    using ne arg_cong [OF eq, of "\<lambda>x. mchunk_size (chunk (fst x) b)"] arg_cong [OF eq, of "\<lambda>x. data (chunk (fst x) b)"]
    by (simp_all add: link_allocated_eq Let_def split: if_splits)
  have "unat (heap_end (heap h')) \<le> 2 ^ 64" using unat_lt_64 [of "heap_end (heap h')"] by simp
  then show "mchunk_size (chunk h' b) = mchunk_size (chunk h b) \<and>
      data (chunk h' b) = data (chunk h b) \<and> payload h' b = bytes_at (bytes h) (data (chunk h b)) (unat (mchunk_size (chunk h b)) - 32)"
    using payload_put_other [OF bl, of a b "bytes h"] b ne sd by (simp add: payload_def wr)
qed

section \<open>What malloc and free guarantee\<close>

lemma find_SomeD: "find P xs = Some x \<Longrightarrow> x \<in> set xs \<and> P x"
  by (induction xs) (auto split: if_splits)

lemma heap_inv_data: "heap_inv h as bs \<Longrightarrow> a \<in> set (as @ bs) \<Longrightarrow> data (chunk h a) = a + 32"
  by (auto simp: heap_inv_def blocks_ok_def)

lemma malloc_spec:
  assumes inv: "heap_inv h as bs" and n: "unat n \<le> 2 ^ 31" and room: "unat (heap_end (heap h)) + 2 ^ 32 \<le> 2 ^ 64"
  shows "\<exists>h' a. malloc h n = Some (h', a + 32) \<and> heap_inv h' (a # as) (remove1 a bs) \<and>
    (a \<in> set bs \<or> a = heap_end (heap h)) \<and>
    unat n + 32 \<le> unat (mchunk_size (chunk h' a)) \<and>
    payload h' a = replicate (unat (mchunk_size (chunk h' a)) - 32) 0 \<and>
    (\<forall>b \<in> set as. mchunk_size (chunk h' b) = mchunk_size (chunk h b) \<and> payload h' b = payload h b)"
proof -
  let ?fit = "\<lambda>a. ucast (mchunk_size (chunk h a)) \<ge> aalign n 16 + sizeof_malloc_chunk"
  have bin: "dll (chunk h) (unsorted_bin_head (heap h)) 0 bs" using inv by (simp add: heap_inv_def)
  note ff = find_free_eq [OF bin, of "aalign n 16"]
  show ?thesis
  proof (cases "find ?fit bs")
    case (Some a)
    then have a: "a \<in> set bs" "?fit a" by (auto dest: find_SomeD)
    then have a0: "a \<noteq> 0" using heap_inv_nonzero [OF inv] by auto
    let ?nc = "(chunk h a)\<lparr>mchunk_prev_size := 0\<rparr>"
    obtain h' p where l: "link_allocated (unlink_free h a) ?nc a True = (h', p)" by fastforce
    have p: "p = a + 32"
      using arg_cong [OF l, of snd] heap_inv_data [OF inv, of a] a(1) by (simp add: link_allocated_eq)
    have m: "malloc h n = Some (h', a + 32)" using Some a0 l p by (simp add: malloc_def ff)
    have i: "heap_inv h' (a # as) (remove1 a bs)"
      using heap_inv_reuse [OF inv a(1), of ?nc] l by simp
    have s: "data ?nc = data (chunk h' a)" "mchunk_size ?nc = mchunk_size (chunk h' a)"
      using arg_cong [OF l, of "\<lambda>x. data (chunk (fst x) a)"] arg_cong [OF l, of "\<lambda>x. mchunk_size (chunk (fst x) a)"]
      by (simp_all add: link_allocated_eq unlink_free_eq Let_def)
    note pl = link_allocated_payload [OF l i s]
    have "unat n + 32 \<le> unat (mchunk_size (chunk h' a))" using fits_size [OF n a(2)] s(2) by simp
    moreover have "mchunk_size (chunk h' b) = mchunk_size (chunk h b) \<and> payload h' b = payload h b"
      if "b \<in> set as" for b
      using pl(2) [OF that] by (auto simp: unlink_free_eq payload_def)
    ultimately show ?thesis using m i a(1) pl(1) s(2) by auto
  next
    case None
    obtain h1 nc a where g: "grow_heap h (aalign n 16) = (h1, nc, a)" by (metis prod_cases3)
    note gr = heap_inv_grow [OF inv n room, unfolded g prod.case]
    obtain h' p where l: "link_allocated h1 nc a False = (h', p)" by fastforce
    have p: "p = a + 32" using arg_cong [OF l, of snd] gr by (simp add: link_allocated_eq)
    have i: "heap_inv h' (a # as) bs" using gr unfolding l fst_conv by (elim conjE)
    have s: "data nc = data (chunk h' a)" "mchunk_size nc = mchunk_size (chunk h' a)"
      using arg_cong [OF l, of "\<lambda>x. data (chunk (fst x) a)"] arg_cong [OF l, of "\<lambda>x. mchunk_size (chunk (fst x) a)"]
      by (simp_all add: link_allocated_eq Let_def)
    note pl = link_allocated_payload [OF l i s]
    have nb: "remove1 a bs = bs" using i by (auto simp: heap_inv_def intro: remove1_idem)
    have ck: "chunk h1 = chunk h" "bytes h1 = bytes h"
      using g by (auto simp: grow_heap_def sbrk_def Let_def)
    have "unat n \<le> unat (aalign n 16)" using n aalign_bounds(1) [of 16 n] by simp
    then have "unat n + 32 \<le> unat (mchunk_size (chunk h' a))" using gr s(2) by auto
    moreover have "malloc h n = Some (h', a + 32)" using None l p g by (simp add: malloc_def ff)
    moreover have "mchunk_size (chunk h' b) = mchunk_size (chunk h b) \<and> payload h' b = payload h b"
      if "b \<in> set as" for b
      using pl(2) [OF that] by (auto simp: payload_def ck)
    moreover have "a = heap_end (heap h)" using gr by (elim conjE)
    ultimately show ?thesis using i nb pl(1) s(2) by (intro exI [of _ h'] exI [of _ a]) simp
  qed
qed

lemma find_data_found:
  "heap_inv h as bs \<Longrightarrow> a \<in> set as \<Longrightarrow> find (\<lambda>x. data (chunk h x) = a + 32) as = Some a"
proof -
  assume inv: "heap_inv h as bs" and a: "a \<in> set as"
  have "\<forall>x \<in> set as. (data (chunk h x) = a + 32) = (x = a)" using heap_inv_data [OF inv] by auto
  then have "find (\<lambda>x. data (chunk h x) = a + 32) as = find (\<lambda>x. x = a) as"
    by (intro find_cong) auto
  moreover have "find (\<lambda>x. x = a) as = Some a" using a by (induction as) auto
  ultimately show ?thesis by simp
qed

lemma free_spec:
  assumes inv: "heap_inv h as bs" and a: "a \<in> set as" and head: "a = hd as \<longrightarrow> bk (chunk h a) = 0"
  shows "\<exists>h'. free h (a + 32) = Some h' \<and> heap_inv h' (remove1 a as) (a # bs) \<and>
    (\<forall>b \<in> set as - {a}. mchunk_size (chunk h' b) = mchunk_size (chunk h b) \<and> payload h' b = payload h b)"
proof -
  let ?h = "link_free (unlink_allocated h a) a"
  have w: "wdll (chunk h) (mchunk (heap h)) as" and q: "dll (chunk h) (unsorted_bin_head (heap h)) 0 bs"
    and d: "distinct (as @ bs)"
    and bl: "blocks_ok (chunk h) (unat (g_heap_malloc_state_base h) + 64) (unat (heap_end (heap h))) (set (as @ bs))"
    using inv by (auto simp: heap_inv_def)
  have a0: "a \<noteq> 0" using a heap_inv_nonzero [OF inv] by auto
  have qa: "unsorted_bin_head (heap h) \<noteq> a"
    using dll_first [OF q] a d a0 by (auto split: list.splits)
  have f: "free h (a + 32) = Some ?h"
    using a0 by (simp add: free_def find_data_eq [OF w] find_data_found [OF inv a])
  have a64: "64 \<le> unat (mchunk_size (chunk h a))" using bl a by (auto simp: blocks_ok_def)
  have hi: "unat (heap_end (heap h)) \<le> 2 ^ 64" using unat_lt_64 [of "heap_end (heap h)"] by simp
  have "mchunk_size (chunk ?h b) = mchunk_size (chunk h b) \<and> payload ?h b = payload h b"
    if b: "b \<in> set as - {a}" for b
    using payload_put_other [OF bl hi, of a b "bytes h"] a b qa
    by (auto simp: payload_def link_free_eq unlink_allocated_eq unat_data_size [OF a64])
  with f heap_inv_free [OF inv a head] show ?thesis by blast
qed

lemma free_unknown:
  "heap_inv h as bs \<Longrightarrow> (\<forall>a \<in> set as. ptr \<noteq> a + 32) \<Longrightarrow> free h ptr = Some h"
proof -
  assume inv: "heap_inv h as bs" and ptr: "\<forall>a \<in> set as. ptr \<noteq> a + 32"
  then have "find (\<lambda>x. data (chunk h x) = ptr) as = None"
    using heap_inv_data [OF inv] by (auto simp: find_None_iff)
  moreover have "wdll (chunk h) (mchunk (heap h)) as" using inv by (simp add: heap_inv_def)
  ultimately show "free h ptr = Some h" by (simp add: free_def find_data_eq)
qed

lemma init_heap_inv:
  assumes "unat base_addr + 128 < 2 ^ 64"
  shows "heap_inv (fst (init_heap h base_addr sz)) [] []"
proof -
  have "unat (aalign base_addr 64) < unat base_addr + 64"
    using assms aalign_bounds(2) [of 64 base_addr] by simp
  then have "unat (aalign base_addr 64 + 64) = unat (aalign base_addr 64) + 64"
    using assms by (subst unat_word_ariths(1)) simp
  then show ?thesis by (simp add: heap_inv_def init_heap_def brk_def blocks_ok_def Let_def)
qed

section \<open>The allocator interface\<close>

text \<open>
  What the rest of the kernel relies on: \<open>live s P\<close> says that \<open>P\<close> are the pointers handed out
  and not yet returned; a new block is large enough, cleared, and does not overlap another;
  allocation and release leave the contents of the other blocks alone.
\<close>

locale allocator =
  fixes alloc :: "'s \<Rightarrow> u64 \<Rightarrow> ('s \<times> u64) option"
    and dealloc :: "'s \<Rightarrow> u64 \<Rightarrow> 's option"
    and live :: "'s \<Rightarrow> u64 set \<Rightarrow> bool"
    and contents :: "'s \<Rightarrow> u64 \<Rightarrow> byte list"
    and ready :: "'s \<Rightarrow> u64 \<Rightarrow> bool"
    and freeable :: "'s \<Rightarrow> u64 \<Rightarrow> bool"
  assumes alloc_law: "live s P \<Longrightarrow> ready s n \<Longrightarrow>
      \<exists>s' p. alloc s n = Some (s', p) \<and> live s' (insert p P) \<and> p \<notin> P \<and> p \<noteq> 0 \<and>
        unat n \<le> length (contents s' p) \<and> set (contents s' p) \<subseteq> {0} \<and>
        (\<forall>q \<in> P. contents s' q = contents s q)"
    and dealloc_law: "live s P \<Longrightarrow> p \<in> P \<Longrightarrow> freeable s p \<Longrightarrow>
      \<exists>s'. dealloc s p = Some s' \<and> live s' (P - {p}) \<and> (\<forall>q \<in> P - {p}. contents s' q = contents s q)"
    and apart_law: "live s P \<Longrightarrow> p \<in> P \<Longrightarrow> q \<in> P \<Longrightarrow> p \<noteq> q \<Longrightarrow>
      unat p + length (contents s p) \<le> unat q \<or> unat q + length (contents s q) \<le> unat p"
begin

text \<open>A run of allocations, as a client that builds a structure of several blocks makes it.\<close>

fun allocs :: "'s \<Rightarrow> u64 list \<Rightarrow> ('s \<times> u64 list) option" where
  "allocs s [] = Some (s, [])"
| "allocs s (n # ns) = do { (s1, p) \<leftarrow> alloc s n; (s2, ps) \<leftarrow> allocs s1 ns; Some (s2, p # ps) }"

lemma allocs_fresh:
  "live s P \<Longrightarrow> allocs s ns = Some (s', ps) \<Longrightarrow> (\<And>s n. n \<in> set ns \<Longrightarrow> ready s n) \<Longrightarrow>
     live s' (P \<union> set ps) \<and> distinct ps \<and> P \<inter> set ps = {} \<and> length ps = length ns \<and>
     (\<forall>q \<in> P. contents s' q = contents s q)"
proof (induction ns arbitrary: s P ps)
  case Nil
  then show ?case by simp
next
  case (Cons n ns)
  from Cons.prems obtain s1 p where a: "alloc s n = Some (s1, p)" "live s1 (insert p P)" "p \<notin> P"
      "\<forall>q \<in> P. contents s1 q = contents s q"
    using alloc_law [of s P n] by force
  with Cons.prems obtain ps' where r: "allocs s1 ns = Some (s', ps')" "ps = p # ps'"
    by (auto split: bind_splits)
  from Cons.IH [OF a(2) r(1)] Cons.prems(3) a r show ?case by auto
qed

lemma dealloc_alloc:
  assumes "live s P" "ready s n" "alloc s n = Some (s', p)" "freeable s' p"
  shows "\<exists>t. dealloc s' p = Some t \<and> live t P \<and> (\<forall>q \<in> P. contents t q = contents s q)"
proof -
  from alloc_law [OF assms(1,2)] assms(3)
  have "live s' (insert p P)" "p \<notin> P" "\<forall>q \<in> P. contents s' q = contents s q" by auto
  with dealloc_law [OF this(1) insertI1 assms(4)] show ?thesis by auto
qed

end

definition live :: "heap_mem \<Rightarrow> u64 set \<Rightarrow> bool" where
  "live h P \<longleftrightarrow> (\<exists>as bs. heap_inv h as bs \<and> P = (\<lambda>a. a + 32) ` set as)"

definition contents :: "heap_mem \<Rightarrow> u64 \<Rightarrow> byte list" where
  "contents h p = payload h (p - 32)"

definition ready :: "heap_mem \<Rightarrow> u64 \<Rightarrow> bool" where
  "ready h n \<longleftrightarrow> unat n \<le> 2 ^ 31 \<and> unat (heap_end (heap h)) + 2 ^ 32 \<le> 2 ^ 64"

text \<open>
  A block can be given back when its chunk is not the most recently allocated one or has no
  stale back pointer.
\<close>

definition freeable :: "heap_mem \<Rightarrow> u64 \<Rightarrow> bool" where
  "freeable h p \<longleftrightarrow> (p - 32 = mchunk (heap h) \<longrightarrow> bk (chunk h (p - 32)) = 0)"

interpretation kernel_heap: allocator malloc free live contents ready freeable
proof
  fix s P n
  assume "live s P" "ready s n"
  then obtain as bs where inv: "heap_inv s as bs" and P: "P = (\<lambda>a. a + 32) ` set as"
    and r: "unat n \<le> 2 ^ 31" "unat (heap_end (heap s)) + 2 ^ 32 \<le> 2 ^ 64"
    by (auto simp: live_def ready_def)
  from malloc_spec [OF inv r] obtain h' a where m: "malloc s n = Some (h', a + 32)"
    and i: "heap_inv h' (a # as) (remove1 a bs)" and sz: "unat n + 32 \<le> unat (mchunk_size (chunk h' a))"
    and z: "payload h' a = replicate (unat (mchunk_size (chunk h' a)) - 32) 0"
    and o: "\<forall>b \<in> set as. payload h' b = payload s b" by blast
  have "a + 32 \<noteq> 0"
  proof -
    have "blocks_ok (chunk h') (unat (g_heap_malloc_state_base h') + 64) (unat (heap_end (heap h'))) (set (a # as @ remove1 a bs))"
      using i by (simp add: heap_inv_def)
    from unat_data [OF this _, of a] heap_inv_data [OF i, of a] unat_lt_64 [of "heap_end (heap h')"]
    show ?thesis by auto
  qed
  moreover have "a \<notin> set as" using i by (auto simp: heap_inv_def)
  moreover have "live h' (insert (a + 32) P)" unfolding live_def P using i by (metis image_insert list.simps(15))
  ultimately show "\<exists>s' p. malloc s n = Some (s', p) \<and> live s' (insert p P) \<and> p \<notin> P \<and> p \<noteq> 0 \<and>
        unat n \<le> length (contents s' p) \<and> set (contents s' p) \<subseteq> {0} \<and> (\<forall>q \<in> P. contents s' q = contents s q)"
    using m i sz z o P by (intro exI [of _ h'] exI [of _ "a + 32"]) (auto simp: contents_def)
next
  fix s P p
  assume "live s P" "p \<in> P" "freeable s p"
  then obtain as bs a where inv: "heap_inv s as bs" and P: "P = (\<lambda>a. a + 32) ` set as"
    and a: "a \<in> set as" "p = a + 32" and f: "a = mchunk (heap s) \<longrightarrow> bk (chunk s a) = 0"
    by (auto simp: live_def freeable_def)
  have "a = hd as \<longrightarrow> bk (chunk s a) = 0"
    using f a(1) inv by (cases as) (auto simp: heap_inv_def)
  from free_spec [OF inv a(1) this] obtain h' where h: "free s p = Some h'" "heap_inv h' (remove1 a as) (a # bs)"
    "\<forall>b \<in> set as - {a}. payload h' b = payload s b" using a(2) by blast
  have r: "set (remove1 a as) = set as - {a}" using inv by (simp add: heap_inv_def)
  have "inj (\<lambda>a :: u64. a + 32)" by (simp add: inj_def)
  then have Pp: "P - {p} = (\<lambda>a. a + 32) ` (set as - {a})"
    unfolding P a(2) by (simp add: image_set_diff)
  have "contents h' q = contents s q" if q: "q \<in> P - {p}" for q
  proof -
    obtain b where "b \<in> set as - {a}" "q = b + 32" using q unfolding Pp by blast
    then show ?thesis using h(3) by (simp add: contents_def)
  qed
  moreover have "live h' (P - {p})" using h(2) r Pp unfolding live_def by metis
  ultimately show "\<exists>s'. free s p = Some s' \<and> live s' (P - {p}) \<and> (\<forall>q \<in> P - {p}. contents s' q = contents s q)"
    using h(1) by blast
next
  fix s P p q
  assume "live s P" and pq: "p \<in> P" "q \<in> P" "p \<noteq> q"
  then obtain as bs where inv: "heap_inv s as bs" and P: "P = (\<lambda>a. a + 32) ` set as" by (auto simp: live_def)
  then obtain a b where ab: "a \<in> set as" "b \<in> set as" "p = a + 32" "q = b + 32" "a \<noteq> b" using pq by auto
  have bl: "blocks_ok (chunk s) (unat (g_heap_malloc_state_base s) + 64) (unat (heap_end (heap s))) (set (as @ bs))"
    using inv by (simp add: heap_inv_def)
  have u: "unat (x + 32) = unat x + 32" if "x \<in> set as" for x
    using unat_data [OF bl, of x] heap_inv_data [OF inv, of x] that unat_lt_64 [of "heap_end (heap s)"] by simp
  have sz: "64 \<le> unat (mchunk_size (chunk s x))" if "x \<in> set as" for x
    using bl that by (auto simp: blocks_ok_def)
  have "block_end (chunk s) a \<le> unat b \<or> block_end (chunk s) b \<le> unat a"
    using bl ab by (auto simp: blocks_ok_def)
  then show "unat p + length (contents s p) \<le> unat q \<or> unat q + length (contents s q) \<le> unat p"
    using ab sz [OF ab(1)] sz [OF ab(2)] u by (auto simp: contents_def payload_def block_end_def)
qed

section \<open>Correctness of the allocator\<close>

text \<open>A heap as \<open>init_heap\<close> leaves it at the kernel heap's address, for the examples below.\<close>

definition fresh_heap :: heap_mem where
  "fresh_heap =
     fst (init_heap \<lparr>g_heap_malloc_state_base = 0,
                     heap = \<lparr>heap_base = 0, heap_end = 0, heap_total_size = 0, mchunk = 0, unsorted_bin_head = 0\<rparr>,
                     chunk = (\<lambda>_. \<lparr>mchunk_prev_size = 0, mchunk_size = 0, fd = 0, bk = 0, data = 0\<rparr>),
                     bytes = (\<lambda>_. 0)\<rparr> 0x2000000 0x400000)"

text \<open>
  C4. \<open>malloc\<close> returns for every request up to \<open>2 ^ 31\<close> bytes while the heap is below the top of
  the address space: the block is a chunk of the free list or a new one at the old heap end,
  is large enough and cleared, joins the allocated list, and overlaps no other chunk; the data
  of the blocks already allocated is unchanged.
\<close>

theorem malloc_block:
  assumes "heap_inv h as bs" "unat n \<le> 2 ^ 31" "unat (heap_end (heap h)) + 2 ^ 32 \<le> 2 ^ 64"
  shows "\<exists>h' a. malloc h n = Some (h', a + 32) \<and> heap_inv h' (a # as) (remove1 a bs) \<and>
    (a \<in> set bs \<or> a = heap_end (heap h)) \<and>
    unat n + 32 \<le> unat (mchunk_size (chunk h' a)) \<and>
    payload h' a = replicate (unat (mchunk_size (chunk h' a)) - 32) 0 \<and>
    (\<forall>b \<in> set as. mchunk_size (chunk h' b) = mchunk_size (chunk h b) \<and> payload h' b = payload h b)"
  by (rule malloc_spec [OF assms])

theorem malloc_block_witness:
  "\<exists>h' a. malloc fresh_heap 100 = Some (h', a + 32) \<and> heap_inv h' [a] [] \<and> a = 0x2000040 \<and>
     132 \<le> unat (mchunk_size (chunk h' a))"
proof -
  have i: "heap_inv fresh_heap [] []" unfolding fresh_heap_def by (rule init_heap_inv) simp
  have e: "heap_end (heap fresh_heap) = 0x2000040"
    by (simp add: fresh_heap_def init_heap_def brk_def aalign_def Let_def)
  show ?thesis using malloc_block [OF i, of 100] by (auto simp: e)
qed

text \<open>
  C5. \<open>free\<close> moves the chunk of a live block from the allocated to the free list, keeps the
  invariant and the data of all other blocks, unless the block is the most recent one and its
  header carries a stale back pointer.
\<close>

theorem free_block:
  assumes "heap_inv h as bs" "a \<in> set as" "a = hd as \<longrightarrow> bk (chunk h a) = 0"
  shows "\<exists>h'. free h (a + 32) = Some h' \<and> heap_inv h' (remove1 a as) (a # bs) \<and>
    (\<forall>b \<in> set as - {a}. mchunk_size (chunk h' b) = mchunk_size (chunk h b) \<and> payload h' b = payload h b)"
  by (rule free_spec [OF assms])

theorem free_block_witness:
  "\<exists>h h'. malloc fresh_heap 100 = Some (h, 0x2000060) \<and> free h 0x2000060 = Some h' \<and>
     heap_inv h' [] [0x2000040]"
proof -
  have i: "heap_inv fresh_heap [] []" unfolding fresh_heap_def by (rule init_heap_inv) simp
  have e: "heap_end (heap fresh_heap) = 0x2000040" "unsorted_bin_head (heap fresh_heap) = 0" "mchunk (heap fresh_heap) = 0"
    by (simp_all add: fresh_heap_def init_heap_def brk_def aalign_def Let_def)
  obtain h where h: "malloc fresh_heap 100 = Some (h, 0x2000060)" "heap_inv h [0x2000040] []"
    using malloc_spec [OF i, of 100] by (auto simp: e)
  have "case malloc fresh_heap 100 of None \<Rightarrow> False | Some (h, _) \<Rightarrow> bk (chunk h 0x2000040) = 0"
    by code_simp
  then have "bk (chunk h 0x2000040) = 0" using h(1) by simp
  with free_block [OF h(2), of "0x2000040"] h(1) show ?thesis by auto
qed

definition reuse_run :: "heap_mem \<Rightarrow> (heap_mem \<times> u64 \<times> u64) option" where
  "reuse_run h =
     do { (h, a) \<leftarrow> malloc h 16; (h, b) \<leftarrow> malloc h 100;
          h \<leftarrow> free h b; h \<leftarrow> free h a;
          (h, c) \<leftarrow> malloc h 100; h \<leftarrow> free h c; Some (h, b, c) }"


end
