(* ===== verification/LinkedList.thy ===== *)
theory LinkedList
  imports LibcHeap
begin

text \<open>
  The generic list of \<open>kernel/include/linkedList.h\<close>.  A node is 16 bytes of a heap block: the
  data pointer and the next pointer.  Everything the list needs of the heap is the
  allocator interface.
\<close>

definition node_data :: "heap_mem \<Rightarrow> u64 \<Rightarrow> u64" where
  "node_data h p = read64 (bytes h) p"

definition node_next :: "heap_mem \<Rightarrow> u64 \<Rightarrow> u64" where
  "node_next h p = read64 (bytes h) (p + 8)"

definition set_node_data :: "heap_mem \<Rightarrow> u64 \<Rightarrow> u64 \<Rightarrow> heap_mem" where
  "set_node_data h p v = h\<lparr>bytes := write64 (bytes h) p v\<rparr>"

definition set_node_next :: "heap_mem \<Rightarrow> u64 \<Rightarrow> u64 \<Rightarrow> heap_mem" where
  "set_node_next h p v = h\<lparr>bytes := write64 (bytes h) (p + 8) v\<rparr>"

definition create_node :: "heap_mem \<Rightarrow> u64 \<Rightarrow> (heap_mem \<times> u64) option" where
  "create_node h d =
     do { (h, new_node) \<leftarrow> malloc h 16;
          Some (if new_node \<noteq> 0 then (set_node_next (set_node_data h new_node d) new_node 0, new_node)
                else (h, new_node)) }"

definition append_node :: "heap_mem \<Rightarrow> u64 \<Rightarrow> u64 \<Rightarrow> (heap_mem \<times> u64) option" where
  "append_node h head d =
     do { (h, new_node) \<leftarrow> create_node h d;
          Some (if new_node = 0 then (h, head)
                else if head = 0 then (set_node_next h new_node 0, new_node)
                else (set_node_next h new_node head, new_node)) }"

text \<open>\<open>cmp\<close> is the comparison function with the second argument applied; it returns a C \<open>int\<close>.\<close>

partial_function (option) remove_node_from ::
  "heap_mem \<Rightarrow> u64 \<Rightarrow> u64 \<Rightarrow> u64 \<Rightarrow> (u64 \<Rightarrow> int) \<Rightarrow> (heap_mem \<times> u64) option" where
  "remove_node_from h head previous current cmp =
     (if current \<noteq> 0 then
        if cmp (node_data h current) = 0 then
          (if previous = 0 then do { h' \<leftarrow> free h current; Some (h', node_next h current) }
           else do { h' \<leftarrow> free (set_node_next h previous (node_next h current)) current; Some (h', head) })
        else remove_node_from h head current (node_next h current) cmp
      else Some (h, head))"

definition remove_node :: "heap_mem \<Rightarrow> u64 \<Rightarrow> (u64 \<Rightarrow> int) \<Rightarrow> (heap_mem \<times> u64) option" where
  "remove_node h head cmp = remove_node_from h head 0 head cmp"

partial_function (option) free_list :: "heap_mem \<Rightarrow> u64 \<Rightarrow> heap_mem option" where
  "free_list h current =
     (if current \<noteq> 0 then do { h' \<leftarrow> free h current; free_list h' (node_next h current) } else Some h)"

declare remove_node_from.simps [code] free_list.simps [code]

section \<open>Lists in the heap\<close>

fun llist :: "heap_mem \<Rightarrow> u64 \<Rightarrow> (u64 \<times> u64) list \<Rightarrow> bool" where
  "llist h p [] = (p = 0)"
| "llist h p ((a, d) # xs) = (p = a \<and> a \<noteq> 0 \<and> node_data h a = d \<and> llist h (node_next h a) xs)"

text \<open>The bytes of a live block are where its pointer points.\<close>

lemma contents_bytes: "live h P \<Longrightarrow> q \<in> P \<Longrightarrow> contents h q = bytes_at (bytes h) q (length (contents h q))"
proof -
  assume "live h P" "q \<in> P"
  then obtain as bs a where "heap_inv h as bs" "a \<in> set as" "q = a + 32" by (auto simp: live_def)
  then have "data (chunk h a) = q" using heap_inv_data [of h as bs a] by simp
  with \<open>q = a + 32\<close> show ?thesis by (simp add: contents_def payload_def)
qed

lemma bytes_at_prefix: "k \<le> n \<Longrightarrow> bytes_at m p k = take k (bytes_at m p n)"
  by (rule nth_equalityI) auto

lemma node_of_contents:
  assumes "live h P" "q \<in> P" "live h' P'" "q \<in> P'" "16 \<le> length (contents h q)" "contents h' q = contents h q"
  shows "node_data h' q = node_data h q" "node_next h' q = node_next h q"
proof -
  have "bytes_at (bytes h') q 16 = bytes_at (bytes h) q 16"
    using contents_bytes [OF assms(1,2)] contents_bytes [OF assms(3,4)] assms(5,6) by (metis bytes_at_prefix)
  then have "bytes_at (bytes h') q 8 @ bytes_at (bytes h') (q + 8) 8 = bytes_at (bytes h) q 8 @ bytes_at (bytes h) (q + 8) 8"
    using bytes_at_add [of "bytes h" q 8 8] bytes_at_add [of "bytes h'" q 8 8] by simp
  then show "node_data h' q = node_data h q" "node_next h' q = node_next h q"
    by (simp_all add: node_data_def node_next_def read64_def)
qed

lemma live_bytes [simp]: "live (h\<lparr>bytes := m\<rparr>) P = live h P"
  by (simp add: live_def heap_inv_def)

lemma length_contents_bytes [simp]: "length (contents (h\<lparr>bytes := m\<rparr>) q) = length (contents h q)"
  by (simp add: contents_def payload_def)

text \<open>A block of the allocator does not reach the end of the address space.\<close>

lemma live_bound: "live h P \<Longrightarrow> p \<in> P \<Longrightarrow> unat p + length (contents h p) \<le> 2 ^ 64"
proof -
  assume "live h P" "p \<in> P"
  then obtain as bs a where inv: "heap_inv h as bs" and a: "a \<in> set as" "p = a + 32" by (auto simp: live_def)
  have bl: "blocks_ok (chunk h) (unat (g_heap_malloc_state_base h) + 64) (unat (heap_end (heap h))) (set (as @ bs))"
    using inv by (simp add: heap_inv_def)
  have "unat p = unat a + 32"
    using unat_data [OF bl, of a] heap_inv_data [OF inv, of a] a unat_lt_64 [of "heap_end (heap h)"] by simp
  moreover have "block_end (chunk h) a \<le> unat (heap_end (heap h))" using bl a by (auto simp: blocks_ok_def)
  moreover have "64 \<le> unat (mchunk_size (chunk h a))" using bl a by (auto simp: blocks_ok_def)
  ultimately show ?thesis
    using a unat_lt_64 [of "heap_end (heap h)"] by (simp add: contents_def payload_def block_end_def)
qed

text \<open>Writing a node's fields leaves the other blocks alone.\<close>

lemma write_node_other:
  assumes "live h P" "p \<in> P" "q \<in> P" "p \<noteq> q" "16 \<le> length (contents h p)" and k: "k + 8 \<le> 16"
  shows "contents (h\<lparr>bytes := write64 (bytes h) (p + of_nat k) v\<rparr>) q = contents h q"
proof -
  let ?h = "h\<lparr>bytes := write64 (bytes h) (p + of_nat k) v\<rparr>" and ?n = "length (contents h q)"
  have "unat p + length (contents h p) \<le> unat q \<or> unat q + ?n \<le> unat p"
    by (rule kernel_heap.apart_law [OF assms(1-4)])
  moreover have "unat p + length (contents h p) \<le> 2 ^ 64" "unat q + ?n \<le> 2 ^ 64"
    using live_bound [OF assms(1)] assms by auto
  moreover have "unat (p + of_nat k) = unat p + k"
    using \<open>unat p + length (contents h p) \<le> 2 ^ 64\<close> assms(5) k by (intro unat_add_of_nat) simp
  ultimately have "bytes_at (put_bytes (bytes h) (p + of_nat k) (to_le 8 v)) q ?n = bytes_at (bytes h) q ?n"
    using assms(5) k by (intro bytes_at_put_other) auto
  then show ?thesis
    using contents_bytes [of ?h P q] contents_bytes [of h P q] assms(1,3) by (simp add: write64_def)
qed

lemma llist_cong:
  "(\<And>a d. (a, d) \<in> set xs \<Longrightarrow> node_data h' a = node_data h a \<and> node_next h' a = node_next h a) \<Longrightarrow>
     llist h' p xs = llist h p xs"
proof (induction xs arbitrary: p)
  case Nil
  then show ?case by simp
next
  case (Cons x xs)
  obtain a d where x: "x = (a, d)" by fastforce
  have "node_data h' a = node_data h a" "node_next h' a = node_next h a"
    using Cons.prems [of a d] x by simp_all
  moreover have "llist h' p xs = llist h p xs" for p
    using Cons.prems by (intro Cons.IH) (auto simp: x)
  ultimately show ?case by (simp add: x)
qed

text \<open>The nodes of a list are live blocks large enough for a node.\<close>

definition nodes_live :: "heap_mem \<Rightarrow> u64 set \<Rightarrow> (u64 \<times> u64) list \<Rightarrow> bool" where
  "nodes_live h P xs \<longleftrightarrow> live h P \<and> (\<forall>(a, d) \<in> set xs. a \<in> P \<and> 16 \<le> length (contents h a))"

lemma read64_write64_next:
  "unat p + 16 \<le> 2 ^ 64 \<Longrightarrow> read64 (write64 m (p + 8) v) p = read64 m p"
proof -
  assume p: "unat p + 16 \<le> 2 ^ 64"
  then have "unat (p + 8) = unat p + 8" using unat_add_of_nat [of p 8] by simp
  then have "bytes_at (put_bytes m (p + 8) (to_le 8 v)) p 8 = bytes_at m p 8"
    using p by (intro bytes_at_put_other) auto
  then show ?thesis by (simp add: read64_def write64_def)
qed

lemma append_node_spec:
  assumes nl: "nodes_live h P xs" and l: "llist h head xs" and r: "ready h 16"
  shows "\<exists>h' p. append_node h head d = Some (h', p) \<and> p \<notin> P \<and> llist h' p ((p, d) # xs) \<and>
    nodes_live h' (insert p P) ((p, d) # xs) \<and> (\<forall>q \<in> P. contents h' q = contents h q)"
proof -
  have lv: "live h P" using nl by (simp add: nodes_live_def)
  from kernel_heap.alloc_law [OF lv r] obtain h1 p where m: "malloc h 16 = Some (h1, p)"
    and p: "live h1 (insert p P)" "p \<notin> P" "p \<noteq> 0" "16 \<le> length (contents h1 p)"
    and same: "\<forall>q \<in> P. contents h1 q = contents h q" by auto
  define h2 where "h2 = h1\<lparr>bytes := write64 (bytes h1) (p + of_nat 0) d\<rparr>"
  define h3 where "h3 = h2\<lparr>bytes := write64 (bytes h2) (p + of_nat 8) 0\<rparr>"
  define h4 where "h4 = h3\<lparr>bytes := write64 (bytes h3) (p + of_nat 8) head\<rparr>"
  have ap: "append_node h head d = Some (h4, p)"
    using m p(3) by (auto simp: append_node_def create_node_def set_node_next_def set_node_data_def h2_def h3_def h4_def)
  have lv': "live h2 (insert p P)" "live h3 (insert p P)" "live h4 (insert p P)" using p(1) by (simp_all add: h2_def h3_def h4_def)
  have len: "length (contents h2 q) = length (contents h1 q)" "length (contents h3 q) = length (contents h1 q)"
    "length (contents h4 q) = length (contents h1 q)" for q by (simp_all add: h2_def h3_def h4_def)
  have o: "contents h4 q = contents h q" if q: "q \<in> P" for q
  proof -
    have ne: "p \<noteq> q" using q p(2) by auto
    have "contents h2 q = contents h1 q" unfolding h2_def
      using p(1,4) q ne by (intro write_node_other [where P = "insert p P"]) auto
    moreover have "contents h3 q = contents h2 q" unfolding h3_def
      using lv'(1) p(4) q ne len by (intro write_node_other [where P = "insert p P"]) auto
    moreover have "contents h4 q = contents h3 q" unfolding h4_def
      using lv'(2) p(4) q ne len by (intro write_node_other [where P = "insert p P"]) auto
    ultimately show ?thesis using same q by simp
  qed
  have b: "unat p + 16 \<le> 2 ^ 64" using live_bound [OF p(1), of p] p(4) by simp
  have nd: "node_data h4 p = d" "node_next h4 p = head"
    using read64_write64_next [OF b] by (simp_all add: node_data_def node_next_def h2_def h3_def h4_def)
  have "llist h4 head xs = llist h head xs"
  proof (rule llist_cong)
    fix a d' assume ad: "(a, d') \<in> set xs"
    then have a: "a \<in> P" "16 \<le> length (contents h a)" using nl by (auto simp: nodes_live_def)
    show "node_data h4 a = node_data h a \<and> node_next h4 a = node_next h a"
      using node_of_contents [OF lv a(1) lv'(3)] a o by auto
  qed
  then have "llist h4 p ((p, d) # xs)" using l nd p(3) by simp
  moreover have "nodes_live h4 (insert p P) ((p, d) # xs)"
  proof -
    have "a \<in> P \<and> 16 \<le> length (contents h4 a)" if "(a, e) \<in> set xs" for a e
      using nl that o by (auto simp: nodes_live_def)
    moreover have "16 \<le> length (contents h4 p)" using len(3) [of p] p(4) by simp
    ultimately show ?thesis using lv'(3) by (auto simp: nodes_live_def)
  qed
  ultimately show ?thesis using ap p(2) o by blast
qed

text \<open>
  C7. \<open>append_node\<close> puts the new node at the front of the list, not at its end as its
  comment says: from a list with data \<open>ds\<close> it makes one with data \<open>d # ds\<close>, in a block that was
  not in use, and keeps the contents of every block in use.
\<close>

theorem append_node_prepends:
  assumes "nodes_live h P xs" "llist h head xs" "ready h 16"
  shows "\<exists>h' p. append_node h head d = Some (h', p) \<and> p \<notin> P \<and> llist h' p ((p, d) # xs) \<and>
    nodes_live h' (insert p P) ((p, d) # xs) \<and> (\<forall>q \<in> P. contents h' q = contents h q)"
  by (rule append_node_spec [OF assms])

theorem append_node_prepends_witness:
  "\<exists>h' p. append_node fresh_heap 0 42 = Some (h', p) \<and> llist h' p [(p, 42)]"
proof -
  have "heap_inv fresh_heap [] []" unfolding fresh_heap_def by (rule init_heap_inv) simp
  then have "live fresh_heap {}" unfolding live_def by (intro exI [of _ "[]"]) simp
  moreover have "ready fresh_heap 16"
    by (simp add: ready_def fresh_heap_def init_heap_def brk_def aalign_def Let_def)
  ultimately show ?thesis
    using append_node_prepends [of fresh_heap "{}" "[]" 0 42] by (auto simp: nodes_live_def)
qed

end
