(* ===== verification/MmuFrames.thy ===== *)
theory MmuFrames
  imports LibcMemory
begin

text \<open>
  The page frame allocator of \<open>kernel/arch/x86_64/mmu/pframe.c\<close>: one byte per page, zero for
  a free page and the owner's process id otherwise.
\<close>

abbreviation PAGE_SIZE :: u64 where "PAGE_SIZE \<equiv> 4096"

text \<open>\<open>PAGE_FRAME_ALLOCATOR_START\<close> is the kernel's end at 10 MB; the bitmap has a byte per page.\<close>

definition PAGE_FRAME_ALLOCATOR_START :: u64 where "PAGE_FRAME_ALLOCATOR_START = 10 * (1024 * 1024)"
definition MEMORY_SIZE_PAGES :: u64 where "MEMORY_SIZE_PAGES = 0x40000 * 4"
definition PAGE_FRAME_ALLOCATOR_END :: u64 where
  "PAGE_FRAME_ALLOCATOR_END = PAGE_FRAME_ALLOCATOR_START + MEMORY_SIZE_PAGES - 1"

record PageFrameAllocator =
  bitmap :: "u64 \<Rightarrow> byte"
  num_pages :: u64
  initialized :: u64

definition set_bitmap :: "PageFrameAllocator \<Rightarrow> u64 \<Rightarrow> byte \<Rightarrow> PageFrameAllocator" where
  "set_bitmap al i v = al\<lparr>bitmap := (bitmap al)(i := v)\<rparr>"

text \<open>\<open>memset\<close> on the bitmap, which is addressed by page number here.\<close>

definition init_page_frame_allocator :: "PageFrameAllocator \<Rightarrow> u64 \<Rightarrow> PageFrameAllocator" where
  "init_page_frame_allocator al memory_size_pages =
     (if initialized al \<noteq> 0 then al
      else let bm = put_bytes (bitmap al) 0 (replicate (unat memory_size_pages) 0);
               bm = put_bytes bm 0 (replicate (unat ((PAGE_FRAME_ALLOCATOR_END + PAGE_SIZE) div PAGE_SIZE)) 1)
           in \<lparr>bitmap = bm, num_pages = memory_size_pages, initialized = 1\<rparr>)"

text \<open>The search from page \<open>i\<close> on, with \<open>n\<close> pages left; the page's address, or NULL.\<close>

fun allocate_page_from :: "PageFrameAllocator \<Rightarrow> u32 \<Rightarrow> u64 \<Rightarrow> nat \<Rightarrow> PageFrameAllocator \<times> u64" where
  "allocate_page_from al pid i 0 = (al, 0)"
| "allocate_page_from al pid i (Suc n) =
     (if bitmap al i = 0 then (set_bitmap al i (ucast pid), i * PAGE_SIZE)
      else allocate_page_from al pid (i + 1) n)"

definition allocate_page :: "PageFrameAllocator \<Rightarrow> u32 \<Rightarrow> PageFrameAllocator \<times> u64" where
  "allocate_page al pid = allocate_page_from al pid 0 (unat (num_pages al))"

definition deallocate_page :: "PageFrameAllocator \<Rightarrow> u64 \<Rightarrow> PageFrameAllocator" where
  "deallocate_page al page =
     (let page_index = page div PAGE_SIZE;
          b = page_index div 64
      in set_bitmap al b (ucast (ucast (bitmap al b) AND NOT (push_bit (unat (page_index mod 64)) (1 :: u64)))))"

section \<open>Allocation\<close>

lemma allocate_page_from_eq:
  "unat i + n < 2 ^ 64 \<Longrightarrow>
   allocate_page_from al pid i n =
     (case find (\<lambda>k. bitmap al (of_nat k) = 0) [unat i..<unat i + n] of
        None \<Rightarrow> (al, 0)
      | Some k \<Rightarrow> (set_bitmap al (of_nat k) (ucast pid), of_nat k * PAGE_SIZE))"
proof (induction n arbitrary: i)
  case 0
  then show ?case by simp
next
  case (Suc n)
  have "unat (i + 1) = Suc (unat i)" using Suc.prems by (simp add: unat_word_ariths)
  moreover have "[unat i..<unat i + Suc n] = unat i # [Suc (unat i)..<Suc (unat i) + n]"
    by (simp add: upt_conv_Cons)
  ultimately show ?case using Suc.IH [of "i + 1"] Suc.prems by simp
qed

lemma find_upt_SomeD:
  "find P [a..<b] = Some k \<Longrightarrow> a \<le> k \<and> k < b \<and> P k \<and> (\<forall>j. a \<le> j \<and> j < k \<longrightarrow> \<not> P j)"
  by (auto simp: find_Some_iff) (metis add_diff_inverse_nat add_less_cancel_left not_less nth_upt order_less_trans)

text \<open>The frames marked in the bitmap, and the number of pages still free.\<close>

definition used_frames :: "PageFrameAllocator \<Rightarrow> u64 set" where
  "used_frames al = {f. bitmap al (f div PAGE_SIZE) \<noteq> 0}"

definition free_pages :: "PageFrameAllocator \<Rightarrow> nat set" where
  "free_pages al = {k. k < unat (num_pages al) \<and> bitmap al (of_nat k) = 0}"

lemma finite_free_pages [simp]: "finite (free_pages al)"
  by (simp add: free_pages_def)

lemma allocate_page_cases:
  assumes "unat (num_pages al) \<le> 2 ^ 40"
  obtains "free_pages al = {}" "allocate_page al pid = (al, 0)"
  | k where "k \<in> free_pages al" "\<forall>j < k. j \<notin> free_pages al"
      "allocate_page al pid = (set_bitmap al (of_nat k) (ucast pid), of_nat k * PAGE_SIZE)"
proof -
  have eq: "allocate_page al pid =
     (case find (\<lambda>k. bitmap al (of_nat k) = 0) [0..<unat (num_pages al)] of
        None \<Rightarrow> (al, 0)
      | Some k \<Rightarrow> (set_bitmap al (of_nat k) (ucast pid), of_nat k * PAGE_SIZE))"
    using allocate_page_from_eq [of 0 "unat (num_pages al)" al pid] unat_lt_64 [of "num_pages al"]
    by (simp add: allocate_page_def)
  show thesis
  proof (cases "find (\<lambda>k. bitmap al (of_nat k) = 0) [0..<unat (num_pages al)]")
    case None
    then have "free_pages al = {}" by (auto simp: find_None_iff free_pages_def)
    with None eq that(1) show ?thesis by simp
  next
    case (Some k)
    with find_upt_SomeD [OF Some] eq that(2) [of k] show ?thesis by (auto simp: free_pages_def)
  qed
qed

lemma page_number:
  "k < 2 ^ 40 \<Longrightarrow> unat (of_nat k * PAGE_SIZE) = k * 4096"
  "k < 2 ^ 40 \<Longrightarrow> of_nat k * PAGE_SIZE div PAGE_SIZE = of_nat k"
proof -
  assume k: "k < 2 ^ 40"
  then show 1: "unat (of_nat k * PAGE_SIZE) = k * 4096"
    by (subst unat_word_ariths(2)) (simp add: unat_of_nat take_bit_nat_eq_self)
  then show "of_nat k * PAGE_SIZE div PAGE_SIZE = of_nat k"
    using k by (simp add: word_unat_eq_iff unat_div unat_of_nat take_bit_nat_eq_self)
qed

section \<open>The allocator as an interface\<close>

text \<open>A page-aligned physical address below \<open>2 ^ 52\<close>, as it fits a page table entry.\<close>

definition frame_addr :: "u64 \<Rightarrow> bool" where
  "frame_addr f \<longleftrightarrow> f AND 0x000FFFFFFFFFF000 = f"

lemma frame_addr_page: "k < 2 ^ 40 \<Longrightarrow> frame_addr (of_nat k * PAGE_SIZE)"
proof -
  assume k: "k < 2 ^ 40"
  have "of_nat k * PAGE_SIZE = push_bit 12 (of_nat k)" by (simp add: push_bit_eq_mult)
  moreover have "of_nat k = take_bit 40 (of_nat k :: u64)"
    using k by (simp add: word_unat_eq_iff unsigned_take_bit_eq unat_of_nat take_bit_nat_eq_self)
  moreover have "(0x000FFFFFFFFFF000 :: u64) = push_bit 12 (mask 40)" by (simp add: mask_eq_exp_minus_1)
  moreover have "push_bit 12 (take_bit 40 w) AND push_bit 12 (mask 40) = push_bit 12 (take_bit 40 w)" for w :: u64
    by (rule bit_word_eqI) (auto simp: bit_simps)
  ultimately show ?thesis unfolding frame_addr_def by metis
qed

text \<open>
  What the paging code relies on: a frame handed out was not in use before and is in use
  afterwards, frames in use stay so, and NULL means that nothing was changed.
\<close>

locale frame_allocator =
  fixes alloc :: "'a \<Rightarrow> 'a \<times> u64"
    and used :: "'a \<Rightarrow> u64 set"
    and ok :: "'a \<Rightarrow> bool"
  assumes alloc_frame: "ok a \<Longrightarrow> alloc a = (a', f) \<Longrightarrow> f \<noteq> 0 \<Longrightarrow>
      f \<notin> used a \<and> f \<in> used a' \<and> used a \<subseteq> used a' \<and> frame_addr f \<and> ok a'"
    and alloc_null: "ok a \<Longrightarrow> alloc a = (a', 0) \<Longrightarrow> a' = a"
begin

fun take_frames :: "'a \<Rightarrow> nat \<Rightarrow> 'a \<times> u64 list" where
  "take_frames a 0 = (a, [])"
| "take_frames a (Suc n) =
     (let (a1, f) = alloc a in if f = 0 then (a1, []) else let (a2, fs) = take_frames a1 n in (a2, f # fs))"

lemma take_frames_fresh:
  "ok a \<Longrightarrow> take_frames a n = (a', fs) \<Longrightarrow>
     distinct fs \<and> set fs \<inter> used a = {} \<and> set fs \<subseteq> used a' \<and> used a \<subseteq> used a' \<and> ok a' \<and> (\<forall>f \<in> set fs. frame_addr f)"
proof (induction n arbitrary: a fs)
  case 0
  then show ?case by simp
next
  case (Suc n)
  obtain a1 f where al: "alloc a = (a1, f)" by fastforce
  show ?case
  proof (cases "f = 0")
    case True
    with Suc.prems al alloc_null [of a a1] show ?thesis by simp
  next
    case False
    obtain fs' where t: "take_frames a1 n = (a', fs')" "fs = f # fs'"
      using Suc.prems(2) al False by (auto split: prod.splits)
    note l = alloc_frame [OF Suc.prems(1) al False]
    with Suc.IH [OF _ t(1)] t(2) show ?thesis by auto
  qed
qed

end

text \<open>The bitmap allocator satisfies it once page 0 is marked and the owner's id is not zero modulo 256.\<close>

definition frames_ok :: "PageFrameAllocator \<Rightarrow> bool" where
  "frames_ok al \<longleftrightarrow> unat (num_pages al) \<le> 2 ^ 40 \<and> bitmap al 0 \<noteq> 0"

definition alloc_for :: "u32 \<Rightarrow> PageFrameAllocator \<Rightarrow> PageFrameAllocator \<times> u64" where
  "alloc_for pid al = allocate_page al pid"

lemma allocate_page_frame:
  assumes ok: "frames_ok al" and pid: "(ucast pid :: byte) \<noteq> 0" and eq: "allocate_page al pid = (al', f)" and f: "f \<noteq> 0"
  shows "f \<notin> used_frames al \<and> f \<in> used_frames al' \<and> used_frames al \<subseteq> used_frames al' \<and> frame_addr f \<and> frames_ok al'"
proof -
  have n: "unat (num_pages al) \<le> 2 ^ 40" using ok by (simp add: frames_ok_def)
  from allocate_page_cases [OF n, of pid] eq f obtain k where
    k: "k \<in> free_pages al" "al' = set_bitmap al (of_nat k) (ucast pid)" "f = of_nat k * PAGE_SIZE" by auto
  then have lt: "k < 2 ^ 40" using n by (auto simp: free_pages_def)
  have "frame_addr f" using frame_addr_page [OF lt] k(3) by simp
  moreover have "f div PAGE_SIZE = of_nat k" using page_number(2) [OF lt] k(3) by simp
  ultimately show ?thesis
    using k(1,2) ok pid by (auto simp: used_frames_def free_pages_def set_bitmap_def frames_ok_def)
qed

lemma allocate_page_null:
  assumes ok: "frames_ok al" and eq: "allocate_page al pid = (al', 0)"
  shows "al' = al \<and> free_pages al = {}"
proof -
  have n: "unat (num_pages al) \<le> 2 ^ 40" using ok by (simp add: frames_ok_def)
  show ?thesis
  proof (rule allocate_page_cases [OF n, of pid])
    fix k assume k: "k \<in> free_pages al" "allocate_page al pid = (set_bitmap al (of_nat k) (ucast pid), of_nat k * PAGE_SIZE)"
    then have "k < 2 ^ 40" using n by (auto simp: free_pages_def)
    from page_number(1) [OF this] k eq have "k = 0" by auto
    with k ok show ?thesis by (simp add: free_pages_def frames_ok_def)
  qed (use eq in simp)
qed

interpretation kernel_frames: frame_allocator "alloc_for pid" used_frames
  "\<lambda>al. frames_ok al \<and> (ucast pid :: byte) \<noteq> 0" for pid
  by unfold_locales (auto simp: alloc_for_def dest: allocate_page_frame allocate_page_null)

section \<open>Correctness of the frame allocator\<close>

text \<open>
  C8. \<open>allocate_page\<close> hands out the lowest free page and marks it with the owner's id, and
  returns NULL, changing nothing, exactly when no page is free.
\<close>

theorem allocate_page_first_fit:
  assumes "frames_ok al" "(ucast pid :: byte) \<noteq> 0"
  shows "case allocate_page al pid of (al', p) \<Rightarrow>
    if free_pages al = {} then p = 0 \<and> al' = al
    else p = of_nat (Min (free_pages al)) * PAGE_SIZE \<and> p \<noteq> 0 \<and> frame_addr p \<and>
      bitmap al' = (bitmap al)(p div PAGE_SIZE := ucast pid) \<and> free_pages al' = free_pages al - {Min (free_pages al)}"
proof -
  have n: "unat (num_pages al) \<le> 2 ^ 40" and b0: "bitmap al 0 \<noteq> 0" using assms(1) by (auto simp: frames_ok_def)
  show ?thesis
  proof (rule allocate_page_cases [OF n, of pid])
    assume "free_pages al = {}" "allocate_page al pid = (al, 0)"
    then show ?thesis by simp
  next
    fix k
    assume k: "k \<in> free_pages al" "\<forall>j < k. j \<notin> free_pages al"
      "allocate_page al pid = (set_bitmap al (of_nat k) (ucast pid), of_nat k * PAGE_SIZE)"
    have m: "Min (free_pages al) = k" using k(1,2) by (intro Min_eqI) (auto simp: not_less [symmetric])
    have lt: "k < 2 ^ 40" using k(1) n by (auto simp: free_pages_def)
    have "k \<noteq> 0" using k(1) b0 by (auto simp: free_pages_def intro: ccontr)
    then have "of_nat k * PAGE_SIZE \<noteq> 0" using page_number(1) [OF lt] by auto
    moreover have "free_pages (set_bitmap al (of_nat k) (ucast pid)) = free_pages al - {k}"
    proof -
      have "j = k" if "j < unat (num_pages al)" "(of_nat j :: u64) = of_nat k" for j
        using that lt n add_of_nat_inj [of j k "0 :: u64"] by auto
      then show ?thesis using assms(2) by (auto simp: free_pages_def set_bitmap_def)
    qed
    ultimately show ?thesis
      using k page_number(2) [OF lt] frame_addr_page [OF lt] by (auto simp: m set_bitmap_def)
  qed
qed

theorem allocate_page_first_fit_witness:
  "case allocate_page \<lparr>bitmap = (\<lambda>i. if i < 3 then 1 else 0), num_pages = 8, initialized = 1\<rparr> 1 of
     (al', p) \<Rightarrow> p = 0x3000 \<and> bitmap al' 3 = 1"
proof -
  let ?al = "\<lparr>bitmap = (\<lambda>i. if i < 3 then 1 else 0), num_pages = 8, initialized = 1\<rparr>"
  have "free_pages ?al = {3, 4, 5, 6, 7}"
    by (auto simp: free_pages_def word_less_nat_alt unat_of_nat take_bit_nat_eq_self) 
  moreover have "frames_ok ?al" by (simp add: frames_ok_def)
  ultimately show ?thesis using allocate_page_first_fit [of ?al 1] by (auto split: prod.splits)
qed

text \<open>
  \<open>deallocate_page\<close> does not free the page it is given: it clears a bit of the byte of page
  \<open>n / 64\<close>, so the byte of every page but page 0 keeps its value.
\<close>

lemma deallocate_page_misses:
  assumes "PAGE_SIZE \<le> page"
  shows "bitmap (deallocate_page al page) (page div PAGE_SIZE) = bitmap al (page div PAGE_SIZE)"
proof -
  have "0 < unat (page div PAGE_SIZE)"
    using assms by (simp add: unat_div word_le_nat_alt div_greater_zero_iff)
  then have "unat (page div PAGE_SIZE div 64) < unat (page div PAGE_SIZE)"
    by (subst unat_div) simp
  then have "page div PAGE_SIZE div 64 \<noteq> page div PAGE_SIZE" by auto
  then show ?thesis by (simp add: deallocate_page_def set_bitmap_def Let_def)
qed

lemma deallocate_page_misses_witness:
  "let al = \<lparr>bitmap = (\<lambda>i. 1), num_pages = 8, initialized = 1\<rparr> in bitmap (deallocate_page al 0x5000) 5 = 1"
  using deallocate_page_misses [of "0x5000" "\<lparr>bitmap = (\<lambda>i. 1), num_pages = 8, initialized = 1\<rparr>"] by simp

end
