(* ===== verification/Paging.thy ===== *)
theory Paging
  imports MmuFrames "HOL-Library.Monad_Syntax"
begin

text \<open>
  \<open>kernel/arch/x86_64/mmu/page.c\<close> and the range functions of \<open>pframe.c\<close>: four-level page
  tables edited through the recursive PML4 entry.  Physical memory is seen as the 512 entries
  of each 4 KiB frame.  Every access the code makes to a table goes through the walk the
  hardware does from CR3, so that the recursive addresses are checked and not assumed; an
  access to an unmapped address is \<open>None\<close>.  Translations are not cached (the code invalidates
  the entries it changes), and entries have 4 KiB granularity: the code never sets the
  page-size bit.
\<close>

section \<open>The hardware\<close>

definition present :: "u64 \<Rightarrow> bool" where
  "present e \<longleftrightarrow> e AND 1 \<noteq> 0"

definition frame :: "u64 \<Rightarrow> u64" where
  "frame e = e AND 0x000FFFFFFFFFF000"

definition child :: "(u64 \<Rightarrow> nat \<Rightarrow> u64) \<Rightarrow> u64 \<Rightarrow> nat \<Rightarrow> u64 option" where
  "child pm f i = (if present (pm f i) then Some (frame (pm f i)) else None)"

text \<open>The frame reached from the table \<open>f\<close> through the entries of a path.\<close>

fun tbl :: "(u64 \<Rightarrow> nat \<Rightarrow> u64) \<Rightarrow> u64 \<Rightarrow> nat list \<Rightarrow> u64 option" where
  "tbl pm f [] = Some f"
| "tbl pm f (i # is) = (case child pm f i of None \<Rightarrow> None | Some g \<Rightarrow> tbl pm g is)"

definition pml4_index :: "u64 \<Rightarrow> u64" where "pml4_index va = drop_bit 39 va AND 0x1FF"
definition pdpt_index :: "u64 \<Rightarrow> u64" where "pdpt_index va = drop_bit 30 va AND 0x1FF"
definition pd_index :: "u64 \<Rightarrow> u64" where "pd_index va = drop_bit 21 va AND 0x1FF"
definition pt_index :: "u64 \<Rightarrow> u64" where "pt_index va = drop_bit 12 va AND 0x1FF"

definition path :: "u64 \<Rightarrow> nat list" where
  "path va = [unat (pml4_index va), unat (pdpt_index va), unat (pd_index va), unat (pt_index va)]"

record mmu =
  phys :: "u64 \<Rightarrow> nat \<Rightarrow> u64"
  cr3 :: u64
  allocator :: PageFrameAllocator
  interrupts_ready :: bool
  if_flag :: bool

definition walk :: "mmu \<Rightarrow> u64 \<Rightarrow> u64 option" where
  "walk s va = tbl (phys s) (frame (cr3 s)) (path va)"

text \<open>Reading and writing entry \<open>i\<close> of the table at the page-aligned virtual address \<open>va\<close>.\<close>

definition vread :: "mmu \<Rightarrow> u64 \<Rightarrow> u64 \<Rightarrow> u64 option" where
  "vread s va i = do { f \<leftarrow> walk s va; Some (phys s f (unat i)) }"

definition vwrite :: "mmu \<Rightarrow> u64 \<Rightarrow> u64 \<Rightarrow> u64 \<Rightarrow> mmu option" where
  "vwrite s va i v =
     do { f \<leftarrow> walk s va; Some (s\<lparr>phys := (phys s)(f := (phys s f)(unat i := v))\<rparr>) }"

text \<open>\<open>memset\<close> of a page to zero, entry by entry from entry \<open>i\<close> on.\<close>

fun vzero_from :: "mmu \<Rightarrow> u64 \<Rightarrow> nat \<Rightarrow> nat \<Rightarrow> mmu option" where
  "vzero_from s va i 0 = Some s"
| "vzero_from s va i (Suc n) = do { s \<leftarrow> vwrite s va (of_nat i) 0; vzero_from s va (i + 1) n }"

definition vzero_page :: "mmu \<Rightarrow> u64 \<Rightarrow> mmu option" where
  "vzero_page s va = vzero_from s va 0 512"

definition cli :: "mmu \<Rightarrow> mmu" where "cli s = s\<lparr>if_flag := False\<rparr>"
definition sti :: "mmu \<Rightarrow> mmu" where "sti s = (if interrupts_ready s then s\<lparr>if_flag := True\<rparr> else s)"

definition set_pml4_address :: "mmu \<Rightarrow> u64 \<Rightarrow> mmu" where "set_pml4_address s pml4 = s\<lparr>cr3 := pml4\<rparr>"
definition get_pml4_address :: "mmu \<Rightarrow> u64" where "get_pml4_address s = cr3 s"
definition flush_tlb :: "mmu \<Rightarrow> mmu" where "flush_tlb s = set_pml4_address s (get_pml4_address s)"

section \<open>page.c\<close>

definition PML4_RECURSIVE_ENTRY_NUM :: u16 where "PML4_RECURSIVE_ENTRY_NUM = 511"
definition PAGE_MAP_FLAGS :: u64 where "PAGE_MAP_FLAGS = 1 OR 2 OR 4"

definition get_addr_from_table_indexes :: "u16 \<Rightarrow> u16 \<Rightarrow> u16 \<Rightarrow> u16 \<Rightarrow> u64" where
  "get_addr_from_table_indexes i4 i3 i2 i1 =
     (let va = push_bit 39 (ucast (i4 AND 0x1FF)) OR push_bit 30 (ucast (i3 AND 0x1FF)) OR
               push_bit 21 (ucast (i2 AND 0x1FF)) OR push_bit 12 (ucast (i1 AND 0x1FF))
      in if va AND push_bit 47 1 \<noteq> 0 then va OR 0xFFFF000000000000 else va)"

definition init_recursive_paging :: "mmu \<Rightarrow> u64 \<Rightarrow> mmu option" where
  "init_recursive_paging s pml4 = vwrite s pml4 (ucast PML4_RECURSIVE_ENTRY_NUM) (pml4 OR PAGE_MAP_FLAGS)"

text \<open>
  The block \<open>map_page\<close> repeats for the three upper levels: entry \<open>i\<close> of the table at \<open>table\<close>
  is made to point to a cleared table that is then visible at \<open>sub\<close>.  The flag is
  \<open>False\<close> when the function returns early because no frame is left.
\<close>

definition ensure_table :: "mmu \<Rightarrow> u32 \<Rightarrow> u64 \<Rightarrow> u64 \<Rightarrow> u64 \<Rightarrow> (mmu \<times> bool) option" where
  "ensure_table s pid table i sub =
     do { e \<leftarrow> vread s table i;
          if e AND 1 = 0 then
            (let (al, page) = allocate_page (allocator s) pid; s = s\<lparr>allocator := al\<rparr> in
             if page = 0 then Some (s, False)
             else do { s \<leftarrow> vwrite s table i (page OR PAGE_MAP_FLAGS);
                       s \<leftarrow> vzero_page s sub;
                       Some (s, True) })
          else Some (s, True) }"

definition map_page :: "mmu \<Rightarrow> u32 \<Rightarrow> u64 \<Rightarrow> u64 \<Rightarrow> u64 \<Rightarrow> mmu option" where
  "map_page s pid virtual_address physical_address flags =
     (let s = cli (s\<lparr>interrupts_ready := False\<rparr>);
          i4 = pml4_index virtual_address; i3 = pdpt_index virtual_address;
          i2 = pd_index virtual_address; i1 = pt_index virtual_address;
          R = PML4_RECURSIVE_ENTRY_NUM;
          pml4_recursive = get_addr_from_table_indexes R R R R;
          pdpt_recursive = get_addr_from_table_indexes R R R (ucast i4);
          pd_recursive = get_addr_from_table_indexes R R (ucast i4) (ucast i3);
          pt_recursive = get_addr_from_table_indexes R (ucast i4) (ucast i3) (ucast i2)
      in do { (s, k) \<leftarrow> ensure_table s pid pml4_recursive i4 pdpt_recursive;
              if \<not> k then Some s else do {
              (s, k) \<leftarrow> ensure_table s pid pdpt_recursive i3 pd_recursive;
              if \<not> k then Some s else do {
              (s, k) \<leftarrow> ensure_table s pid pd_recursive i2 pt_recursive;
              if \<not> k then Some s else do {
              s \<leftarrow> vwrite s pt_recursive i1 (physical_address OR flags);
              Some (sti (s\<lparr>interrupts_ready := True\<rparr>)) }}}})"

definition unmap_page :: "mmu \<Rightarrow> u64 \<Rightarrow> mmu option" where
  "unmap_page s virtual_address =
     (let s = cli (s\<lparr>interrupts_ready := False\<rparr>);
          i4 = pml4_index virtual_address; i3 = pdpt_index virtual_address;
          i2 = pd_index virtual_address; i1 = pt_index virtual_address;
          R = PML4_RECURSIVE_ENTRY_NUM;
          pml4_recursive = get_addr_from_table_indexes R R R R;
          pdpt_recursive = get_addr_from_table_indexes R R R (ucast i4);
          pd_recursive = get_addr_from_table_indexes R R (ucast i4) (ucast i3);
          pt_recursive = get_addr_from_table_indexes R (ucast i4) (ucast i3) (ucast i2)
      in do { e4 \<leftarrow> vread s pml4_recursive i4;
              if e4 AND 1 = 0 then Some s else do {
              e3 \<leftarrow> vread s pdpt_recursive i3;
              if e3 AND 1 = 0 then Some s else do {
              e2 \<leftarrow> vread s pd_recursive i2;
              if e2 AND 1 = 0 then Some s else do {
              e1 \<leftarrow> vread s pt_recursive i1;
              if e1 AND 1 = 0 then Some s else do {
              s \<leftarrow> vwrite s pt_recursive i1 0;
              Some (sti (s\<lparr>interrupts_ready := True\<rparr>)) }}}}})"

text \<open>
  \<open>is_page_mapped\<close> follows the physical addresses of the tables as pointers, so it reads them
  where they are mapped one to one.  \<open>- 1\<close> is its answer for an unmapped page.
\<close>

definition is_page_mapped :: "mmu \<Rightarrow> u64 \<Rightarrow> u64 \<Rightarrow> u64 option" where
  "is_page_mapped s pml4 virtual_address =
     do { e4 \<leftarrow> vread s pml4 (pml4_index virtual_address);
          if e4 AND 1 = 0 then Some (- 1) else do {
          e3 \<leftarrow> vread s (e4 AND NOT 0xFFF) (pdpt_index virtual_address);
          if e3 AND 1 = 0 then Some (- 1) else do {
          e2 \<leftarrow> vread s (e3 AND NOT 0xFFF) (pd_index virtual_address);
          if e2 AND 1 = 0 then Some (- 1) else do {
          e1 \<leftarrow> vread s (e2 AND NOT 0xFFF) (pt_index virtual_address);
          if e1 AND 1 = 0 then Some (- 1) else Some e1 }}}}"

section \<open>pframe.c: ranges\<close>

text \<open>One entry per page from \<open>start\<close> (included) to \<open>end\<close> (excluded): \<open>n\<close> pages.\<close>

fun map_pages :: "mmu \<Rightarrow> u32 \<Rightarrow> u64 \<Rightarrow> u64 \<Rightarrow> u64 \<Rightarrow> bool \<Rightarrow> nat \<Rightarrow> mmu option" where
  "map_pages s pid addr pa flags sia 0 = Some s"
| "map_pages s pid addr pa flags sia (Suc n) =
     do { s \<leftarrow> map_page s pid addr pa flags;
          let s = (if sia then s\<lparr>allocator := set_bitmap (allocator s) (addr div PAGE_SIZE) (ucast pid)\<rparr> else s);
          map_pages s pid (addr + PAGE_SIZE) (pa + PAGE_SIZE) flags sia n }"

fun unmap_pages :: "mmu \<Rightarrow> u64 \<Rightarrow> bool \<Rightarrow> nat \<Rightarrow> mmu option" where
  "unmap_pages s addr sia 0 = Some s"
| "unmap_pages s addr sia (Suc n) =
     do { s \<leftarrow> unmap_page s addr;
          let s = (if sia then s\<lparr>allocator := set_bitmap (allocator s) (addr div PAGE_SIZE) 0\<rparr> else s);
          unmap_pages s (addr + PAGE_SIZE) sia n }"

text \<open>The loop runs while \<open>addr < end\<close>, both page aligned.\<close>

definition page_count :: "u64 \<Rightarrow> u64 \<Rightarrow> nat" where
  "page_count start e = (if start < e then unat (e - start) div 4096 else 0)"

definition map_memory_range_with_flags :: "mmu \<Rightarrow> u32 \<Rightarrow> u64 \<Rightarrow> u64 \<Rightarrow> u64 \<Rightarrow> u64 \<Rightarrow> bool \<Rightarrow> mmu option" where
  "map_memory_range_with_flags s pid start_addr end_addr physical_addr flags set_in_allocator =
     (let start = aalign_down start_addr PAGE_SIZE; e = aalign end_addr PAGE_SIZE;
          pa = aalign_down physical_addr PAGE_SIZE
      in map_pages s pid start pa flags set_in_allocator (page_count start e))"

definition map_memory_range :: "mmu \<Rightarrow> u32 \<Rightarrow> u64 \<Rightarrow> u64 \<Rightarrow> u64 \<Rightarrow> mmu option" where
  "map_memory_range s pid start_addr end_addr physical_addr =
     map_memory_range_with_flags s pid start_addr end_addr physical_addr PAGE_MAP_FLAGS True"

definition unmap_memory_range :: "mmu \<Rightarrow> u64 \<Rightarrow> u64 \<Rightarrow> bool \<Rightarrow> mmu option" where
  "unmap_memory_range s start_addr end_addr set_in_allocator =
     (let start = aalign_down start_addr PAGE_SIZE; e = aalign end_addr PAGE_SIZE
      in unmap_pages s start set_in_allocator (page_count start e))"

definition set_pages :: "mmu \<Rightarrow> u64 \<Rightarrow> byte \<Rightarrow> mmu" where
  "set_pages s i v = s\<lparr>allocator := set_bitmap (allocator s) i v\<rparr>"

text \<open>
  \<open>allocate_and_zero_page\<close> clears the new page at the virtual address equal to its physical one.
\<close>

definition allocate_and_zero_page :: "mmu \<Rightarrow> u32 \<Rightarrow> (mmu \<times> u64) option" where
  "allocate_and_zero_page s pid =
     (let (al, page) = allocate_page (allocator s) pid; s = s\<lparr>allocator := al\<rparr>
      in if page \<noteq> 0 then do { s \<leftarrow> vzero_page s page; Some (s, page) } else Some (s, page))"

section \<open>Bringing up the kernel address space\<close>

abbreviation MB :: u64 where "MB \<equiv> 1024 * 1024"
definition KERNEL_LOAD_ADDR :: u64 where "KERNEL_LOAD_ADDR = 0x10000"
definition KERNEL_VBASE :: u64 where "KERNEL_VBASE = 0x810000"
definition PML4_BOOT :: u64 where "PML4_BOOT = 0x80000"
definition PML4_KERNEL :: u64 where "PML4_KERNEL = 0xd00000"

text \<open>\<open>pml4 + PAGE_SIZE - 1\<close> is arithmetic on a pointer to 64-bit entries.\<close>

definition switch_context :: "mmu \<Rightarrow> u32 \<Rightarrow> u64 \<Rightarrow> mmu option" where
  "switch_context s pid pml4 =
     (let s = cli s;
          bm = put_bytes (bitmap (allocator s)) 0 (replicate (unat (UPPER_DIVIDE PAGE_FRAME_ALLOCATOR_END PAGE_SIZE)) 1);
          s = s\<lparr>allocator := (allocator s)\<lparr>bitmap := bm\<rparr>\<rparr>
      in do { s \<leftarrow> map_memory_range s pid 0 (3 * MB - 1) 0;
              s \<leftarrow> map_memory_range s pid (KERNEL_VBASE - KERNEL_LOAD_ADDR) (PAGE_FRAME_ALLOCATOR_END - 1)
                     (KERNEL_VBASE - KERNEL_LOAD_ADDR);
              s \<leftarrow> map_memory_range s pid pml4 (pml4 + 8 * (PAGE_SIZE - 1)) pml4;
              Some (sti (set_pml4_address (cli s) pml4)) })"

definition init_kernel_paging :: "mmu \<Rightarrow> u32 \<Rightarrow> u64 \<Rightarrow> mmu option" where
  "init_kernel_paging s kpid memory_size_pages =
     (let s = s\<lparr>allocator := init_page_frame_allocator (allocator s) memory_size_pages\<rparr>;
          s = cli s;
          s = set_pages s (PML4_BOOT div PAGE_SIZE) 1;
          s = set_pages s ((PML4_BOOT + 8 * PAGE_SIZE) div PAGE_SIZE) 1
      in do { s \<leftarrow> vzero_page s PML4_KERNEL;
              s \<leftarrow> vwrite s PML4_BOOT (ucast PML4_RECURSIVE_ENTRY_NUM) (PML4_KERNEL OR PAGE_MAP_FLAGS);
              s \<leftarrow> init_recursive_paging s PML4_KERNEL;
              s \<leftarrow> switch_context s kpid PML4_KERNEL;
              let s = cli s;
              let s = set_pages s (PML4_BOOT div PAGE_SIZE) 0;
              Some (set_pages s ((PML4_BOOT + 8 * PAGE_SIZE) div PAGE_SIZE) 0) })"

section \<open>hardwareMem.c\<close>

definition HARDWARE_MEM_START :: u64 where "HARDWARE_MEM_START = 0x20 * MB + 0x400 * PAGE_SIZE"

text \<open>The device memory area is a bump allocator over uncached pages; \<open>used\<close> is \<open>hardware_alloc_size\<close>.\<close>

definition hardware_allocate_mem :: "mmu \<Rightarrow> u32 \<Rightarrow> u64 \<Rightarrow> u64 \<Rightarrow> u64 \<Rightarrow> (mmu \<times> u64 \<times> u64) option" where
  "hardware_allocate_mem s kpid used sz alignment =
     (let addr = aalign (HARDWARE_MEM_START + used) alignment;
          used = addr + sz - HARDWARE_MEM_START + 1
      in do { s \<leftarrow> map_memory_range_with_flags s kpid addr (addr + sz - 1) addr (2 OR 1 OR 8) True;
              Some (flush_tlb s, used, addr) })"

section \<open>Table addresses\<close>

lemma and_511: "(x :: 'a::len word) AND 511 = take_bit 9 x"
  by (simp add: take_bit_eq_mask mask_eq_exp_minus_1)

lemma unat_index:
  "unat (pml4_index va) < 512" "unat (pdpt_index va) < 512" "unat (pd_index va) < 512" "unat (pt_index va) < 512"
proof -
  have "unat (take_bit 9 (x :: u64)) < 512" for x
    using take_bit_nat_less_exp [of 9 "unat x"] by (simp add: unsigned_take_bit_eq)
  then show "unat (pml4_index va) < 512" "unat (pdpt_index va) < 512" "unat (pd_index va) < 512" "unat (pt_index va) < 512"
    by (simp_all add: pml4_index_def pdpt_index_def pd_index_def pt_index_def and_511)
qed

lemma index_fields:
  fixes a b c d hi :: u64
  assumes "\<forall>n. bit hi n \<longrightarrow> 48 \<le> n"
  defines "va \<equiv> push_bit 39 (take_bit 9 a) OR push_bit 30 (take_bit 9 b) OR push_bit 21 (take_bit 9 c) OR push_bit 12 (take_bit 9 d)"
  shows "take_bit 9 (drop_bit 39 (va OR hi)) = take_bit 9 a" "take_bit 9 (drop_bit 30 (va OR hi)) = take_bit 9 b"
    "take_bit 9 (drop_bit 21 (va OR hi)) = take_bit 9 c" "take_bit 9 (drop_bit 12 (va OR hi)) = take_bit 9 d"
  unfolding va_def by (rule bit_word_eqI; use assms(1) in \<open>auto simp: bit_simps\<close>)+

lemma ucast_take_9: "(ucast (take_bit 9 (x :: u16)) :: u64) = take_bit 9 (ucast x)"
  by (rule bit_word_eqI) (auto simp: bit_simps)

lemma bit_high16: "\<forall>n. bit (0xFFFF000000000000 :: u64) n \<longrightarrow> 48 \<le> n"
proof -
  have *: "\<forall>n. bit (push_bit 48 (mask 16) :: u64) n \<longrightarrow> 48 \<le> n" by (simp add: bit_simps)
  have "(0xFFFF000000000000 :: u64) = push_bit 48 (mask 16)" by (simp add: mask_eq_exp_minus_1)
  then show ?thesis using * by metis
qed

lemma index_get_addr:
  "pml4_index (get_addr_from_table_indexes a b c d) = ucast (a AND 0x1FF)"
  "pdpt_index (get_addr_from_table_indexes a b c d) = ucast (b AND 0x1FF)"
  "pd_index (get_addr_from_table_indexes a b c d) = ucast (c AND 0x1FF)"
  "pt_index (get_addr_from_table_indexes a b c d) = ucast (d AND 0x1FF)"
proof -
  have z: "\<forall>n. bit (0 :: u64) n \<longrightarrow> 48 \<le> n" by simp
  note f = index_fields [where hi = "0xFFFF000000000000" and a = "ucast a" and b = "ucast b" and c = "ucast c" and d = "ucast d", OF bit_high16]
  note g = index_fields [where hi = "0" and a = "ucast a" and b = "ucast b" and c = "ucast c" and d = "ucast d", OF z]
  show "pml4_index (get_addr_from_table_indexes a b c d) = ucast (a AND 0x1FF)"
    "pdpt_index (get_addr_from_table_indexes a b c d) = ucast (b AND 0x1FF)"
    "pd_index (get_addr_from_table_indexes a b c d) = ucast (c AND 0x1FF)"
    "pt_index (get_addr_from_table_indexes a b c d) = ucast (d AND 0x1FF)"
    unfolding get_addr_from_table_indexes_def Let_def pml4_index_def pdpt_index_def pd_index_def pt_index_def
      and_511 ucast_take_9
    using f g by (simp_all only: or.right_neutral simp_thms split: if_split)
qed

lemma ucast_index [simp]:
  "(ucast (ucast (pml4_index va) AND (0x1FF :: u16)) :: u64) = pml4_index va"
  "(ucast (ucast (pdpt_index va) AND (0x1FF :: u16)) :: u64) = pdpt_index va"
  "(ucast (ucast (pd_index va) AND (0x1FF :: u16)) :: u64) = pd_index va"
proof -
  have "(ucast (take_bit 9 (ucast (take_bit 9 x) :: u16)) :: u64) = take_bit 9 (x :: u64)" for x
    by (rule bit_word_eqI) (auto simp: bit_simps)
  then show "(ucast (ucast (pml4_index va) AND (0x1FF :: u16)) :: u64) = pml4_index va"
    "(ucast (ucast (pdpt_index va) AND (0x1FF :: u16)) :: u64) = pdpt_index va"
    "(ucast (ucast (pd_index va) AND (0x1FF :: u16)) :: u64) = pd_index va"
    by (simp_all add: pml4_index_def pdpt_index_def pd_index_def and_511)
qed

lemma path_recursive:
  "path (get_addr_from_table_indexes PML4_RECURSIVE_ENTRY_NUM PML4_RECURSIVE_ENTRY_NUM
     PML4_RECURSIVE_ENTRY_NUM PML4_RECURSIVE_ENTRY_NUM) = [511, 511, 511, 511]"
  "path (get_addr_from_table_indexes PML4_RECURSIVE_ENTRY_NUM PML4_RECURSIVE_ENTRY_NUM
     PML4_RECURSIVE_ENTRY_NUM (ucast (pml4_index va))) = [511, 511, 511, unat (pml4_index va)]"
  "path (get_addr_from_table_indexes PML4_RECURSIVE_ENTRY_NUM PML4_RECURSIVE_ENTRY_NUM
     (ucast (pml4_index va)) (ucast (pdpt_index va))) = [511, 511, unat (pml4_index va), unat (pdpt_index va)]"
  "path (get_addr_from_table_indexes PML4_RECURSIVE_ENTRY_NUM
     (ucast (pml4_index va)) (ucast (pdpt_index va)) (ucast (pd_index va)))
     = [511, unat (pml4_index va), unat (pdpt_index va), unat (pd_index va)]"
  by (simp_all add: path_def index_get_addr PML4_RECURSIVE_ENTRY_NUM_def)

section \<open>Table trees\<close>

text \<open>The frames whose entries a walk along a path reads.\<close>

fun visited :: "(u64 \<Rightarrow> nat \<Rightarrow> u64) \<Rightarrow> u64 \<Rightarrow> nat list \<Rightarrow> u64 set" where
  "visited pm f [] = {}"
| "visited pm f (i # is) = insert f (case child pm f i of None \<Rightarrow> {} | Some g \<Rightarrow> visited pm g is)"

lemma tbl_append: "tbl pm f (p @ q) = (case tbl pm f p of None \<Rightarrow> None | Some g \<Rightarrow> tbl pm g q)"
  by (induction p arbitrary: f) (auto split: option.splits)

lemma tbl_cong: "(\<And>g. g \<in> visited pm f p \<Longrightarrow> pm' g = pm g) \<Longrightarrow> tbl pm' f p = tbl pm f p"
proof (induction p arbitrary: f)
  case Nil
  then show ?case by simp
next
  case (Cons i p)
  have "child pm' f i = child pm f i" using Cons.prems by (simp add: child_def)
  with Cons show ?case by (auto split: option.splits)
qed

lemma visited_prefix:
  "g \<in> visited pm f p \<Longrightarrow> \<exists>q i r. p = q @ i # r \<and> tbl pm f q = Some g"
proof (induction p arbitrary: f)
  case Nil
  then show ?case by simp
next
  case (Cons i p)
  show ?case
  proof (cases "g = f")
    case True
    then show ?thesis by (intro exI [of _ "[]"]) simp
  next
    case False
    with Cons.prems obtain h where h: "child pm f i = Some h" "g \<in> visited pm h p"
      by (auto split: option.splits)
    from Cons.IH [OF h(2)] obtain q j r where "p = q @ j # r" "tbl pm h q = Some g" by blast
    with h(1) show ?thesis by (intro exI [of _ "i # q"]) auto
  qed
qed

text \<open>Table paths: at most three indices, the first of which is not the recursive entry.\<close>

definition table_path :: "nat list \<Rightarrow> bool" where
  "table_path p \<longleftrightarrow> length p \<le> 3 \<and> (p \<noteq> [] \<longrightarrow> hd p \<noteq> 511) \<and> (\<forall>i \<in> set p. i < 512)"

text \<open>
  The tables below \<open>r\<close> form a tree inside the frames \<open>U\<close>: no frame is the table of two
  different paths, and the last entry of \<open>r\<close> points back to \<open>r\<close>.
\<close>

definition table_tree :: "(u64 \<Rightarrow> nat \<Rightarrow> u64) \<Rightarrow> u64 \<Rightarrow> u64 set \<Rightarrow> bool" where
  "table_tree pm r U \<longleftrightarrow>
     child pm r 511 = Some r \<and>
     (\<forall>p f. table_path p \<longrightarrow> tbl pm r p = Some f \<longrightarrow> f \<in> U) \<and>
     (\<forall>p q f. table_path p \<longrightarrow> table_path q \<longrightarrow> tbl pm r p = Some f \<longrightarrow> tbl pm r q = Some f \<longrightarrow> p = q)"

lemma table_tree_U: "table_tree pm r U \<Longrightarrow> table_path p \<Longrightarrow> tbl pm r p = Some f \<Longrightarrow> f \<in> U"
  by (auto simp: table_tree_def)

lemma table_tree_inj:
  "table_tree pm r U \<Longrightarrow> table_path p \<Longrightarrow> table_path q \<Longrightarrow> tbl pm r p = Some f \<Longrightarrow> tbl pm r q = Some f \<Longrightarrow> p = q"
  unfolding table_tree_def by blast

lemma table_tree_mono: "table_tree pm r U \<Longrightarrow> U \<subseteq> V \<Longrightarrow> table_tree pm r V"
  unfolding table_tree_def by blast

lemma table_path_prefix: "table_path (p @ q) \<Longrightarrow> table_path p"
  by (cases p) (auto simp: table_path_def)

lemma tbl_recursive: "child pm r 511 = Some r \<Longrightarrow> tbl pm r (511 # p) = tbl pm r p"
  by simp

section \<open>Adding a table and writing a leaf\<close>

lemma frame_flags: "frame_addr f \<Longrightarrow> frame (f OR PAGE_MAP_FLAGS) = f \<and> present (f OR PAGE_MAP_FLAGS)"
proof -
  assume f: "frame_addr f"
  have "(f OR 7) AND 0x000FFFFFFFFFF000 = (f AND 0x000FFFFFFFFFF000) OR (7 AND 0x000FFFFFFFFFF000)"
    by (simp only: word_ao_dist)
  then have "frame (f OR 7) = f" using f by (simp add: frame_def frame_addr_def)
  moreover have "(f OR 7) AND 1 \<noteq> 0"
  proof -
    have "bit ((f OR 7) AND 1) 0" by (simp add: bit_simps)
    then show ?thesis by (metis bit_0_eq bot_apply bot_bool_def)
  qed
  ultimately show ?thesis by (simp add: present_def PAGE_MAP_FLAGS_def)
qed

definition add_table :: "(u64 \<Rightarrow> nat \<Rightarrow> u64) \<Rightarrow> u64 \<Rightarrow> nat \<Rightarrow> u64 \<Rightarrow> (u64 \<Rightarrow> nat \<Rightarrow> u64)" where
  "add_table pm f i n = (\<lambda>g j. if g = n then (if j < 512 then 0 else pm g j)
                               else if g = f \<and> j = i then n OR PAGE_MAP_FLAGS else pm g j)"

lemma child_add_table:
  assumes "n \<noteq> f" "frame_addr n"
  shows "child (add_table pm f i n) g j =
    (if g = n \<and> j < 512 then None else if g = f \<and> j = i then Some n else child pm g j)"
  using assms frame_flags [of n] by (auto simp: child_def add_table_def present_def)

text \<open>
  After adding the empty table \<open>n\<close> at entry \<open>i\<close> of \<open>f\<close>, the walks of the tree are the old
  ones and the one that ends in \<open>n\<close>.
\<close>

lemma tbl_add_table:
  assumes t: "table_tree pm r U" and p: "table_path p" "length p < 3" "tbl pm r p = Some f"
    and e: "child pm f i = None" and n: "n \<notin> U" "frame_addr n"
    and q: "length q \<le> 4" "q \<noteq> [] \<longrightarrow> hd q \<noteq> 511" "\<forall>j \<in> set q. j < 512"
  shows "tbl (add_table pm f i n) r q = (if q = p @ [i] then Some n else tbl pm r q)"
  using q
proof (induction q rule: rev_induct)
  case Nil
  then show ?case by simp
next
  case (snoc j q)
  let ?pm = "add_table pm f i n"
  have nf: "n \<noteq> f" using table_tree_U [OF t p(1,3)] n(1) by auto
  have q: "table_path q" "q \<noteq> [] \<longrightarrow> hd q \<noteq> 511" "\<forall>j \<in> set q. j < 512" "j < 512" "length q \<le> 4"
    using snoc.prems by (cases q; auto simp: table_path_def)+
  have IH: "tbl ?pm r q = (if q = p @ [i] then Some n else tbl pm r q)" using snoc.IH q by blast
  have none: "tbl pm r (p @ [i]) = None" using p(3) e by (simp add: tbl_append)
  show ?case
  proof (cases "q = p @ [i]")
    case True
    then have "tbl ?pm r q = Some n" using IH by simp
    then have "tbl ?pm r (q @ [j]) = None"
      unfolding tbl_append using child_add_table [OF nf n(2), of pm i n j] q(4) by simp
    moreover have "tbl pm r (q @ [j]) = None" using none unfolding True [symmetric] by (simp add: tbl_append)
    ultimately show ?thesis using True by simp
  next
    case False
    show ?thesis
    proof (cases "tbl pm r q")
      case None
      then have "q \<noteq> p" using p(3) by auto
      with None False IH show ?thesis by (simp add: tbl_append)
    next
      case (Some g)
      then have "g \<noteq> n" using table_tree_U [OF t q(1)] n(1) by auto
      moreover have "g = f \<longleftrightarrow> q = p" using table_tree_inj [OF t q(1) p(1) Some] p(3) Some by auto
      ultimately show ?thesis
        using False IH Some child_add_table [OF nf n(2), of pm i g j] by (auto simp: tbl_append split: option.splits)
    qed
  qed
qed

lemma table_tree_add:
  assumes t: "table_tree pm r U" and p: "table_path p" "length p < 3" "tbl pm r p = Some f"
    and e: "child pm f i = None" and n: "n \<notin> U" "frame_addr n"
  shows "table_tree (add_table pm f i n) r (insert n U)"
proof -
  have tb: "tbl (add_table pm f i n) r q = (if q = p @ [i] then Some n else tbl pm r q)" if "table_path q" for q
    using tbl_add_table [OF t p e n, of q] that by (auto simp: table_path_def)
  have r: "child pm r 511 = Some r" using t by (simp add: table_tree_def)
  have nf: "n \<noteq> f" using table_tree_U [OF t p(1,3)] n(1) by auto
  have nr: "n \<noteq> r" using table_tree_U [OF t, of "[]" r] n(1) by (auto simp: table_path_def)
  have "child (add_table pm f i n) r 511 = Some r"
    using child_add_table [OF nf n(2), of pm i r 511] nr r e by auto
  moreover have "g \<in> insert n U" if "table_path q" "tbl (add_table pm f i n) r q = Some g" for q g
    using that tb table_tree_U [OF t that(1)] by (auto split: if_splits)
  moreover have "q = q'" if "table_path q" "table_path q'"
      "tbl (add_table pm f i n) r q = Some g" "tbl (add_table pm f i n) r q' = Some g" for q q' g
    using that tb [of q] tb [of q'] table_tree_inj [OF t that(1,2)] table_tree_U [OF t that(1)]
      table_tree_U [OF t that(2)] n(1) by (auto split: if_splits)
  ultimately show ?thesis unfolding table_tree_def by blast
qed

definition set_entry :: "(u64 \<Rightarrow> nat \<Rightarrow> u64) \<Rightarrow> u64 \<Rightarrow> nat \<Rightarrow> u64 \<Rightarrow> (u64 \<Rightarrow> nat \<Rightarrow> u64)" where
  "set_entry pm f i v = pm(f := (pm f)(i := v))"

lemma child_set_entry:
  "child (set_entry pm f i v) g j =
     (if g = f \<and> j = i then (if present v then Some (frame v) else None) else child pm g j)"
  by (simp add: child_def set_entry_def)

lemma tbl_set_leaf:
  assumes t: "table_tree pm r U" and p: "table_path p" "length p = 3" "tbl pm r p = Some f"
    and q: "length q \<le> 4" "q \<noteq> [] \<longrightarrow> hd q \<noteq> 511" "\<forall>j \<in> set q. j < 512"
  shows "tbl (set_entry pm f i v) r q =
    (if q = p @ [i] then (if present v then Some (frame v) else None) else tbl pm r q)"
  using q
proof (induction q rule: rev_induct)
  case Nil
  then show ?case by simp
next
  case (snoc j q)
  let ?pm = "set_entry pm f i v"
  have q: "table_path q" "q \<noteq> [] \<longrightarrow> hd q \<noteq> 511" "\<forall>j \<in> set q. j < 512" "length q \<le> 3"
    using snoc.prems by (cases q; auto simp: table_path_def)+
  have IH: "tbl ?pm r q = tbl pm r q" using snoc.IH q p(2) by auto
  show ?case
  proof (cases "tbl pm r q")
    case None
    then have "q \<noteq> p" using p(3) by auto
    with None IH show ?thesis by (simp add: tbl_append)
  next
    case (Some g)
    have "g = f \<longleftrightarrow> q = p" using table_tree_inj [OF t q(1) p(1) Some] p(3) Some by auto
    with IH Some show ?thesis by (simp add: tbl_append child_set_entry split: option.split)
  qed
qed

lemma table_tree_set_leaf:
  assumes t: "table_tree pm r U" and p: "table_path p" "length p = 3" "tbl pm r p = Some f"
  shows "table_tree (set_entry pm f i v) r U"
proof -
  have tb: "tbl (set_entry pm f i v) r q = tbl pm r q" if "table_path q" for q
    using tbl_set_leaf [OF t p, of q i v] that p(2) by (auto simp: table_path_def)
  have "r \<noteq> f" using table_tree_inj [OF t _ p(1), of "[]" r] p(2,3) by (auto simp: table_path_def)
  then have "child (set_entry pm f i v) r 511 = Some r"
    using t by (simp add: table_tree_def child_set_entry)
  with t tb show ?thesis unfolding table_tree_def by metis
qed

text \<open>Walks through the recursive entry from the loaded root.\<close>

definition loaded :: "mmu \<Rightarrow> u64 \<Rightarrow> bool" where
  "loaded s r \<longleftrightarrow> table_tree (phys s) r (used_frames (allocator s)) \<and>
     child (phys s) (frame (cr3 s)) 511 = Some r \<and>
     frame (cr3 s) \<in> used_frames (allocator s) \<and>
     (\<forall>p. table_path p \<and> tbl (phys s) r p = Some (frame (cr3 s)) \<longrightarrow> p = [])"

lemma loaded_tbl:
  assumes "loaded s r"
  shows "tbl (phys s) (frame (cr3 s)) (511 # p) = tbl (phys s) r p"
    "tbl (phys s) r (511 # p) = tbl (phys s) r p"
  using assms by (auto simp: loaded_def table_tree_def)

lemma loaded_U: "loaded s r \<Longrightarrow> table_path p \<Longrightarrow> tbl (phys s) r p = Some f \<Longrightarrow> f \<in> used_frames (allocator s)"
  unfolding loaded_def by (blast intro: table_tree_U)

lemma tbl_replicate_511:
  "child pm r 511 = Some r \<Longrightarrow> tbl pm r (replicate k 511 @ p) = tbl pm r p"
  by (induction k) auto

lemma walk_recursive:
  assumes "child (phys s) (frame (cr3 s)) 511 = Some r" "child (phys s) r 511 = Some r"
    and "path va = 511 # replicate k 511 @ p"
  shows "walk s va = tbl (phys s) r p"
  using assms tbl_replicate_511 [of "phys s" r k p] by (simp add: walk_def)

lemma visited_cong: "(\<And>g. g \<in> visited pm f p \<Longrightarrow> pm' g = pm g) \<Longrightarrow> visited pm' f p = visited pm f p"
proof (induction p arbitrary: f)
  case Nil
  then show ?case by simp
next
  case (Cons i p)
  have "child pm' f i = child pm f i" using Cons.prems by (simp add: child_def)
  with Cons show ?case by (auto split: option.splits)
qed

lemma vzero_from_eq:
  "walk s va = Some n \<Longrightarrow> n \<notin> visited (phys s) (frame (cr3 s)) (path va) \<Longrightarrow> i + k \<le> 512 \<Longrightarrow>
   vzero_from s va i k =
     Some (s\<lparr>phys := (phys s)(n := (\<lambda>j. if i \<le> j \<and> j < i + k then 0 else phys s n j))\<rparr>)"
proof (induction k arbitrary: s i)
  case 0
  have "(\<lambda>j. if i \<le> j \<and> j < i then 0 else phys s n j) = phys s n" by (auto simp: fun_eq_iff)
  then show ?case by simp
next
  case (Suc k)
  let ?s = "s\<lparr>phys := (phys s)(n := (phys s n)(i := 0))\<rparr>"
  have u: "unat (of_nat i :: u64) = i" using Suc.prems(3) by (simp add: unat_of_nat take_bit_nat_eq_self)
  have v: "visited (phys ?s) (frame (cr3 ?s)) (path va) = visited (phys s) (frame (cr3 s)) (path va)"
  proof -
    have "visited (phys ?s) (frame (cr3 s)) (path va) = visited (phys s) (frame (cr3 s)) (path va)"
      by (rule visited_cong) (use Suc.prems(2) in auto)
    then show ?thesis by simp
  qed
  have w: "walk ?s va = Some n"
  proof -
    have "tbl (phys ?s) (frame (cr3 s)) (path va) = tbl (phys s) (frame (cr3 s)) (path va)"
      by (rule tbl_cong) (use Suc.prems(2) in auto)
    then show ?thesis using Suc.prems(1) by (simp add: walk_def)
  qed
  have "(\<lambda>j. if Suc i \<le> j \<and> j < Suc i + k then 0 else ((phys s n)(i := 0)) j)
      = (\<lambda>j. if i \<le> j \<and> j < i + Suc k then 0 else phys s n j)" by (auto simp: fun_eq_iff)
  moreover have "vzero_from ?s va (Suc i) k
      = Some (?s\<lparr>phys := (phys ?s)(n := (\<lambda>j. if Suc i \<le> j \<and> j < Suc i + k then 0 else phys ?s n j))\<rparr>)"
  proof (rule Suc.IH [OF w])
    show "n \<notin> visited (phys ?s) (frame (cr3 ?s)) (path va)" unfolding v by (rule Suc.prems(2))
    show "Suc i + k \<le> 512" using Suc.prems(3) by simp
  qed
  ultimately show ?case using Suc.prems(1) u by (simp add: vwrite_def fun_upd_def cong: if_cong)
qed

text \<open>Writing an entry that is not on the way leaves the walk to its table alone.\<close>

lemma tbl_set_entry_prefix:
  assumes t: "table_tree pm r U" and p: "table_path p" "tbl pm r p = Some f"
  shows "p = q @ q' \<Longrightarrow> tbl (set_entry pm f i v) r q = tbl pm r q"
proof (induction q arbitrary: q' rule: rev_induct)
  case Nil
  then show ?case by simp
next
  case (snoc j q)
  have IH: "tbl (set_entry pm f i v) r q = tbl pm r q" using snoc.IH [of "j # q'"] snoc.prems by simp
  show ?case
  proof (cases "tbl pm r q")
    case None
    with IH show ?thesis by (simp add: tbl_append)
  next
    case (Some g)
    have "table_path q" using snoc.prems p(1) table_path_prefix [of q "j # q'"] by simp
    from table_tree_inj [OF t this p(1) Some] p(2) snoc.prems have "g \<noteq> f" by auto
    with IH Some show ?thesis by (simp add: tbl_append child_set_entry split: option.split)
  qed
qed

lemma visited_append:
  "visited pm f (p @ q) = visited pm f p \<union> (case tbl pm f p of None \<Rightarrow> {} | Some g \<Rightarrow> visited pm g q)"
  by (induction p arbitrary: f) (auto split: option.splits)

lemma visited_replicate_511:
  "child pm r 511 = Some r \<Longrightarrow> visited pm r (replicate k 511 @ p) \<subseteq> insert r (visited pm r p)"
  by (induction k) auto

section \<open>The recursive edits implement tree edits\<close>

lemma new_table:
  assumes ld: "loaded s r" and p: "table_path (p @ [i])" "tbl (phys s) r p = Some f"
    and e: "child (phys s) f i = None" and n: "n \<notin> used_frames (allocator s)" "frame_addr n"
    and sub: "path sub = 511 # replicate k 511 @ p @ [i]"
  shows "vzero_page (s\<lparr>allocator := al, phys := set_entry (phys s) f i (n OR PAGE_MAP_FLAGS)\<rparr>) sub
    = Some (s\<lparr>allocator := al, phys := add_table (phys s) f i n\<rparr>)"
proof -
  let ?U = "used_frames (allocator s)" and ?v = "n OR PAGE_MAP_FLAGS" and ?c = "frame (cr3 s)"
  let ?pm = "set_entry (phys s) f i ?v"
  have t: "table_tree (phys s) r ?U" and c: "child (phys s) ?c 511 = Some r" "?c \<in> ?U"
    using ld by (simp_all add: loaded_def)
  have tp: "table_path p" using p(1) by (rule table_path_prefix)
  have i511: "p = [] \<Longrightarrow> i \<noteq> 511" using p(1) by (auto simp: table_path_def)
  have fU: "f \<in> ?U" and rU: "r \<in> ?U" using loaded_U [OF ld] tp p(2) loaded_U [OF ld, of "[]" r]
    by (auto simp: table_path_def)
  have pf: "f = ?c \<Longrightarrow> p = []" using ld tp p(2) by (auto simp: loaded_def)
  have rr: "child (phys s) r 511 = Some r" using t by (simp add: table_tree_def)
  have fr: "f = r \<Longrightarrow> p = []" using table_tree_inj [OF t tp, of "[]" r] p(2) by (auto simp: table_path_def)
  have c': "child ?pm ?c 511 = Some r" "child ?pm r 511 = Some r"
    using c(1) rr pf fr i511 by (auto simp: child_set_entry)
  have tb: "tbl ?pm r p = Some f" using tbl_set_entry_prefix [OF t tp p(2), of p "[]"] p(2) by simp
  have ch: "child ?pm f i = Some n" using frame_flags [OF n(2)] by (simp add: child_set_entry)
  have w: "walk (s\<lparr>allocator := al, phys := ?pm\<rparr>) sub = Some n"
    using walk_recursive [of "s\<lparr>allocator := al, phys := ?pm\<rparr>" r sub k "p @ [i]"] c' sub tb ch by (simp add: tbl_append)
  have "visited ?pm r p \<subseteq> ?U"
  proof
    fix g assume "g \<in> visited ?pm r p"
    then obtain q j q' where q: "p = q @ j # q'" "tbl ?pm r q = Some g" using visited_prefix by blast
    then have "tbl (phys s) r q = Some g" using tbl_set_entry_prefix [OF t tp p(2) q(1)] by simp
    moreover have "table_path q" using tp q(1) table_path_prefix by blast
    ultimately show "g \<in> ?U" by (rule loaded_U [OF ld, rotated])
  qed
  then have "visited ?pm r (p @ [i]) \<subseteq> ?U" using tb fU ch by (auto simp: visited_append)
  then have "visited ?pm ?c (path sub) \<subseteq> ?U"
    using visited_replicate_511 [OF c'(2), of k "p @ [i]"] rU c(2) c'(1) sub by auto
  then have "n \<notin> visited ?pm ?c (path sub)" using n(1) by blast
  moreover have "?pm(n := (\<lambda>j. if j < 512 then 0 else ?pm n j)) = add_table (phys s) f i n"
    using fU n(1) by (auto simp: add_table_def set_entry_def fun_eq_iff)
  ultimately show ?thesis
    using vzero_from_eq [OF w, of 0 512] by (simp add: vzero_page_def cong: if_cong)
qed

lemma ensure_table_spec:
  assumes ld: "loaded s r" and ok: "frames_ok (allocator s)" "(ucast pid :: byte) \<noteq> 0"
    and p: "table_path (p @ [unat i])" "tbl (phys s) r p = Some f"
    and tab: "path table = 511 # replicate (Suc k) 511 @ p" and sub: "path sub = 511 # replicate k 511 @ p @ [unat i]"
  shows "\<exists>s' b. ensure_table s pid table i sub = Some (s', b) \<and>
    (if b then loaded s' r \<and> frames_ok (allocator s') \<and> (\<exists>g. tbl (phys s') r (p @ [unat i]) = Some g) \<and>
       (\<forall>q. length q = 4 \<and> hd q \<noteq> 511 \<and> (\<forall>j \<in> set q. j < 512) \<longrightarrow> tbl (phys s') r q = tbl (phys s) r q) \<and>
       (\<exists>pm al. s' = s\<lparr>phys := pm, allocator := al\<rparr>)
     else s' = s \<and> free_pages (allocator s) = {})"
proof -
  have t: "table_tree (phys s) r (used_frames (allocator s))" and c: "child (phys s) (frame (cr3 s)) 511 = Some r"
    using ld by (simp_all add: loaded_def)
  have rr: "child (phys s) r 511 = Some r" using t by (simp add: table_tree_def)
  have tp: "table_path p" "length p < 3" using p(1) table_path_prefix by (auto simp: table_path_def)
  have w: "walk s table = Some f" using walk_recursive [OF c rr tab] p(2) by simp
  show ?thesis
  proof (cases "child (phys s) f (unat i)")
    case (Some g)
    then have "phys s f (unat i) AND 1 \<noteq> 0" by (auto simp: child_def present_def split: if_splits)
    then have "ensure_table s pid table i sub = Some (s, True)"
      using w by (simp add: ensure_table_def vread_def)
    moreover have "\<exists>pm al. s = s\<lparr>phys := pm, allocator := al\<rparr>"
      by (intro exI [of _ "phys s"] exI [of _ "allocator s"]) simp
    moreover have "tbl (phys s) r (p @ [unat i]) = Some g" using Some p(2) by (simp add: tbl_append)
    ultimately show ?thesis using ld ok(1) by (intro exI [of _ s] exI [of _ True]) simp
  next
    case None
    then have np: "phys s f (unat i) AND 1 = 0" by (auto simp: child_def present_def split: if_splits)
    obtain al n where a: "allocate_page (allocator s) pid = (al, n)" by fastforce
    show ?thesis
    proof (cases "n = 0")
      case True
      then have "al = allocator s" "free_pages (allocator s) = {}"
        using allocate_page_null [OF ok(1)] a by auto
      then show ?thesis
        using w np a True by (intro exI [of _ s] exI [of _ False]) (simp add: ensure_table_def vread_def)
    next
      case False
      note fr = allocate_page_frame [OF ok a False]
      let ?pm = "add_table (phys s) f (unat i) n" let ?s' = "s\<lparr>allocator := al, phys := ?pm\<rparr>"
      have "vzero_page (s\<lparr>allocator := al, phys := set_entry (phys s) f (unat i) (n OR PAGE_MAP_FLAGS)\<rparr>) sub = Some ?s'"
        using fr by (intro new_table [OF ld p None _ _ sub]) auto
      then have en: "ensure_table s pid table i sub = Some (?s', True)"
        using w np a False by (simp add: ensure_table_def vread_def vwrite_def walk_def set_entry_def)
      have new: "tbl ?pm r q = (if q = p @ [unat i] then Some n else tbl (phys s) r q)"
        if "length q \<le> 4" "q \<noteq> [] \<longrightarrow> hd q \<noteq> 511" "\<forall>j \<in> set q. j < 512" for q
        using tbl_add_table [OF t tp p(2) None _ _ that, of n] fr by auto
      have "table_tree ?pm r (insert n (used_frames (allocator s)))"
        using table_tree_add [OF t tp p(2) None] fr by auto
      then have "table_tree ?pm r (used_frames al)" by (rule table_tree_mono) (use fr in auto)
      moreover have "child ?pm (frame (cr3 s)) 511 = Some r"
      proof -
        have "n \<noteq> f" "n \<noteq> frame (cr3 s)" using fr loaded_U [OF ld tp(1) p(2)] ld by (auto simp: loaded_def)
        moreover have "\<not> (frame (cr3 s) = f \<and> 511 = unat i)" using c None by auto
        ultimately show ?thesis using c fr child_add_table [of n f "phys s" "unat i" "frame (cr3 s)" 511] by auto
      qed
      moreover have "q = []" if "table_path q" "tbl ?pm r q = Some (frame (cr3 s))" for q
      proof -
        have "n \<noteq> frame (cr3 s)" using fr ld by (auto simp: loaded_def)
        then have "tbl (phys s) r q = Some (frame (cr3 s))"
          using that new [of q] by (auto simp: table_path_def split: if_splits)
        then show ?thesis using ld that(1) by (auto simp: loaded_def)
      qed
      ultimately have ld': "loaded ?s' r" using fr ld by (auto simp: loaded_def)
      have ex: "\<exists>g. tbl (phys ?s') r (p @ [unat i]) = Some g"
        using new [of "p @ [unat i]"] p(1) by (auto simp: table_path_def)
      have keep: "\<forall>q. length q = 4 \<and> hd q \<noteq> 511 \<and> (\<forall>j \<in> set q. j < 512) \<longrightarrow> tbl (phys ?s') r q = tbl (phys s) r q"
        using new tp(2) by (auto simp del: tbl.simps)
      have st: "\<exists>pm al'. ?s' = s\<lparr>phys := pm, allocator := al'\<rparr>"
        by (intro exI [of _ ?pm] exI [of _ al]) simp
      have "frames_ok (allocator ?s')" using fr by simp
      with ld' ex keep st en show ?thesis
        by (intro exI [of _ ?s'] exI [of _ True]) (simp only: if_True simp_thms)
    qed
  qed
qed

text \<open>A leaf path: the four indices of a page outside the recursive slot.\<close>

definition leaf_path :: "nat list \<Rightarrow> bool" where
  "leaf_path q \<longleftrightarrow> length q = 4 \<and> hd q \<noteq> 511 \<and> (\<forall>j \<in> set q. j < 512)"

lemma leaf_path_path: "unat (pml4_index va) \<noteq> 511 \<Longrightarrow> leaf_path (path va)"
  using unat_index [of va] by (simp add: leaf_path_def path_def)

lemma table_path_indices:
  assumes "unat (pml4_index va) \<noteq> 511"
  shows "table_path []" "table_path [unat (pml4_index va)]" "table_path [unat (pml4_index va), unat (pdpt_index va)]"
    "table_path [unat (pml4_index va), unat (pdpt_index va), unat (pd_index va)]"
  using assms unat_index [of va] by (auto simp: table_path_def)

lemma loaded_flags [simp]:
  "loaded (cli s) r = loaded s r" "loaded (sti s) r = loaded s r" "loaded (s\<lparr>interrupts_ready := b\<rparr>) r = loaded s r"
  "loaded (s\<lparr>if_flag := b\<rparr>) r = loaded s r"
  by (simp_all add: loaded_def cli_def sti_def)

text \<open>Storing a leaf entry through the recursive address of its table.\<close>

lemma store_leaf:
  assumes ld: "loaded s r" and p: "table_path p" "length p = 3" "tbl (phys s) r p = Some f"
    and sub: "path sub = 511 # p"
  shows "vwrite s sub i v = Some (s\<lparr>phys := set_entry (phys s) f (unat i) v\<rparr>)"
    "loaded (s\<lparr>phys := set_entry (phys s) f (unat i) v\<rparr>) r"
proof -
  have t: "table_tree (phys s) r (used_frames (allocator s))" and c: "child (phys s) (frame (cr3 s)) 511 = Some r"
    using ld by (simp_all add: loaded_def)
  have "walk s sub = Some f" using c p(3) sub by (simp add: walk_def)
  then show "vwrite s sub i v = Some (s\<lparr>phys := set_entry (phys s) f (unat i) v\<rparr>)"
    by (simp add: vwrite_def set_entry_def)
  have nf: "frame (cr3 s) \<noteq> f" using ld p by (auto simp: loaded_def)
  have tb: "tbl (set_entry (phys s) f (unat i) v) r q = tbl (phys s) r q" if "table_path q" for q
    using tbl_set_leaf [OF t p, of q "unat i" v] that p(2) by (auto simp: table_path_def)
  have "child (set_entry (phys s) f (unat i) v) (frame (cr3 s)) 511 = Some r"
    using c nf by (simp add: child_set_entry)
  then show "loaded (s\<lparr>phys := set_entry (phys s) f (unat i) v\<rparr>) r"
    using ld table_tree_set_leaf [OF t p] tb unfolding loaded_def by auto
qed

lemma ensure_chain:
  assumes ld: "loaded s r" and ok: "frames_ok (allocator s)" "(ucast pid :: byte) \<noteq> 0"
    and p: "table_path (p @ [unat i])" "tbl (phys s) r p = Some f"
    and tab: "path table = 511 # replicate (Suc k) 511 @ p" and sub: "path sub = 511 # replicate k 511 @ p @ [unat i]"
  obtains "ensure_table s pid table i sub = Some (s, False)" "free_pages (allocator s) = {}"
  | pm al g where "ensure_table s pid table i sub = Some (s\<lparr>phys := pm, allocator := al\<rparr>, True)"
      "loaded (s\<lparr>phys := pm, allocator := al\<rparr>) r" "frames_ok al" "tbl pm r (p @ [unat i]) = Some g"
      "\<forall>q. leaf_path q \<longrightarrow> tbl pm r q = tbl (phys s) r q"
proof -
  from ensure_table_spec [OF assms] obtain s' b where e: "ensure_table s pid table i sub = Some (s', b)"
    and r: "if b then loaded s' r \<and> frames_ok (allocator s') \<and> (\<exists>g. tbl (phys s') r (p @ [unat i]) = Some g) \<and>
       (\<forall>q. length q = 4 \<and> hd q \<noteq> 511 \<and> (\<forall>j \<in> set q. j < 512) \<longrightarrow> tbl (phys s') r q = tbl (phys s) r q) \<and>
       (\<exists>pm al. s' = s\<lparr>phys := pm, allocator := al\<rparr>)
     else s' = s \<and> free_pages (allocator s) = {}" by blast
  show thesis
  proof (cases b)
    case True
    with r obtain pm al g where "s' = s\<lparr>phys := pm, allocator := al\<rparr>" "tbl (phys s') r (p @ [unat i]) = Some g" by auto
    with True r e that(2) [where pm = pm and al = al and g = g] show ?thesis by (simp add: leaf_path_def)
  next
    case False
    with r e that(1) show ?thesis by simp
  qed
qed

lemma map_page_spec:
  assumes ld: "loaded s r" and ok: "frames_ok (allocator s)" "(ucast pid :: byte) \<noteq> 0"
    and va: "unat (pml4_index va) \<noteq> 511" and v: "present (pa OR flags)"
  shows "\<exists>s'. map_page s pid va pa flags = Some s' \<and> loaded s' r \<and> frames_ok (allocator s') \<and>
    (if if_flag s' then interrupts_ready s' \<and> tbl (phys s') r (path va) = Some (frame (pa OR flags)) \<and>
       (\<forall>q. leaf_path q \<and> q \<noteq> path va \<longrightarrow> tbl (phys s') r q = tbl (phys s) r q)
     else \<not> interrupts_ready s' \<and> free_pages (allocator s') = {} \<and>
       (\<forall>q. leaf_path q \<longrightarrow> tbl (phys s') r q = tbl (phys s) r q))"
proof -
  let ?s = "cli (s\<lparr>interrupts_ready := False\<rparr>)" and ?R = PML4_RECURSIVE_ENTRY_NUM
  let ?i4 = "pml4_index va" and ?i3 = "pdpt_index va" and ?i2 = "pd_index va" and ?i1 = "pt_index va"
  let ?A = "get_addr_from_table_indexes ?R ?R ?R ?R" and ?B = "get_addr_from_table_indexes ?R ?R ?R (ucast ?i4)"
  let ?C = "get_addr_from_table_indexes ?R ?R (ucast ?i4) (ucast ?i3)"
  let ?D = "get_addr_from_table_indexes ?R (ucast ?i4) (ucast ?i3) (ucast ?i2)"
  note tp = table_path_indices [OF va]
  note mp = map_page_def [of s pid va pa flags, unfolded Let_def]
  have s0: "loaded ?s r" "frames_ok (allocator ?s)" "phys ?s = phys s" "\<not> if_flag ?s" "\<not> interrupts_ready ?s"
    using ld ok by (simp_all add: cli_def loaded_def)
  have pA: "path ?A = 511 # replicate (Suc 2) 511 @ []" "path ?B = 511 # replicate 2 511 @ [] @ [unat ?i4]"
    "path ?B = 511 # replicate (Suc 1) 511 @ [unat ?i4]" "path ?C = 511 # replicate 1 511 @ [unat ?i4] @ [unat ?i3]"
    "path ?C = 511 # replicate (Suc 0) 511 @ [unat ?i4, unat ?i3]" "path ?D = 511 # replicate 0 511 @ [unat ?i4, unat ?i3] @ [unat ?i2]"
    by (simp_all add: path_recursive eval_nat_numeral)
  show ?thesis
  proof (rule ensure_chain [OF s0(1,2) ok(2), of "[]" ?i4 r ?A 2 ?B])
    assume "ensure_table ?s pid ?A ?i4 ?B = Some (?s, False)" "free_pages (allocator ?s) = {}"
    then show ?thesis using s0 mp by (intro exI [of _ ?s]) simp
  next
    fix pm1 al1 g1
    let ?s1 = "?s\<lparr>phys := pm1, allocator := al1\<rparr>"
    assume e1: "ensure_table ?s pid ?A ?i4 ?B = Some (?s1, True)" "loaded ?s1 r" "frames_ok al1"
      "tbl pm1 r ([] @ [unat ?i4]) = Some g1" "\<forall>q. leaf_path q \<longrightarrow> tbl pm1 r q = tbl (phys ?s) r q"
    show ?thesis
    proof (rule ensure_chain [OF e1(2) _ ok(2), of "[unat ?i4]" ?i3 g1 ?B 1 ?C])
      assume "ensure_table ?s1 pid ?B ?i3 ?C = Some (?s1, False)" "free_pages (allocator ?s1) = {}"
      then show ?thesis using e1 s0 mp by (intro exI [of _ ?s1]) simp
    next
      fix pm2 al2 g2
      let ?s2 = "?s1\<lparr>phys := pm2, allocator := al2\<rparr>"
      assume e2: "ensure_table ?s1 pid ?B ?i3 ?C = Some (?s2, True)" "loaded ?s2 r" "frames_ok al2"
        "tbl pm2 r ([unat ?i4] @ [unat ?i3]) = Some g2" "\<forall>q. leaf_path q \<longrightarrow> tbl pm2 r q = tbl (phys ?s1) r q"
      show ?thesis
      proof (rule ensure_chain [OF e2(2) _ ok(2), of "[unat ?i4, unat ?i3]" ?i2 g2 ?C 0 ?D])
        assume "ensure_table ?s2 pid ?C ?i2 ?D = Some (?s2, False)" "free_pages (allocator ?s2) = {}"
        then show ?thesis using e1 e2 s0 mp by (intro exI [of _ ?s2]) simp
      next
        fix pm3 al3 g3
        let ?s3 = "?s2\<lparr>phys := pm3, allocator := al3\<rparr>"
        assume e3: "ensure_table ?s2 pid ?C ?i2 ?D = Some (?s3, True)" "loaded ?s3 r" "frames_ok al3"
          "tbl pm3 r ([unat ?i4, unat ?i3] @ [unat ?i2]) = Some g3" "\<forall>q. leaf_path q \<longrightarrow> tbl pm3 r q = tbl (phys ?s2) r q"
        let ?s4 = "?s3\<lparr>phys := set_entry pm3 g3 (unat ?i1) (pa OR flags)\<rparr>"
        have "path ?D = 511 # [unat ?i4, unat ?i3, unat ?i2]" using pA(6) by simp
        from store_leaf [OF e3(2) tp(4) _ _ this, of g3 ?i1 "pa OR flags"] e3(4)
        have w: "vwrite ?s3 ?D ?i1 (pa OR flags) = Some ?s4" "loaded ?s4 r" by simp_all
        have t3: "table_tree pm3 r (used_frames al3)" using e3(2) by (simp add: loaded_def)
        have lf: "tbl (phys ?s4) r q = (if q = path va then Some (frame (pa OR flags)) else tbl (phys s) r q)"
          if "leaf_path q" for q
          using tbl_set_leaf [OF t3 tp(4) _ _, of g3 q "unat ?i1" "pa OR flags"] that e3(4,5) e2(5) e1(5) s0(3) v
          by (auto simp: leaf_path_def path_def)
        show ?thesis
          using mp e1(1) e2(1) e3(1,3) w lf leaf_path_path [OF va]
          by (intro exI [of _ "sti (?s4\<lparr>interrupts_ready := True\<rparr>)"]) (simp add: sti_def)
      qed (use e2 tp pA in simp_all)
    qed (use e1 tp pA in simp_all)
  qed (use tp pA in simp_all)
qed

lemma vread_recursive:
  assumes "loaded s r" "path va = 511 # replicate k 511 @ p"
  shows "vread s va i = (case tbl (phys s) r p of None \<Rightarrow> None | Some f \<Rightarrow> Some (phys s f (unat i)))"
  using assms walk_recursive [of s r va k p] by (auto simp: vread_def loaded_def table_tree_def split: option.splits)

lemma child_cases:
  "(pm f i AND 1 = 0 \<and> child pm f i = None) \<or> (pm f i AND 1 \<noteq> 0 \<and> child pm f i = Some (frame (pm f i)))"
  by (simp add: child_def present_def)

lemma unmap_page_spec:
  assumes ld: "loaded s r" and va: "unat (pml4_index va) \<noteq> 511"
  shows "\<exists>s'. unmap_page s va = Some s' \<and> loaded s' r \<and> allocator s' = allocator s \<and>
    tbl (phys s') r (path va) = None \<and>
    (\<forall>q. leaf_path q \<and> q \<noteq> path va \<longrightarrow> tbl (phys s') r q = tbl (phys s) r q) \<and>
    (if tbl (phys s) r (path va) = None then \<not> if_flag s' \<and> \<not> interrupts_ready s' \<and> phys s' = phys s
     else if_flag s' \<and> interrupts_ready s')"
proof -
  let ?s = "cli (s\<lparr>interrupts_ready := False\<rparr>)" and ?R = PML4_RECURSIVE_ENTRY_NUM
  let ?i4 = "pml4_index va" and ?i3 = "pdpt_index va" and ?i2 = "pd_index va" and ?i1 = "pt_index va"
  let ?A = "get_addr_from_table_indexes ?R ?R ?R ?R" and ?B = "get_addr_from_table_indexes ?R ?R ?R (ucast ?i4)"
  let ?C = "get_addr_from_table_indexes ?R ?R (ucast ?i4) (ucast ?i3)"
  let ?D = "get_addr_from_table_indexes ?R (ucast ?i4) (ucast ?i3) (ucast ?i2)"
  note tp = table_path_indices [OF va]
  note um = unmap_page_def [of s va, unfolded Let_def]
  have s0: "loaded ?s r" "phys ?s = phys s" "allocator ?s = allocator s" "\<not> if_flag ?s" "\<not> interrupts_ready ?s"
    using ld by (simp_all add: cli_def loaded_def)
  have pA: "path ?A = 511 # replicate 3 511 @ []" "path ?B = 511 # replicate 2 511 @ [unat ?i4]"
    "path ?C = 511 # replicate 1 511 @ [unat ?i4, unat ?i3]" "path ?D = 511 # replicate 0 511 @ [unat ?i4, unat ?i3, unat ?i2]"
    by (simp_all add: path_recursive eval_nat_numeral)
  note rd = vread_recursive [OF s0(1) pA(1), of ?i4] vread_recursive [OF s0(1) pA(2), of ?i3]
    vread_recursive [OF s0(1) pA(3), of ?i2] vread_recursive [OF s0(1) pA(4), of ?i1]
  show ?thesis
  proof (cases "tbl (phys s) r (path va)")
    case None
    then have "unmap_page s va = Some ?s"
      using um rd s0(2) child_cases [of "phys s" r "unat ?i4"]
      by (auto simp: path_def child_def present_def split: option.splits if_splits)
    then show ?thesis using s0 None by (intro exI [of _ ?s]) simp
  next
    case (Some f)
    then obtain g where g: "tbl (phys s) r [unat ?i4, unat ?i3, unat ?i2] = Some g" "child (phys s) g (unat ?i1) = Some f"
      by (auto simp: path_def split: option.splits)
    let ?s' = "?s\<lparr>phys := set_entry (phys s) g (unat ?i1) 0\<rparr>"
    have "path ?D = 511 # [unat ?i4, unat ?i3, unat ?i2]" using pA(4) by simp
    from store_leaf [OF s0(1) tp(4) _ _ this, of g ?i1 0] g(1) s0(2)
    have w: "vwrite ?s ?D ?i1 0 = Some ?s'" "loaded ?s' r" by simp_all
    have "unmap_page s va = Some (sti (?s'\<lparr>interrupts_ready := True\<rparr>))"
      using um rd s0(2) g w(1) by (auto simp: child_def present_def split: option.splits if_splits)
    moreover have "tbl (phys ?s') r q = (if q = path va then None else tbl (phys s) r q)" if "leaf_path q" for q
      using tbl_set_leaf [of "phys s" r "used_frames (allocator s)" _ g q "unat ?i1" 0, OF _ tp(4) _ g(1)] ld that
      by (auto simp: leaf_path_def path_def loaded_def present_def)
    ultimately show ?thesis
      using w(2) Some leaf_path_path [OF va] s0(3)
      by (intro exI [of _ "sti (?s'\<lparr>interrupts_ready := True\<rparr>)"]) (simp add: sti_def)
  qed
qed

section \<open>Correctness of the page tables\<close>

text \<open>A root table with only the recursive entry, as \<open>init_kernel_paging\<close> prepares it.\<close>

lemma empty_table_tree:
  assumes "frame_addr r" "r \<in> U" "pm r = (\<lambda>i. 0)(511 := r OR PAGE_MAP_FLAGS)"
  shows "table_tree pm r U"
proof -
  have c: "child pm r i = (if i = 511 then Some r else None)" for i
    using assms(3) frame_flags [OF assms(1)] by (simp add: child_def present_def)
  have "p = []" if "table_path p" "tbl pm r p = Some f" for p f
    using that by (cases p) (auto simp: table_path_def c)
  then show ?thesis using c assms(2) unfolding table_tree_def by (metis option.inject tbl.simps(1))
qed

text \<open>Mapping a range below 512 GB never faults and keeps the tables a tree.\<close>

lemma present_or: "present flags \<Longrightarrow> present (pa OR flags)"
  by (simp add: present_def bit_or_iff and_one_eq odd_iff_mod_2_eq_one [symmetric] bit_0 [symmetric])

lemma low_pml4_index: "unat va < 2 ^ 39 \<Longrightarrow> unat (pml4_index va) \<noteq> 511"
proof -
  assume "unat va < 2 ^ 39"
  then have "unat (drop_bit 39 va) = 0" by (simp only: drop_bit_eq_div) (simp add: unat_div)
  then have "drop_bit 39 va = 0" by (simp add: word_unat_eq_iff)
  then show ?thesis by (simp add: pml4_index_def)
qed

lemma loaded_mark_used:
  assumes "loaded s r" "v \<noteq> 0"
  shows "loaded (s\<lparr>allocator := set_bitmap (allocator s) i v\<rparr>) r"
proof -
  have "used_frames (allocator s) \<subseteq> used_frames (set_bitmap (allocator s) i v)"
    using assms(2) by (auto simp: used_frames_def set_bitmap_def)
  with assms(1) show ?thesis unfolding loaded_def by (auto intro: table_tree_mono)
qed

lemma map_pages_total:
  assumes "loaded s r" "frames_ok (allocator s)" "(ucast pid :: byte) \<noteq> 0" "present flags"
    "unat addr + 4096 * n \<le> 2 ^ 39"
  shows "\<exists>s'. map_pages s pid addr pa flags sia n = Some s' \<and> loaded s' r \<and> frames_ok (allocator s')"
  using assms
proof (induction n arbitrary: s addr pa)
  case 0
  then show ?case by simp
next
  case (Suc n)
  have "unat addr < 2 ^ 39" using Suc.prems(5) by simp
  from map_page_spec [OF Suc.prems(1-3) low_pml4_index [OF this] present_or [OF Suc.prems(4)]] obtain s1 where
    s1: "map_page s pid addr pa flags = Some s1" "loaded s1 r" "frames_ok (allocator s1)" by blast
  let ?s = "if sia then s1\<lparr>allocator := set_bitmap (allocator s1) (addr div PAGE_SIZE) (ucast pid)\<rparr> else s1"
  have l: "loaded ?s r" using loaded_mark_used [OF s1(2) Suc.prems(3)] s1(2) by simp
  have f: "frames_ok (allocator ?s)" using s1(3) Suc.prems(3) by (simp add: frames_ok_def set_bitmap_def)
  have "unat (addr + PAGE_SIZE) = unat addr + 4096"
    using Suc.prems(5) by (simp add: unat_word_ariths)
  then have "unat (addr + PAGE_SIZE) + 4096 * n \<le> 2 ^ 39" using Suc.prems(5) by simp
  from Suc.IH [OF l f Suc.prems(3,4) this, of "pa + PAGE_SIZE"] s1(1) show ?case by simp
qed

lemma map_memory_range_total:
  assumes "loaded s r" "frames_ok (allocator s)" "(ucast pid :: byte) \<noteq> 0" "present flags" "unat e + 4096 \<le> 2 ^ 39"
  shows "\<exists>s'. map_memory_range_with_flags s pid a e pa flags sia = Some s' \<and> loaded s' r \<and> frames_ok (allocator s')"
proof -
  let ?a = "aalign_down a PAGE_SIZE" and ?e = "aalign e PAGE_SIZE"
  have e: "unat ?e < unat e + 4096"
    using aalign_bounds [of PAGE_SIZE e] assms(5) by simp
  have "unat ?a + 4096 * page_count ?a ?e \<le> 2 ^ 39" if "page_count ?a ?e \<noteq> 0"
  proof -
    have "?a < ?e" using that by (auto simp: page_count_def split: if_splits)
    then have "unat ?a < unat ?e" "unat (?e - ?a) = unat ?e - unat ?a"
      by (simp_all add: word_less_nat_alt unat_sub word_le_nat_alt)
    then show ?thesis using e assms(5) \<open>?a < ?e\<close> div_times_less_eq_dividend [of "unat ?e - unat ?a" 4096]
      by (simp add: page_count_def)
  qed
  then show ?thesis
  proof (cases "page_count ?a ?e = 0")
    case True
    then show ?thesis using assms by (simp add: map_memory_range_with_flags_def Let_def)
  next
    case False
    with \<open>page_count ?a ?e \<noteq> 0 \<Longrightarrow> unat ?a + 4096 * page_count ?a ?e \<le> 2 ^ 39\<close>
      map_pages_total [OF assms(1-4), of ?a "page_count ?a ?e" "aalign_down pa PAGE_SIZE" sia]
    show ?thesis by (simp add: map_memory_range_with_flags_def Let_def)
  qed
qed

definition small_mmu :: mmu where
  "small_mmu = \<lparr>phys = (\<lambda>f. if f = 0x2000 then (\<lambda>i. 0)(511 := 0x2007) else (\<lambda>i. 0)), cr3 = 0x2000,
     allocator = \<lparr>bitmap = (\<lambda>i. if i = 0 \<or> i = 2 then 1 else 0), num_pages = 64, initialized = 1\<rparr>,
     interrupts_ready = True, if_flag = True\<rparr>"

lemma small_mmu_loaded: "loaded small_mmu 0x2000" "frames_ok (allocator small_mmu)"
proof -
  have f: "frame_addr 0x2000" by (simp add: frame_addr_def)
  have p: "(0x2007 :: u64) = 0x2000 OR PAGE_MAP_FLAGS" by (simp add: PAGE_MAP_FLAGS_def)
  have u: "0x2000 \<in> used_frames (allocator small_mmu)" by (simp add: used_frames_def small_mmu_def)
  have t: "table_tree (phys small_mmu) 0x2000 (used_frames (allocator small_mmu))"
    by (rule empty_table_tree [OF f u]) (simp add: small_mmu_def p)
  have c: "frame (cr3 small_mmu) = 0x2000" by (simp add: small_mmu_def frame_def)
  have "child (phys small_mmu) 0x2000 511 = Some 0x2000" using t by (simp add: table_tree_def)
  moreover have "p = []" if "table_path p" "tbl (phys small_mmu) 0x2000 p = Some 0x2000" for p
    using table_tree_inj [OF t that(1), of "[]" "0x2000"] that(2) by (auto simp: table_path_def)
  ultimately show "loaded small_mmu 0x2000" using t u by (auto simp: loaded_def c)
  show "frames_ok (allocator small_mmu)" by (simp add: frames_ok_def small_mmu_def)
qed

text \<open>
  C9. \<open>map_page\<close>, which edits the tables only through the recursive PML4 entry, never faults
  when the loaded tables are a tree in frames the allocator knows to be in use.  When it
  enables interrupts again the page is translated to the given frame, and every other
  page outside the recursive slot is translated as before.  Otherwise the allocator
  has no free page left and no translation has changed.  The tables are a tree again.
\<close>

theorem map_page_maps:
  assumes "loaded s r" "frames_ok (allocator s)" "(ucast pid :: byte) \<noteq> 0"
    and "unat (pml4_index va) \<noteq> 511" "present (pa OR flags)"
  shows "\<exists>s'. map_page s pid va pa flags = Some s' \<and> loaded s' r \<and> frames_ok (allocator s') \<and>
    (if if_flag s' then interrupts_ready s' \<and> tbl (phys s') r (path va) = Some (frame (pa OR flags)) \<and>
       (\<forall>q. leaf_path q \<and> q \<noteq> path va \<longrightarrow> tbl (phys s') r q = tbl (phys s) r q)
     else \<not> interrupts_ready s' \<and> free_pages (allocator s') = {} \<and>
       (\<forall>q. leaf_path q \<longrightarrow> tbl (phys s') r q = tbl (phys s) r q))"
  by (rule map_page_spec [OF assms])

theorem map_page_maps_witness:
  "\<exists>s'. map_page small_mmu 1 0x400000 0x5000 7 = Some s' \<and> loaded s' 0x2000 \<and>
    (if_flag s' \<longrightarrow> tbl (phys s') 0x2000 [0, 0, 2, 0] = Some 0x5000)"
proof -
  have i: "path 0x400000 = [0, 0, 2, 0]" "unat (pml4_index 0x400000) \<noteq> 511"
    by (simp_all add: path_def pml4_index_def pdpt_index_def pd_index_def pt_index_def)
  have "present (0x5000 OR 7)" "frame (0x5000 OR 7) = 0x5000" by (simp_all add: present_def frame_def)
  then show ?thesis
    using map_page_maps [OF small_mmu_loaded, of 1 "0x400000" "0x5000" 7] i by auto
qed

text \<open>
  C10. \<open>unmap_page\<close> leaves exactly the given page without translation.  It turns interrupts on
  again only when the page was mapped: on its early returns they stay off.
\<close>

theorem unmap_page_unmaps:
  assumes "loaded s r" "unat (pml4_index va) \<noteq> 511"
  shows "\<exists>s'. unmap_page s va = Some s' \<and> loaded s' r \<and> allocator s' = allocator s \<and>
    tbl (phys s') r (path va) = None \<and>
    (\<forall>q. leaf_path q \<and> q \<noteq> path va \<longrightarrow> tbl (phys s') r q = tbl (phys s) r q) \<and>
    (if tbl (phys s) r (path va) = None then \<not> if_flag s' \<and> \<not> interrupts_ready s' \<and> phys s' = phys s
     else if_flag s' \<and> interrupts_ready s')"
  by (rule unmap_page_spec [OF assms])

theorem unmap_page_unmaps_witness:
  "if_flag small_mmu \<and> (\<exists>s'. unmap_page small_mmu 0x400000 = Some s' \<and> \<not> if_flag s')"
proof -
  have i: "path 0x400000 = [0, 0, 2, 0]" "unat (pml4_index 0x400000) \<noteq> 511"
    by (simp_all add: path_def pml4_index_def pdpt_index_def pd_index_def pt_index_def)
  have "tbl (phys small_mmu) 0x2000 [0, 0, 2, 0] = None"
    by (simp add: small_mmu_def child_def present_def)
  moreover have "if_flag small_mmu" by (simp add: small_mmu_def)
  ultimately show ?thesis using unmap_page_unmaps [OF small_mmu_loaded(1) i(2)] i(1) by auto
qed

end
