(* ===== verification/Ahci.thy ===== *)
theory Ahci
  imports LibcMemory "HOL-Library.Monad_Syntax"
begin

text \<open>
  The command side of \<open>kernel/driver/ahci.c\<close>: the port registers the driver reads, the choice
  of a command slot, the physical region descriptor table and the command FIS that
  \<open>read_ahci\<close> and \<open>write_ahci\<close> build, and the DMA transfer the controller makes from them.
  What the device does is an argument: for every attempt the port registers when the driver
  looks for a slot, the values of \<open>ci\<close> and \<open>is\<close> each turn of the polling loop reads, and how
  many bytes the controller had moved if the attempt does not complete.  The busy loop before
  a command is issued is not modelled: the registers of an attempt are those after it.
\<close>

section \<open>Registers and tables\<close>

record HBA_PORT =
  clb :: u64
  fb :: u64
  is_reg :: u32
  cmd_reg :: u32
  tfd :: u32
  sig :: u32
  ssts :: u32
  sctl :: u32
  sact :: u32
  ci :: u32

record HBA_PRDT_ENTRY =
  dba :: u64
  dbc :: u32
  irq :: bool

record FIS_REG_H2D =
  fis_type :: byte
  cbit :: bool
  command :: byte
  lba0 :: byte
  lba1 :: byte
  lba2 :: byte
  device :: byte
  lba3 :: byte
  lba4 :: byte
  lba5 :: byte
  fis_count :: u16

record ahci_command =
  slot :: nat
  wbit :: bool
  cfl :: nat
  prdtl :: u16
  prdt_entry :: "HBA_PRDT_ENTRY list"
  cfis :: FIS_REG_H2D

datatype ahci_dev = AHCI_DEV_NULL | AHCI_DEV_SATA | AHCI_DEV_SEMB | AHCI_DEV_PM | AHCI_DEV_SATAPI

definition check_type :: "HBA_PORT \<Rightarrow> ahci_dev" where
  "check_type port =
     (let ipm = drop_bit 8 (ssts port) AND 0x0F; det = ssts port AND 0x0F
      in if det \<noteq> 3 then AHCI_DEV_NULL
         else if ipm \<noteq> 1 then AHCI_DEV_NULL
         else if sig port = 0xEB140101 then AHCI_DEV_SATAPI
         else if sig port = 0xC33C0101 then AHCI_DEV_SEMB
         else if sig port = 0x96690101 then AHCI_DEV_PM
         else AHCI_DEV_SATA)"

text \<open>The loop of \<open>find_cmdslot\<close> over \<open>n\<close> remaining slots; \<open>None\<close> is its result -1.\<close>

fun find_cmdslot_from :: "u32 \<Rightarrow> nat \<Rightarrow> nat \<Rightarrow> nat option" where
  "find_cmdslot_from slots i 0 = None"
| "find_cmdslot_from slots i (Suc n) =
     (if slots AND 1 = 0 then Some i else find_cmdslot_from (drop_bit 1 slots) (i + 1) n)"

definition find_cmdslot :: "HBA_PORT \<Rightarrow> nat \<Rightarrow> nat option" where
  "find_cmdslot port cmdslots = find_cmdslot_from (sact port OR ci port) 0 cmdslots"

definition port_reset :: "HBA_PORT \<Rightarrow> HBA_PORT" where
  "port_reset port = port\<lparr>sctl := 0x301\<rparr>\<lparr>sctl := 0x300\<rparr>"

text \<open>
  The command engine: \<open>HBA_PxCMD_ST\<close> is bit 0 and \<open>HBA_PxCMD_FRE\<close> bit 4 of \<open>cmd\<close>.  The two
  loops that wait for the running bits 14 and 15 to clear end when the device clears them; what
  the driver writes is modelled.
\<close>

definition start_cmd :: "HBA_PORT \<Rightarrow> HBA_PORT" where
  "start_cmd port =
     (let port = port\<lparr>cmd_reg := cmd_reg port OR 0x0010\<rparr> in port\<lparr>cmd_reg := cmd_reg port OR 0x0001\<rparr>)"

definition stop_cmd :: "HBA_PORT \<Rightarrow> HBA_PORT" where
  "stop_cmd port =
     (let port = port_reset port;
          port = port\<lparr>cmd_reg := cmd_reg port AND NOT 0x0001\<rparr>
      in port\<lparr>cmd_reg := cmd_reg port AND NOT 0x0010\<rparr>)"

text \<open>The capabilities register gives the number of command slots less one in bits 8 to 12.\<close>

definition initialize_ahci_cmdslots :: "u32 \<Rightarrow> nat" where
  "initialize_ahci_cmdslots cap = unat (drop_bit 8 cap AND 0x1F) + 1"

text \<open>
  \<open>PRDT_READ_SIZE_PER_ENTRY\<close> and \<open>PRDT_WRITE_SIZE_PER_ENTRY\<close> are both 16 sectors.  The byte
  count field of an entry has 22 bits and holds the count less one.
\<close>

definition prdt_count :: "u32 \<Rightarrow> u16" where
  "prdt_count count = ucast ((count + 16 - 1) div 16)"

fun build_prdt :: "u64 \<Rightarrow> u32 \<Rightarrow> bool \<Rightarrow> nat \<Rightarrow> HBA_PRDT_ENTRY list" where
  "build_prdt buf count_temp last_i 0 = [\<lparr>dba = buf, dbc = take_bit 22 (push_bit 9 count_temp - 1), irq = last_i\<rparr>]"
| "build_prdt buf count_temp last_i (Suc n) =
     \<lparr>dba = buf, dbc = 8192 - 1, irq = True\<rparr> # build_prdt (buf + 8192) (count_temp - 16) last_i n"

definition build_cfis :: "byte \<Rightarrow> u64 \<Rightarrow> u32 \<Rightarrow> FIS_REG_H2D" where
  "build_cfis cmd start count =
     \<lparr>fis_type = 0x27, cbit = True, command = cmd,
      lba0 = ucast start, lba1 = ucast (drop_bit 8 start), lba2 = ucast (drop_bit 16 start),
      device = push_bit 6 1,
      lba3 = ucast (drop_bit 24 start), lba4 = ucast (drop_bit 32 start), lba5 = ucast (drop_bit 40 start),
      fis_count = ucast count\<rparr>"

definition read_command :: "HBA_PORT \<Rightarrow> nat \<Rightarrow> u64 \<Rightarrow> u32 \<Rightarrow> u64 \<Rightarrow> ahci_command option" where
  "read_command port cmdslots start count buf =
     do { i \<leftarrow> find_cmdslot port cmdslots;
          let n = prdt_count count;
          Some \<lparr>slot = i, wbit = False, cfl = 5, prdtl = n,
                prdt_entry = build_prdt buf count True (unat n - 1),
                cfis = build_cfis 0x25 start count\<rparr> }"

definition write_command :: "HBA_PORT \<Rightarrow> nat \<Rightarrow> u64 \<Rightarrow> u32 \<Rightarrow> u64 \<Rightarrow> ahci_command option" where
  "write_command port cmdslots start count buf =
     do { i \<leftarrow> find_cmdslot port cmdslots;
          let n = prdt_count count;
          Some \<lparr>slot = i, wbit = True, cfl = 5, prdtl = n,
                prdt_entry = build_prdt buf count False (unat n - 1),
                cfis = build_cfis 0x35 start count\<rparr> }"

definition identify_command :: "HBA_PORT \<Rightarrow> nat \<Rightarrow> u64 \<Rightarrow> ahci_command option" where
  "identify_command port cmdslots buf =
     do { i \<leftarrow> find_cmdslot port cmdslots;
          Some \<lparr>slot = i, wbit = False, cfl = 5, prdtl = 1,
                prdt_entry = [\<lparr>dba = buf, dbc = 512 - 1, irq = False\<rparr>],
                cfis = \<lparr>fis_type = 0x27, cbit = True, command = 0xEC, lba0 = 0, lba1 = 0, lba2 = 0,
                        device = push_bit 6 1, lba3 = 0, lba4 = 0, lba5 = 0, fis_count = 0\<rparr>\<rparr> }"

section \<open>The transfer\<close>

text \<open>
  A disk image is a byte per address.  The controller moves the addressed sectors to or from
  the memory regions of the table, in order.
\<close>

definition fis_lba :: "FIS_REG_H2D \<Rightarrow> u64" where
  "fis_lba f = of_le [lba0 f, lba1 f, lba2 f, lba3 f, lba4 f, lba5 f]"

definition prdt_addrs :: "HBA_PRDT_ENTRY list \<Rightarrow> u64 list" where
  "prdt_addrs es = concat (map (\<lambda>e. map (\<lambda>j. dba e + of_nat j) [0..<unat (dbc e) + 1]) es)"

fun store_seq :: "mem \<Rightarrow> u64 list \<Rightarrow> byte list \<Rightarrow> mem" where
  "store_seq m (a # as) (b # bs) = store_seq (m(a := b)) as bs"
| "store_seq m _ _ = m"

definition transfer_bytes :: "(u64 \<Rightarrow> byte) \<Rightarrow> ahci_command \<Rightarrow> byte list" where
  "transfer_bytes img c = bytes_at img (fis_lba (cfis c) * 512) (512 * unat (fis_count (cfis c)))"

definition dma_read :: "mem \<Rightarrow> byte list \<Rightarrow> ahci_command \<Rightarrow> mem" where
  "dma_read m bs c = store_seq m (prdt_addrs (prdt_entry c)) bs"

definition dma_write :: "mem \<Rightarrow> (u64 \<Rightarrow> byte) \<Rightarrow> nat \<Rightarrow> ahci_command \<Rightarrow> (u64 \<Rightarrow> byte)" where
  "dma_write m img n c =
     put_bytes img (fis_lba (cfis c) * 512)
       (map m (take n (take (512 * unat (fis_count (cfis c))) (prdt_addrs (prdt_entry c)))))"

text \<open>
  The polling loop reads \<open>ci\<close>, then \<open>is\<close> (\<open>HBA_PxIS_TFES\<close> is bit 30); \<open>is\<close> is read once more
  after the loop.  The list holds what successive turns read.
\<close>

datatype ahci_result = Completed | Task_file_error | Timed_out | Waiting

fun wait_cmd :: "nat \<Rightarrow> nat \<Rightarrow> (u32 \<times> u32) list \<Rightarrow> ahci_result" where
  "wait_cmd i timeout [] = Waiting"
| "wait_cmd i timeout ((ci_now, is_now) # polls) =
     (if \<not> bit ci_now i then if bit is_now 30 then Task_file_error else Completed
      else if bit is_now 30 then Task_file_error
      else if timeout = 1 then Timed_out
      else wait_cmd i (timeout - 1) polls)"

definition READ_TIMEOUT :: nat where "READ_TIMEOUT = 100000"

record ahci_attempt =
  port_at :: HBA_PORT
  polls :: "(u32 \<times> u32) list"
  moved :: nat

text \<open>A timed-out command is issued again; \<open>None\<close> means that the device has not answered.\<close>

fun read_ahci :: "mem \<Rightarrow> (u64 \<Rightarrow> byte) \<Rightarrow> ahci_attempt list \<Rightarrow> nat \<Rightarrow> u64 \<Rightarrow> u32 \<Rightarrow> u64 \<Rightarrow> (mem \<times> bool) option" where
  "read_ahci m img [] cmdslots start count buf = None"
| "read_ahci m img (a # as) cmdslots start count buf =
     (case read_command (port_at a) cmdslots start count buf of
        None \<Rightarrow> Some (m, False)
      | Some c \<Rightarrow>
          (let part = dma_read m (take (moved a) (transfer_bytes img c)) c
           in case wait_cmd (slot c) READ_TIMEOUT (polls a) of
                Completed \<Rightarrow> Some (dma_read m (transfer_bytes img c) c, True)
              | Task_file_error \<Rightarrow> Some (part, False)
              | Timed_out \<Rightarrow> read_ahci part img as cmdslots start count buf
              | Waiting \<Rightarrow> None))"

fun write_ahci :: "mem \<Rightarrow> (u64 \<Rightarrow> byte) \<Rightarrow> ahci_attempt list \<Rightarrow> nat \<Rightarrow> u64 \<Rightarrow> u32 \<Rightarrow> u64 \<Rightarrow> ((u64 \<Rightarrow> byte) \<times> bool) option" where
  "write_ahci m img [] cmdslots start count buf = None"
| "write_ahci m img (a # as) cmdslots start count buf =
     (case write_command (port_at a) cmdslots start count buf of
        None \<Rightarrow> Some (img, False)
      | Some c \<Rightarrow>
          (let n = 512 * unat (fis_count (cfis c))
           in case wait_cmd (slot c) READ_TIMEOUT (polls a) of
                Completed \<Rightarrow> Some (dma_write m img n c, True)
              | Task_file_error \<Rightarrow> Some (dma_write m img (moved a) c, False)
              | Timed_out \<Rightarrow> write_ahci m (dma_write m img (moved a) c) as cmdslots start count buf
              | Waiting \<Rightarrow> None))"

fun get_identify_sata :: "mem \<Rightarrow> byte list \<Rightarrow> ahci_attempt list \<Rightarrow> nat \<Rightarrow> u64 \<Rightarrow> (mem \<times> bool) option" where
  "get_identify_sata m ident [] cmdslots buf = None"
| "get_identify_sata m ident (a # as) cmdslots buf =
     (case identify_command (port_at a) cmdslots buf of
        None \<Rightarrow> Some (m, False)
      | Some c \<Rightarrow>
          (let part = dma_read m (take (moved a) ident) c
           in case wait_cmd (slot c) READ_TIMEOUT (polls a) of
                Completed \<Rightarrow> Some (dma_read m ident c, True)
              | Task_file_error \<Rightarrow> Some (part, False)
              | Timed_out \<Rightarrow> get_identify_sata part ident as cmdslots buf
              | Waiting \<Rightarrow> None))"

section \<open>Correctness\<close>

lemma find_cmdslot_from_Some:
  "find_cmdslot_from slots i n = Some k \<Longrightarrow>
     \<exists>d. k = i + d \<and> d < n \<and> \<not> bit slots d \<and> (\<forall>j < d. bit slots j)"
proof (induction n arbitrary: slots i)
  case 0
  then show ?case by simp
next
  case (Suc n)
  have e: "slots AND 1 = 0 \<longleftrightarrow> \<not> bit slots 0" by (simp add: and_one_eq bit_0 odd_iff_mod_2_eq_one)
  show ?case
  proof (cases "bit slots 0")
    case True
    with Suc.prems e have "find_cmdslot_from (drop_bit 1 slots) (Suc i) n = Some k" by simp
    from Suc.IH [OF this] obtain d where "k = Suc i + d" "d < n" "\<not> bit slots (Suc d)" "\<forall>j < d. bit slots (Suc j)"
      by (auto simp: bit_drop_bit_eq)
    with True show ?thesis by (intro exI [of _ "Suc d"]) (auto simp: less_Suc_eq_0_disj)
  next
    case False
    with Suc.prems e show ?thesis by simp
  qed
qed

text \<open>The regions of the table are one contiguous run of \<open>512 * count\<close> bytes.\<close>

lemma map_upt_add: "map f [0..<a + b] = map f [0..<a] @ map (\<lambda>j. f (a + j)) [0..<b]"
  by (rule nth_equalityI) (auto simp: nth_append)

lemma prdt_addrs_Cons:
  "prdt_addrs (e # es) = map (\<lambda>j. dba e + of_nat j) [0..<unat (dbc e) + 1] @ prdt_addrs es"
  by (simp add: prdt_addrs_def)

lemma prdt_addrs_build:
  "16 * n < unat ct \<Longrightarrow> unat ct \<le> 16 * n + 16 \<Longrightarrow>
   prdt_addrs (build_prdt buf ct b n) = map (\<lambda>j. buf + of_nat j) [0..<512 * unat ct]"
proof (induction n arbitrary: buf ct)
  case 0
  have "unat (push_bit 9 ct) = 512 * unat ct"
    using 0 by (simp add: push_bit_eq_mult unat_word_ariths)
  then have "unat (push_bit 9 ct - 1) = 512 * unat ct - 1"
    using 0 by (subst unat_minus_one) auto
  then have "unat (take_bit 22 (push_bit 9 ct - 1)) + 1 = 512 * unat ct"
    using 0 by (simp add: unsigned_take_bit_eq take_bit_nat_eq_self)
  then show ?case by (simp add: prdt_addrs_def del: upt_Suc)
next
  case (Suc n)
  have u: "unat (ct - 16) = unat ct - 16"
    using Suc.prems by (simp add: unat_sub_if_size)
  have "prdt_addrs (build_prdt (buf + 8192) (ct - 16) b n) = map (\<lambda>j. buf + 8192 + of_nat j) [0..<512 * (unat ct - 16)]"
    using Suc.IH [of "ct - 16" "buf + 8192"] Suc.prems by (simp add: u)
  moreover have "512 * unat ct = 8192 + 512 * (unat ct - 16)" using Suc.prems by simp
  then have "map (\<lambda>j. buf + of_nat j) [0..<512 * unat ct] = map (\<lambda>j. buf + of_nat j) [0..<8192] @
      map (\<lambda>j. buf + 8192 + of_nat j) [0..<512 * (unat ct - 16)]"
    by (simp only: map_upt_add of_nat_add of_nat_numeral add.assoc)
  moreover have "unat (8192 - 1 :: u32) + 1 = 8192" by simp
  ultimately show ?case
    by (simp only: build_prdt.simps prdt_addrs_Cons HBA_PRDT_ENTRY.select_convs)
qed

lemma store_seq_contiguous:
  "length bs \<le> 2 ^ 64 \<Longrightarrow> store_seq m (map (\<lambda>j. p + of_nat j) [0..<length bs]) bs = put_bytes m p bs"
proof (induction bs arbitrary: m p)
  case Nil
  then show ?case by simp
next
  case (Cons b bs)
  have "map (\<lambda>j. p + of_nat j) [0..<length (b # bs)] = p # map (\<lambda>j. p + 1 + of_nat j) [0..<length bs]"
    by (simp add: upt_conv_Cons map_Suc_upt [symmetric] add.assoc comp_def del: upt_Suc)
  with Cons show ?case by (simp add: put_bytes_Cons)
qed

lemma unat_numeral_16: "unat (16 :: u32) = 16"
  by simp

lemma unat_prdt_count:
  assumes "unat count \<le> 16 * 65535"
  shows "unat (prdt_count count) = (unat count + 15) div 16"
proof -
  have "count + 16 - 1 = count + 15" by simp
  moreover have "unat (count + 15) = unat count + 15"
    using assms by (subst unat_word_ariths(1)) simp
  ultimately have "unat ((count + 16 - 1) div 16) = (unat count + 15) div 16" by (metis unat_div unat_numeral_16)
  moreover have "(unat count + 15) div 16 < 2 ^ 16" using assms by (simp add: div_less_iff_less_mult)
  ultimately show ?thesis by (simp add: prdt_count_def unsigned_ucast_eq take_bit_nat_eq_self)
qed

lemma prdt_count_bounds:
  assumes "0 < unat count" "unat count \<le> 16 * 65535"
  shows "16 * (unat (prdt_count count) - 1) < unat count" "unat count \<le> 16 * (unat (prdt_count count) - 1) + 16"
    "0 < unat (prdt_count count)"
proof -
  define q where "q = unat (prdt_count count)"
  have "unat count + 15 = 16 * q + (unat count + 15) mod 16"
    unfolding q_def unat_prdt_count [OF assms(2)] by simp
  moreover have "(unat count + 15) mod 16 < 16" by simp
  ultimately have "0 < q" "16 * q < unat count + 16" "unat count \<le> 16 * q" using assms(1) by linarith+
  then show "16 * (unat (prdt_count count) - 1) < unat count" "unat count \<le> 16 * (unat (prdt_count count) - 1) + 16"
    "0 < unat (prdt_count count)" unfolding q_def by auto
qed

lemma fis_lba_build: "unat start < 2 ^ 48 \<Longrightarrow> fis_lba (build_cfis c start n) = start"
proof -
  assume s: "unat start < 2 ^ 48"
  have "[lba0 f, lba1 f, lba2 f, lba3 f, lba4 f, lba5 f] = to_le 6 start" if "f = build_cfis c start n" for f
    using that by (simp add: build_cfis_def to_le_def upt_conv_Cons)
  moreover have "take_bit 48 start = start"
    using s by (simp add: word_unat_eq_iff unsigned_take_bit_eq take_bit_nat_eq_self)
  ultimately show ?thesis by (simp add: fis_lba_def of_le_to_le)
qed

lemma store_seq_append:
  "length bs \<le> length as \<Longrightarrow> store_seq m as bs = store_seq m (take (length bs) as) bs"
  by (induction m as bs rule: store_seq.induct) auto

lemma dma_read_contiguous:
  assumes "prdt_addrs (prdt_entry c) = map (\<lambda>j. buf + of_nat j) [0..<n]" "length bs \<le> n" "n \<le> 2 ^ 64"
  shows "dma_read m bs c = put_bytes m buf bs"
proof -
  have "take (length bs) (map (\<lambda>j. buf + of_nat j) [0..<n]) = map (\<lambda>j. buf + of_nat j) [0..<length bs]"
    using assms(2) by (simp add: take_map)
  moreover have "store_seq m (prdt_addrs (prdt_entry c)) bs = store_seq m (take (length bs) (prdt_addrs (prdt_entry c))) bs"
    by (rule store_seq_append) (simp add: assms)
  ultimately show ?thesis
    using assms(2,3) by (simp add: dma_read_def store_seq_contiguous assms(1))
qed

lemma put_bytes_put_shorter:
  assumes "length as \<le> length bs" "length bs \<le> 2 ^ 64"
  shows "put_bytes (put_bytes m p as) p bs = put_bytes m p bs"
  using assms by (auto simp: put_bytes_def fun_eq_iff)

lemma read_command_regions:
  assumes "read_command port cmdslots start count buf = Some c" "unat start < 2 ^ 48" "0 < unat count" "unat count \<le> 65535"
  shows "prdt_addrs (prdt_entry c) = map (\<lambda>j. buf + of_nat j) [0..<512 * unat count]"
    "transfer_bytes img c = bytes_at img (start * 512) (512 * unat count)"
proof -
  have "unat count \<le> 16 * 65535" using assms(4) by simp
  note b = prdt_count_bounds [OF assms(3) this]
  have u: "unat (ucast count :: u16) = unat count"
    using assms(4) by (simp add: unsigned_ucast_eq take_bit_nat_eq_self)
  have "prdt_addrs (build_prdt buf count True (unat (prdt_count count) - 1)) = map (\<lambda>j. buf + of_nat j) [0..<512 * unat count]"
    by (rule prdt_addrs_build) (use b in auto)
  then show "prdt_addrs (prdt_entry c) = map (\<lambda>j. buf + of_nat j) [0..<512 * unat count]"
    using assms(1) by (auto simp: read_command_def Let_def bind_eq_Some_conv)
  have "cfis c = build_cfis 0x25 start count"
    using assms(1) by (auto simp: read_command_def Let_def bind_eq_Some_conv)
  moreover have "fis_count (build_cfis 0x25 start count) = ucast count" by (simp add: build_cfis_def)
  ultimately show "transfer_bytes img c = bytes_at img (start * 512) (512 * unat count)"
    by (simp add: transfer_bytes_def u fis_lba_build [OF assms(2)])
qed

lemma write_command_regions:
  assumes "write_command port cmdslots start count buf = Some c" "unat start < 2 ^ 48" "0 < unat count" "unat count \<le> 65535"
  shows "prdt_addrs (prdt_entry c) = map (\<lambda>j. buf + of_nat j) [0..<512 * unat count]"
    "fis_lba (cfis c) = start" "unat (fis_count (cfis c)) = unat count"
proof -
  have "unat count \<le> 16 * 65535" using assms(4) by simp
  note b = prdt_count_bounds [OF assms(3) this]
  have "prdt_addrs (build_prdt buf count False (unat (prdt_count count) - 1)) = map (\<lambda>j. buf + of_nat j) [0..<512 * unat count]"
    by (rule prdt_addrs_build) (use b in auto)
  then show "prdt_addrs (prdt_entry c) = map (\<lambda>j. buf + of_nat j) [0..<512 * unat count]"
    using assms(1) by (auto simp: write_command_def Let_def bind_eq_Some_conv)
  have c: "cfis c = build_cfis 0x35 start count"
    using assms(1) by (auto simp: write_command_def Let_def bind_eq_Some_conv)
  then show "fis_lba (cfis c) = start" using fis_lba_build [OF assms(2)] by simp
  show "unat (fis_count (cfis c)) = unat count"
    using assms(4) by (simp add: c build_cfis_def unsigned_ucast_eq take_bit_nat_eq_self)
qed

text \<open>A device that completes the first attempt.\<close>

definition completes :: "ahci_attempt list \<Rightarrow> nat \<Rightarrow> bool" where
  "completes as cmdslots \<longleftrightarrow> (case as of [] \<Rightarrow> False
     | a # _ \<Rightarrow> (case find_cmdslot (port_at a) cmdslots of None \<Rightarrow> False
                | Some i \<Rightarrow> wait_cmd i READ_TIMEOUT (polls a) = Completed))"

lemma read_ahci_completes:
  assumes "completes as cmdslots" "unat start < 2 ^ 48" "0 < unat count" "unat count \<le> 65535"
  shows "read_ahci m img as cmdslots start count buf = Some (put_bytes m buf (bytes_at img (start * 512) (512 * unat count)), True)"
proof -
  from assms(1) obtain a as' i where a: "as = a # as'" "find_cmdslot (port_at a) cmdslots = Some i" "wait_cmd i READ_TIMEOUT (polls a) = Completed"
    by (auto simp: completes_def split: list.splits option.splits)
  then obtain c where c: "read_command (port_at a) cmdslots start count buf = Some c" "slot c = i"
    by (simp add: read_command_def Let_def)
  note r = read_command_regions [OF c(1) assms(2-4)]
  have "512 * unat count \<le> 2 ^ 64" using assms(4) by simp
  from dma_read_contiguous [OF r(1) _ this, of "bytes_at img (start * 512) (512 * unat count)" m] a c r(2) show ?thesis by simp
qed

lemma write_ahci_completes:
  assumes "completes as cmdslots" "unat start < 2 ^ 48" "0 < unat count" "unat count \<le> 65535"
  shows "write_ahci m img as cmdslots start count buf = Some (put_bytes img (start * 512) (bytes_at m buf (512 * unat count)), True)"
proof -
  from assms(1) obtain a as' i where a: "as = a # as'" "find_cmdslot (port_at a) cmdslots = Some i" "wait_cmd i READ_TIMEOUT (polls a) = Completed"
    by (auto simp: completes_def split: list.splits option.splits)
  then obtain c where c: "write_command (port_at a) cmdslots start count buf = Some c" "slot c = i"
    by (simp add: write_command_def Let_def)
  note r = write_command_regions [OF c(1) assms(2-4)]
  have "map m (prdt_addrs (prdt_entry c)) = bytes_at m buf (512 * unat count)"
    by (simp add: r(1) bytes_at_def comp_def)
  then show ?thesis using a c r by (simp add: dma_write_def)
qed



text \<open>
  C12. The command table of a slot, for which \<open>port_rebase\<close> allocates 0x100 bytes, holds the
  descriptors \<open>read_ahci\<close> and \<open>write_ahci\<close> write exactly for transfers of at most 128 sectors;
  a longer transfer writes past the table.
\<close>

theorem command_table_fits:
  assumes "0 < unat count" "unat count \<le> 65535"
  shows "0x80 + 16 * length (build_prdt buf count b (unat (prdt_count count) - 1)) \<le> 0x100 \<longleftrightarrow> unat count \<le> 128"
proof -
  have c: "unat count \<le> 16 * 65535" using assms(2) by simp
  have l: "length (build_prdt buf ct b n) = Suc n" for buf ct b n
    by (induction buf ct b n rule: build_prdt.induct) auto
  show ?thesis using prdt_count_bounds [OF assms(1) c] by (auto simp: l)
qed

theorem command_table_fits_witness:
  "\<not> 0x80 + 16 * length (build_prdt 0x9000 200 True (unat (prdt_count 200) - 1)) \<le> 0x100"
  using command_table_fits [of 200 "0x9000" True] by simp

end
