(* ===== verification/Pci.thy ===== *)
theory Pci
  imports Paging "HOL-Library.State_Monad"
begin

text \<open>
  The PCI bus driver, \<open>kernel/driver/pci.c\<close> with the accessors of \<open>kernel/include/pci.h\<close>.
  Configuration space is reached through the two port registers 0xCF8 (address) and 0xCFC
  (data), which the code drives with \<open>outl\<close> and \<open>inl\<close>; the state threads through the accessors
  in the state monad.  The devices are the map \<open>conf\<close> from configuration addresses to double
  words, and \<open>latch\<close>, what a register holds after a write (a base address register keeps only
  the bits it implements).  The list of devices found holds the records the driver allocates,
  most recent first, as \<open>hardware_append_node\<close> links them.
\<close>

section \<open>Configuration space\<close>

record PCIDevice =
  bus :: byte
  pslot :: byte
  pfunc :: byte
  vendorId :: u16
  deviceId :: u16
  pcommand :: u16
  pstatus :: u16
  classCode :: byte
  psubclass :: byte
  progIf :: byte

record pci =
  conf_addr :: u32
  conf :: "u32 \<Rightarrow> u32"
  latch :: "u32 \<Rightarrow> u32 \<Rightarrow> u32"
  list_pci_devices :: "PCIDevice list"

type_synonym 'a pci_op = "(pci, 'a) state"

definition PCI_CONFIG_ADDRESS :: u16 where "PCI_CONFIG_ADDRESS = 0xCF8"
definition PCI_CONFIG_DATA :: u16 where "PCI_CONFIG_DATA = 0xCFC"

definition outl :: "u16 \<Rightarrow> u32 \<Rightarrow> unit pci_op" where
  "outl port v = State (\<lambda>s. ((),
     if port = PCI_CONFIG_ADDRESS then s\<lparr>conf_addr := v\<rparr>
     else if port = PCI_CONFIG_DATA
       then s\<lparr>conf := (conf s)(conf_addr s := latch s (conf_addr s) v)\<rparr> else s))"

definition inl :: "u16 \<Rightarrow> u32 pci_op" where
  "inl port = State (\<lambda>s.
     (if port = PCI_CONFIG_ADDRESS then conf_addr s
      else if port = PCI_CONFIG_DATA then conf s (conf_addr s) else - 1, s))"

definition pci_address :: "byte \<Rightarrow> byte \<Rightarrow> byte \<Rightarrow> byte \<Rightarrow> u32" where
  "pci_address b s f off =
     push_bit 16 (ucast b) OR push_bit 11 (ucast s) OR push_bit 8 (ucast f) OR
     (ucast (off AND 0xFC) OR 0x80000000)"

definition word_shift :: "byte \<Rightarrow> nat" where
  "word_shift off = unat (off AND 2) * 8"

definition pci_config_read_word :: "byte \<Rightarrow> byte \<Rightarrow> byte \<Rightarrow> byte \<Rightarrow> u16 pci_op" where
  "pci_config_read_word b s f off =
     do { outl PCI_CONFIG_ADDRESS (pci_address b s f off);
          v \<leftarrow> inl PCI_CONFIG_DATA;
          State_Monad.return (ucast (drop_bit (word_shift off) v AND 0xFFFF)) }"

definition pci_config_write_word :: "byte \<Rightarrow> byte \<Rightarrow> byte \<Rightarrow> byte \<Rightarrow> u16 \<Rightarrow> unit pci_op" where
  "pci_config_write_word b s f off x =
     do { outl PCI_CONFIG_ADDRESS (pci_address b s f off);
          tmp \<leftarrow> inl PCI_CONFIG_DATA;
          let tmp = tmp AND NOT (push_bit (word_shift off) 0xFFFF);
          let tmp = tmp OR push_bit (word_shift off) (ucast x);
          outl PCI_CONFIG_DATA tmp }"

definition pci_config_read_dword :: "byte \<Rightarrow> byte \<Rightarrow> byte \<Rightarrow> byte \<Rightarrow> u32 pci_op" where
  "pci_config_read_dword b s f off =
     do { outl PCI_CONFIG_ADDRESS (pci_address b s f off); inl PCI_CONFIG_DATA }"

definition pci_config_write_dword :: "byte \<Rightarrow> byte \<Rightarrow> byte \<Rightarrow> byte \<Rightarrow> u32 \<Rightarrow> unit pci_op" where
  "pci_config_write_dword b s f off x =
     do { outl PCI_CONFIG_ADDRESS (pci_address b s f off); outl PCI_CONFIG_DATA x }"

text \<open>The byte accessors read the word at their offset and keep its low byte.\<close>

definition read_low_byte :: "byte \<Rightarrow> byte \<Rightarrow> byte \<Rightarrow> byte \<Rightarrow> byte pci_op" where
  "read_low_byte b s f off =
     do { v \<leftarrow> pci_config_read_word b s f off; State_Monad.return (ucast (v AND 0xFF)) }"

definition get_vendor_id :: "byte \<Rightarrow> byte \<Rightarrow> byte \<Rightarrow> u16 pci_op" where
  "get_vendor_id b s f = pci_config_read_word b s f 0x00"

definition get_product_id :: "byte \<Rightarrow> byte \<Rightarrow> byte \<Rightarrow> u16 pci_op" where
  "get_product_id b s f = pci_config_read_word b s f 0x02"

definition get_command :: "byte \<Rightarrow> byte \<Rightarrow> byte \<Rightarrow> u16 pci_op" where
  "get_command b s f = pci_config_read_word b s f 0x04"

definition get_status :: "byte \<Rightarrow> byte \<Rightarrow> byte \<Rightarrow> u16 pci_op" where
  "get_status b s f = pci_config_read_word b s f 0x06"

definition get_revision_id :: "byte \<Rightarrow> byte \<Rightarrow> byte \<Rightarrow> byte pci_op" where
  "get_revision_id b s f = read_low_byte b s f 0x08"

definition get_prog_if :: "byte \<Rightarrow> byte \<Rightarrow> byte \<Rightarrow> byte pci_op" where
  "get_prog_if b s f = read_low_byte b s f 0x09"

definition get_subclass :: "byte \<Rightarrow> byte \<Rightarrow> byte \<Rightarrow> byte pci_op" where
  "get_subclass b s f = read_low_byte b s f 0x0A"

definition get_class_code :: "byte \<Rightarrow> byte \<Rightarrow> byte \<Rightarrow> byte pci_op" where
  "get_class_code b s f = read_low_byte b s f 0x0B"

definition get_cache_line_size :: "byte \<Rightarrow> byte \<Rightarrow> byte \<Rightarrow> byte pci_op" where
  "get_cache_line_size b s f = read_low_byte b s f 0x0C"

definition get_latency_timer :: "byte \<Rightarrow> byte \<Rightarrow> byte \<Rightarrow> byte pci_op" where
  "get_latency_timer b s f = read_low_byte b s f 0x0D"

definition get_header_type :: "byte \<Rightarrow> byte \<Rightarrow> byte \<Rightarrow> byte pci_op" where
  "get_header_type b s f = read_low_byte b s f 0x0E"

definition get_bist :: "byte \<Rightarrow> byte \<Rightarrow> byte \<Rightarrow> byte pci_op" where
  "get_bist b s f = read_low_byte b s f 0x0F"

definition get_subsystem_vendor_id :: "byte \<Rightarrow> byte \<Rightarrow> byte \<Rightarrow> u16 pci_op" where
  "get_subsystem_vendor_id b s f = pci_config_read_word b s f 0x2C"

definition get_subsystem_id :: "byte \<Rightarrow> byte \<Rightarrow> byte \<Rightarrow> u16 pci_op" where
  "get_subsystem_id b s f = pci_config_read_word b s f 0x2E"

definition get_capabilities_pointer :: "byte \<Rightarrow> byte \<Rightarrow> byte \<Rightarrow> byte pci_op" where
  "get_capabilities_pointer b s f = read_low_byte b s f 0x34"

definition get_interrupt_line :: "byte \<Rightarrow> byte \<Rightarrow> byte \<Rightarrow> byte pci_op" where
  "get_interrupt_line b s f = read_low_byte b s f 0x3C"

definition get_interrupt_pin :: "byte \<Rightarrow> byte \<Rightarrow> byte \<Rightarrow> byte pci_op" where
  "get_interrupt_pin b s f = read_low_byte b s f 0x3D"

definition get_min_grant :: "byte \<Rightarrow> byte \<Rightarrow> byte \<Rightarrow> byte pci_op" where
  "get_min_grant b s f = read_low_byte b s f 0x3E"

definition get_max_latency :: "byte \<Rightarrow> byte \<Rightarrow> byte \<Rightarrow> byte pci_op" where
  "get_max_latency b s f = read_low_byte b s f 0x3F"

definition get_secondery_bus :: "byte \<Rightarrow> byte \<Rightarrow> byte \<Rightarrow> byte pci_op" where
  "get_secondery_bus b s f = read_low_byte b s f 0x19"

definition get_bar0 :: "byte \<Rightarrow> byte \<Rightarrow> byte \<Rightarrow> u32 pci_op" where
  "get_bar0 b s f = pci_config_read_dword b s f 0x10"

definition get_bar1 :: "byte \<Rightarrow> byte \<Rightarrow> byte \<Rightarrow> u32 pci_op" where
  "get_bar1 b s f = pci_config_read_dword b s f 0x14"

definition get_bar2 :: "byte \<Rightarrow> byte \<Rightarrow> byte \<Rightarrow> u32 pci_op" where
  "get_bar2 b s f = pci_config_read_dword b s f 0x18"

definition get_bar3 :: "byte \<Rightarrow> byte \<Rightarrow> byte \<Rightarrow> u32 pci_op" where
  "get_bar3 b s f = pci_config_read_dword b s f 0x1C"

definition get_bar4 :: "byte \<Rightarrow> byte \<Rightarrow> byte \<Rightarrow> u32 pci_op" where
  "get_bar4 b s f = pci_config_read_dword b s f 0x20"

definition get_bar5 :: "byte \<Rightarrow> byte \<Rightarrow> byte \<Rightarrow> u32 pci_op" where
  "get_bar5 b s f = pci_config_read_dword b s f 0x24"

definition get_cardbus_cis_pointer :: "byte \<Rightarrow> byte \<Rightarrow> byte \<Rightarrow> u32 pci_op" where
  "get_cardbus_cis_pointer b s f = pci_config_read_dword b s f 0x28"

definition get_expansion_rom_base_addr :: "byte \<Rightarrow> byte \<Rightarrow> byte \<Rightarrow> u32 pci_op" where
  "get_expansion_rom_base_addr b s f = pci_config_read_dword b s f 0x30"

section \<open>Enumeration\<close>

text \<open>
  The three check functions call each other: a bridge starts the scan of its secondary bus.
  \<open>depth\<close> bounds the nesting of buses; the result tells whether it was enough.
\<close>

definition check_function :: "(byte \<Rightarrow> bool pci_op) \<Rightarrow> byte \<Rightarrow> byte \<Rightarrow> byte \<Rightarrow> bool pci_op" where
  "check_function check_bus b s f =
     do { base_class \<leftarrow> get_class_code b s f;
          sub_class \<leftarrow> get_subclass b s f;
          if base_class = 0x6 \<and> sub_class = 0x4
          then do { secondary_bus \<leftarrow> get_secondery_bus b s f; check_bus secondary_bus }
          else do { vid \<leftarrow> get_vendor_id b s f; did \<leftarrow> get_product_id b s f;
                    cmd \<leftarrow> get_command b s f; sts \<leftarrow> get_status b s f;
                    cls \<leftarrow> get_class_code b s f; sub \<leftarrow> get_subclass b s f; pif \<leftarrow> get_prog_if b s f;
                    let dev = \<lparr>bus = b, pslot = s, pfunc = f, vendorId = vid, deviceId = did, pcommand = cmd,
                               pstatus = sts, classCode = cls, psubclass = sub, progIf = pif\<rparr>;
                    State_Monad.update (\<lambda>p. p\<lparr>list_pci_devices := dev # list_pci_devices p\<rparr>);
                    State_Monad.return True } }"

fun check_functions :: "(byte \<Rightarrow> bool pci_op) \<Rightarrow> byte \<Rightarrow> byte \<Rightarrow> byte list \<Rightarrow> bool pci_op" where
  "check_functions check_bus b d [] = State_Monad.return True"
| "check_functions check_bus b d (f # fs) =
     do { vendorID \<leftarrow> get_vendor_id b d f;
          ok \<leftarrow> (if vendorID \<noteq> 0xFFFF then check_function check_bus b d f else State_Monad.return True);
          if ok then check_functions check_bus b d fs else State_Monad.return False }"

definition check_device :: "(byte \<Rightarrow> bool pci_op) \<Rightarrow> byte \<Rightarrow> byte \<Rightarrow> bool pci_op" where
  "check_device check_bus b d =
     do { vendorID \<leftarrow> get_vendor_id b d 0;
          if vendorID = 0xFFFF then State_Monad.return True
          else do { ok \<leftarrow> check_function check_bus b d 0;
                    headerType \<leftarrow> get_header_type b d 0;
                    if \<not> ok then State_Monad.return False
                    else if headerType AND 0x80 \<noteq> 0 then check_functions check_bus b d [1, 2, 3, 4, 5, 6, 7]
                    else State_Monad.return True } }"

fun check_devices :: "(byte \<Rightarrow> bool pci_op) \<Rightarrow> byte \<Rightarrow> byte list \<Rightarrow> bool pci_op" where
  "check_devices check_bus b [] = State_Monad.return True"
| "check_devices check_bus b (d # ds) =
     do { ok \<leftarrow> check_device check_bus b d;
          if ok then check_devices check_bus b ds else State_Monad.return False }"

primrec check_bus :: "nat \<Rightarrow> byte \<Rightarrow> bool pci_op" where
  "check_bus 0 = (\<lambda>b. State_Monad.return False)"
| "check_bus (Suc depth) = (\<lambda>b. check_devices (check_bus depth) b (map of_nat [0..<32]))"

fun check_hosts :: "nat \<Rightarrow> byte list \<Rightarrow> bool pci_op" where
  "check_hosts depth [] = State_Monad.return True"
| "check_hosts depth (f # fs) =
     do { vendorID \<leftarrow> get_vendor_id 0 0 f;
          if vendorID \<noteq> 0xFFFF then State_Monad.return True
          else do { ok \<leftarrow> check_bus depth f;
                    if ok then check_hosts depth fs else State_Monad.return False } }"

definition enumerate_pci :: "nat \<Rightarrow> bool pci_op" where
  "enumerate_pci depth =
     do { State_Monad.update (\<lambda>p. p\<lparr>list_pci_devices := []\<rparr>);
          headerType \<leftarrow> get_header_type 0 0 0;
          if headerType AND 0x80 = 0 then check_bus depth 0
          else check_hosts depth [0, 1, 2, 3, 4, 5, 6, 7] }"

text \<open>
  \<open>assign_bar\<close> sizes a base address register by writing ones, maps the region it decodes and
  restores the register.  \<open>None\<close> in the first component is the null result; the outer \<open>None\<close> a
  page fault while mapping.
\<close>

definition bar_size :: "u32 \<Rightarrow> u32" where
  "bar_size v = NOT (v AND 0xFFFFFFF0) + 1"

definition assign_bar :: "pci \<Rightarrow> mmu \<Rightarrow> u32 \<Rightarrow> PCIDevice \<Rightarrow> byte \<Rightarrow> (u64 option \<times> pci \<times> mmu) option" where
  "assign_bar p m kpid dev bar_num =
     (let off = 0x10 + 4 * bar_num;
          rd = pci_config_read_dword (bus dev) (pslot dev) (pfunc dev) off;
          wr = pci_config_write_dword (bus dev) (pslot dev) (pfunc dev) off;
          (orig, p) = run_state rd p;
          (_, p) = run_state (wr 0xFFFFFFFF) p;
          (v, p) = run_state rd p;
          sz = bar_size v
      in if sz = 0 then Some (None, p, m)
         else do { m \<leftarrow> map_memory_range_with_flags m kpid (ucast orig) (ucast orig + ucast sz - 1) (ucast orig) (1 OR 2 OR 8 OR 4) False;
                   let m = flush_tlb m;
                   let (_, p) = run_state (wr orig) p;
                   Some (Some (ucast orig), p, m) })"

section \<open>What the accessors read\<close>

definition cfg_word :: "(u32 \<Rightarrow> u32) \<Rightarrow> byte \<Rightarrow> byte \<Rightarrow> byte \<Rightarrow> byte \<Rightarrow> u16" where
  "cfg_word c b s f off = ucast (drop_bit (word_shift off) (c (pci_address b s f off)) AND 0xFFFF)"

definition cfg_byte :: "(u32 \<Rightarrow> u32) \<Rightarrow> byte \<Rightarrow> byte \<Rightarrow> byte \<Rightarrow> byte \<Rightarrow> byte" where
  "cfg_byte c b s f off = ucast (cfg_word c b s f off AND 0xFF)"

lemma run_outl [simp]:
  "run_state (outl PCI_CONFIG_ADDRESS v) p = ((), p\<lparr>conf_addr := v\<rparr>)"
  "run_state (outl PCI_CONFIG_DATA v) p = ((), p\<lparr>conf := (conf p)(conf_addr p := latch p (conf_addr p) v)\<rparr>)"
  by (simp_all add: outl_def PCI_CONFIG_ADDRESS_def PCI_CONFIG_DATA_def)

lemma run_inl [simp]: "run_state (inl PCI_CONFIG_DATA) p = (conf p (conf_addr p), p)"
  by (simp add: inl_def PCI_CONFIG_ADDRESS_def PCI_CONFIG_DATA_def)

lemma run_bind [simp]:
  "run_state (m \<bind> f) s = (let (a, s') = run_state m s in run_state (f a) s')"
  by (simp add: State_Monad.bind_def Let_def)

lemma run_update [simp]: "run_state (State_Monad.update f) s = ((), f s)"
  by (simp add: State_Monad.update_def State_Monad.get_def State_Monad.set_def)

lemma run_read_word [simp]:
  "run_state (pci_config_read_word b s f off) p = (cfg_word (conf p) b s f off, p\<lparr>conf_addr := pci_address b s f off\<rparr>)"
  by (simp add: pci_config_read_word_def cfg_word_def)

lemma run_read_low_byte [simp]:
  "run_state (read_low_byte b s f off) p = (cfg_byte (conf p) b s f off, p\<lparr>conf_addr := pci_address b s f off\<rparr>)"
  by (simp add: read_low_byte_def cfg_byte_def)

text \<open>An odd offset reads the byte below it, so the class code read is the subclass.\<close>

lemma cfg_byte_class: "cfg_byte c b s f 0x0B = cfg_byte c b s f 0x0A"
  by (simp add: cfg_byte_def cfg_word_def pci_address_def word_shift_def)

section \<open>The devices found\<close>

definition device_at :: "(u32 \<Rightarrow> u32) \<Rightarrow> byte \<Rightarrow> byte \<Rightarrow> byte \<Rightarrow> PCIDevice" where
  "device_at c b s f =
     \<lparr>bus = b, pslot = s, pfunc = f, vendorId = cfg_word c b s f 0, deviceId = cfg_word c b s f 2,
      pcommand = cfg_word c b s f 4, pstatus = cfg_word c b s f 6, classCode = cfg_byte c b s f 0x0A,
      psubclass = cfg_byte c b s f 0x0A, progIf = cfg_byte c b s f 9\<rparr>"

definition pci_present :: "(u32 \<Rightarrow> u32) \<Rightarrow> byte \<Rightarrow> byte \<Rightarrow> byte \<Rightarrow> bool" where
  "pci_present c b s f \<longleftrightarrow> cfg_word c b s f 0 \<noteq> 0xFFFF"

definition functions_of :: "(u32 \<Rightarrow> u32) \<Rightarrow> byte \<Rightarrow> byte \<Rightarrow> byte list" where
  "functions_of c b d =
     (if \<not> pci_present c b d 0 then []
      else 0 # (if cfg_byte c b d 0 0x0E AND 0x80 \<noteq> 0 then filter (pci_present c b d) [1, 2, 3, 4, 5, 6, 7] else []))"

definition bus_devices :: "(u32 \<Rightarrow> u32) \<Rightarrow> byte \<Rightarrow> PCIDevice list" where
  "bus_devices c b = concat (map (\<lambda>d. map (device_at c b d) (functions_of c b d)) (map of_nat [0..<32]))"

definition found :: "pci \<Rightarrow> u32 \<Rightarrow> PCIDevice list \<Rightarrow> pci" where
  "found p a ds = p\<lparr>conf_addr := a, list_pci_devices := rev ds @ list_pci_devices p\<rparr>"

lemma found_simps [simp]:
  "conf (found p a ds) = conf p" "found (found p a ds) a' ds' = found p a' (ds @ ds')"
  "(found p a ds)\<lparr>conf_addr := a'\<rparr> = found p a' ds" "p\<lparr>conf_addr := a'\<rparr> = found p a' []"
  "list_pci_devices (found p a ds) = rev ds @ list_pci_devices p"
  by (simp_all add: found_def)

lemma check_function_found:
  "run_state (check_function cb b s f) p = (True, found p (pci_address b s f 9) [device_at (conf p) b s f])"
  by (auto simp: check_function_def get_class_code_def get_subclass_def get_vendor_id_def get_product_id_def
      get_command_def get_status_def get_prog_if_def cfg_byte_class device_at_def found_def simp del: found_simps)

lemma check_functions_found:
  "\<exists>a. run_state (check_functions cb b d fs) p = (True, found p a (map (device_at (conf p) b d) (filter (pci_present (conf p) b d) fs)))"
proof (induction fs arbitrary: p)
  case Nil
  show ?case by (intro exI [of _ "conf_addr p"]) (simp add: found_def del: found_simps)
next
  case (Cons f fs)
  show ?case
  proof (cases "pci_present (conf p) b d f")
    case True
    from Cons.IH [of "found p (pci_address b d f 9) [device_at (conf p) b d f]"] True show ?thesis
      by (auto simp: get_vendor_id_def pci_present_def check_function_found)
  next
    case False
    from Cons.IH [of "found p (pci_address b d f 0) []"] False show ?thesis
      by (auto simp: get_vendor_id_def pci_present_def)
  qed
qed

lemma check_device_found:
  "\<exists>a. run_state (check_device cb b d) p = (True, found p a (map (device_at (conf p) b d) (functions_of (conf p) b d)))"
proof -
  let ?q = "found p (pci_address b d 0 0x0E) [device_at (conf p) b d 0]"
  from check_functions_found [of cb b d "[1, 2, 3, 4, 5, 6, 7]" ?q] obtain a where
    "run_state (check_functions cb b d [1, 2, 3, 4, 5, 6, 7]) ?q =
       (True, found ?q a (map (device_at (conf p) b d) (filter (pci_present (conf p) b d) [1, 2, 3, 4, 5, 6, 7])))"
    by auto
  then show ?thesis
    by (auto simp: check_device_def functions_of_def get_vendor_id_def get_header_type_def check_function_found pci_present_def
        simp del: check_functions.simps)
qed

lemma check_devices_found:
  "\<exists>a. run_state (check_devices cb b ds) p =
     (True, found p a (concat (map (\<lambda>d. map (device_at (conf p) b d) (functions_of (conf p) b d)) ds)))"
proof (induction ds arbitrary: p)
  case Nil
  show ?case by (intro exI [of _ "conf_addr p"]) (simp add: found_def del: found_simps)
next
  case (Cons d ds)
  from check_device_found [of cb b d p] obtain a where
    a: "run_state (check_device cb b d) p = (True, found p a (map (device_at (conf p) b d) (functions_of (conf p) b d)))" by auto
  from Cons.IH [of "found p a (map (device_at (conf p) b d) (functions_of (conf p) b d))"] show ?case
    by (auto simp: a)
qed

lemma check_bus_found:
  "\<exists>a. run_state (check_bus (Suc depth) b) p = (True, found p a (bus_devices (conf p) b))"
  using check_devices_found [of "check_bus depth" b "map of_nat [0..<32]" p] by (simp add: bus_devices_def del: check_devices.simps upt_rec_numeral)

text \<open>
  C13. Enumeration always ends, one level of bus recursion being enough, and with a single-function
  host controller it lists exactly the functions present on bus 0, each with its registers, the
  last found first.  Devices behind a bridge are never listed, because the class code read for
  a bridge is its subclass.
\<close>

theorem enumerate_pci_lists_bus_0:
  assumes "cfg_byte (conf p) 0 0 0 0x0E AND 0x80 = 0"
  shows "fst (run_state (enumerate_pci (Suc depth)) p) \<and>
         list_pci_devices (snd (run_state (enumerate_pci (Suc depth)) p)) = rev (bus_devices (conf p) 0)"
proof -
  from check_bus_found [of depth 0 "(p\<lparr>list_pci_devices := []\<rparr>)\<lparr>conf_addr := pci_address 0 0 0 0x0E\<rparr>"] obtain a where
    "run_state (check_bus (Suc depth) 0) ((p\<lparr>list_pci_devices := []\<rparr>)\<lparr>conf_addr := pci_address 0 0 0 0x0E\<rparr>) =
       (True, found ((p\<lparr>list_pci_devices := []\<rparr>)\<lparr>conf_addr := pci_address 0 0 0 0x0E\<rparr>) a (bus_devices (conf p) 0))" by auto
  then show ?thesis
    using assms by (simp add: enumerate_pci_def get_header_type_def del: check_bus.simps)
qed

definition one_host :: pci where
  "one_host = \<lparr>conf_addr = 0,
     conf = (\<lambda>a. if a = 0x80000000 then 0x12378086 else if a = 0x8000000C then 0 else 0xFFFFFFFF),
     latch = (\<lambda>_ v. v), list_pci_devices = []\<rparr>"

theorem enumerate_pci_lists_bus_0_witness:
  "map vendorId (list_pci_devices (snd (run_state (enumerate_pci 1) one_host))) = [0x8086]"
proof -
  have "cfg_byte (conf one_host) 0 0 0 0x0E AND 0x80 = 0" by code_simp
  moreover have "map vendorId (rev (bus_devices (conf one_host) 0)) = [0x8086]" by code_simp
  ultimately show ?thesis using enumerate_pci_lists_bus_0 [of one_host 0] by simp
qed

text \<open>
  When the host controller at 0:0.0 is a multi-function device that exists, enumeration
  lists no device at all: the loop over host controllers stops at the first one present.
\<close>

lemma enumerate_pci_multi_host_empty:
  assumes "cfg_byte (conf p) 0 0 0 0x0E AND 0x80 \<noteq> 0" "pci_present (conf p) 0 0 0"
  shows "list_pci_devices (snd (run_state (enumerate_pci depth) p)) = []"
  using assms by (simp add: enumerate_pci_def get_header_type_def get_vendor_id_def pci_present_def)

lemma enumerate_pci_multi_host_empty_witness:
  "list_pci_devices (snd (run_state (enumerate_pci 5) (one_host\<lparr>conf := \<lambda>a. 0x00801234\<rparr>))) = []"
proof -
  have "cfg_byte (conf (one_host\<lparr>conf := \<lambda>a. 0x00801234\<rparr>)) 0 0 0 0x0E AND 0x80 \<noteq> 0"
    "pci_present (conf (one_host\<lparr>conf := \<lambda>a. 0x00801234\<rparr>)) 0 0 0" by code_simp+
  then show ?thesis by (rule enumerate_pci_multi_host_empty)
qed

section \<open>Register round trip\<close>

lemma bit_two_int: "bit (2 :: int) n \<longleftrightarrow> n = 1"
proof -
  have "(2 :: int) = push_bit 1 1" by simp
  then show ?thesis by (simp only: bit_push_bit_iff) (auto simp: bit_1_iff)
qed

lemma word_shift_cases: "word_shift off = 0 \<and> off AND 2 = 0 \<or> word_shift off = 16 \<and> off AND 2 = 2"
proof -
  have "off AND 2 = (if bit off 1 then 2 else 0)"
    by (rule bit_word_eqI) (auto simp: bit_and_iff bit_two_int)
  then show ?thesis by (auto simp: word_shift_def)
qed

lemma bit_0xFFFF: "bit (0xFFFF :: int) n \<longleftrightarrow> n < 16"
proof -
  have "(0xFFFF :: int) = mask 16" by (simp add: mask_eq_exp_minus_1)
  then show ?thesis by (simp only: bit_mask_iff) auto
qed

text \<open>
  A register that stores what is written to it returns the word last written through
  \<open>pci_config_write_word\<close>, and the other word of the same double word is unchanged.
\<close>

lemma pci_config_word_roundtrip:
  assumes "latch p (pci_address b s f off) = (\<lambda>v. v)"
  shows "let p' = snd (run_state (pci_config_write_word b s f off x) p) in
     fst (run_state (pci_config_read_word b s f off) p') = x \<and>
     fst (run_state (pci_config_read_word b s f (off XOR 2)) p') = fst (run_state (pci_config_read_word b s f (off XOR 2)) p)"
proof -
  let ?a = "pci_address b s f off" and ?k = "word_shift off"
  let ?new = "(conf p ?a AND NOT (push_bit ?k 0xFFFF)) OR push_bit ?k (ucast x)"
  have c: "conf (snd (run_state (pci_config_write_word b s f off x) p)) = (conf p)(?a := ?new)"
    using assms by (simp add: pci_config_write_word_def Let_def del: found_simps)
  have "(off XOR 2) AND 0xFC = off AND 0xFC"
    by (rule bit_word_eqI) (auto simp: bit_and_iff bit_xor_iff bit_two_int)
  then have a: "pci_address b s f (off XOR 2) = ?a" by (simp add: pci_address_def)
  have "(off XOR 2) AND 2 = (off AND 2) XOR 2"
    by (rule bit_word_eqI) (auto simp: bit_simps)
  then have k: "word_shift (off XOR 2) = (if ?k = 0 then 16 else 0)"
    using word_shift_cases [of off] by (auto simp: word_shift_def)
  have "ucast (drop_bit ?k ?new AND 0xFFFF) = x"
    using word_shift_cases [of off] by (intro bit_word_eqI) (auto simp: bit_simps bit_0xFFFF)
  moreover have "(ucast (drop_bit (word_shift (off XOR 2)) ?new AND 0xFFFF) :: u16) =
      ucast (drop_bit (word_shift (off XOR 2)) (conf p ?a) AND 0xFFFF)"
    using word_shift_cases [of off] by (intro bit_word_eqI) (auto simp: k bit_simps bit_0xFFFF dest: bit_imp_le_length)
  ultimately show ?thesis by (simp add: Let_def c cfg_word_def a)
qed

lemma pci_config_word_roundtrip_witness:
  "fst (run_state (pci_config_read_word 0 3 0 0x3E) (snd (run_state (pci_config_write_word 0 3 0 0x3E 0xBEEF) one_host))) = 0xBEEF"
  using pci_config_word_roundtrip [of one_host 0 3 0 "0x3E" "0xBEEF"] by (simp add: one_host_def Let_def)

end
