(* ===== verification/Disk.thy ===== *)
theory Disk
  imports LinkedList Paging Ahci
begin

text \<open>
  The disk layer, \<open>kernel/driver/disk.c\<close>, and the part of \<open>kernel/driver/ahci.c\<close> that creates
  disks.  \<open>read_disk\<close> and \<open>write_disk\<close> compose the heap (the temporary sector buffer), the
  page tables (the buffer is remapped uncached around the transfer) and the AHCI commands.
  The kernel's identity mapping makes the buffer's address the one the controller uses.
\<close>

section \<open>Disks\<close>

record disk =
  disk_id :: u64
  disk_port :: nat
  disk_size :: u64

definition SECTOR_SIZE :: u64 where "SECTOR_SIZE = 512"

text \<open>
  \<open>find_disk\<close> returns the last drive of the list when none has the id, and an uninitialised
  pointer, \<open>None\<close>, when the list is empty.
\<close>

fun find_disk :: "disk list \<Rightarrow> u64 \<Rightarrow> disk option" where
  "find_disk [] i = None"
| "find_disk [d] i = Some d"
| "find_disk (d # ds) i = (if disk_id d = i then Some d else find_disk ds i)"

record kernel_io =
  hp :: heap_mem
  mm :: mmu
  list_drives :: "disk list"
  images :: "nat \<Rightarrow> u64 \<Rightarrow> byte"

text \<open>
  Unaligned offsets read from \<open>buffer_temp + offset % SECTOR_SIZE\<close>, wherever that leads.  The
  arguments \<open>as\<close> and \<open>cmdslots\<close> are the device's answers and the number of command slots.
\<close>

definition read_disk :: "kernel_io \<Rightarrow> ahci_attempt list \<Rightarrow> nat \<Rightarrow> u32 \<Rightarrow> u64 \<Rightarrow> u64 \<Rightarrow> u64 \<Rightarrow> u64 \<Rightarrow> kernel_io option" where
  "read_disk s as cmdslots kpid i offset sz buffer =
     do { d \<leftarrow> find_disk (list_drives s) i;
          let offset_sectors = offset div SECTOR_SIZE;
          let size_sectors = UPPER_DIVIDE sz SECTOR_SIZE;
          (h, tmp) \<leftarrow> malloc (hp s) (size_sectors * SECTOR_SIZE);
          m \<leftarrow> map_memory_range_with_flags (mm s) kpid tmp (tmp + size_sectors * SECTOR_SIZE - 1) tmp
                 (PAGE_MAP_FLAGS OR 8) True;
          let m = flush_tlb m;
          (b, _) \<leftarrow> read_ahci (bytes h) (images s (disk_port d)) as cmdslots offset_sectors (ucast size_sectors) tmp;
          m \<leftarrow> map_memory_range_with_flags m kpid tmp (tmp + size_sectors * SECTOR_SIZE - 1) tmp PAGE_MAP_FLAGS True;
          let m = flush_tlb m;
          let b = fst (memcpy b buffer (tmp + offset mod SECTOR_SIZE) sz);
          h \<leftarrow> free (h\<lparr>bytes := b\<rparr>) tmp;
          Some (s\<lparr>hp := h, mm := m\<rparr>) }"

text \<open>
  \<open>write_disk\<close> copies the data to \<open>buffer_temp + (offset_sectors * 512 - offset)\<close>, which for an
  offset inside a sector lies below the buffer, on the header of its chunk: such a copy is
  undefined, \<open>None\<close>.
\<close>

definition write_disk :: "kernel_io \<Rightarrow> ahci_attempt list \<Rightarrow> ahci_attempt list \<Rightarrow> nat \<Rightarrow> u32 \<Rightarrow> u64 \<Rightarrow> u64 \<Rightarrow> u64 \<Rightarrow> u64 \<Rightarrow> kernel_io option" where
  "write_disk s ras was cmdslots kpid i offset sz buffer =
     do { d \<leftarrow> find_disk (list_drives s) i;
          let offset_sectors = offset div SECTOR_SIZE;
          let size_sectors = UPPER_DIVIDE sz SECTOR_SIZE;
          (h, tmp) \<leftarrow> malloc (hp s) (size_sectors * SECTOR_SIZE);
          m \<leftarrow> map_memory_range_with_flags (mm s) kpid tmp (tmp + size_sectors * SECTOR_SIZE - 1) tmp
                 (PAGE_MAP_FLAGS OR 8) True;
          let m = flush_tlb m;
          (b, _) \<leftarrow> read_ahci (bytes h) (images s (disk_port d)) ras cmdslots offset_sectors (ucast size_sectors) tmp;
          let dst = tmp + (offset_sectors * 512 - offset);
          b \<leftarrow> (if sz \<noteq> 0 \<and> dst \<noteq> tmp then None else Some (fst (memcpy b dst buffer sz)));
          (img, _) \<leftarrow> write_ahci b (images s (disk_port d)) was cmdslots offset_sectors (ucast size_sectors) tmp;
          m \<leftarrow> map_memory_range_with_flags m kpid tmp (tmp + size_sectors * SECTOR_SIZE - 1) tmp PAGE_MAP_FLAGS True;
          let m = flush_tlb m;
          h \<leftarrow> free (h\<lparr>bytes := b\<rparr>) tmp;
          Some (s\<lparr>hp := h, mm := m, images := (images s)(disk_port d := img)\<rparr>) }"

section \<open>Drive discovery\<close>

text \<open>
  The state of the controller set-up: memory, page tables, the use of the device memory area,
  the port registers and the drives found so far.
\<close>

record probe =
  ram :: mem
  pmm :: mmu
  hw_used :: u64
  ports :: "nat \<Rightarrow> HBA_PORT"
  drives :: "disk list"
  last_disk_id :: u64

definition hw_alloc :: "probe \<Rightarrow> u32 \<Rightarrow> u64 \<Rightarrow> u64 \<Rightarrow> (probe \<times> u64) option" where
  "hw_alloc s kpid sz al =
     do { (m, used, a) \<leftarrow> hardware_allocate_mem (pmm s) kpid (hw_used s) sz al;
          Some (s\<lparr>pmm := m, hw_used := used\<rparr>, a) }"

definition clear :: "probe \<Rightarrow> u64 \<Rightarrow> u64 \<Rightarrow> probe" where
  "clear s a n = s\<lparr>ram := fst (memset (ram s) a 0 n)\<rparr>"

text \<open>Command header \<open>i\<close> is 32 bytes: \<open>prdtl\<close> at offset 2, \<open>ctba\<close> at offset 8.\<close>

fun rebase_headers :: "probe \<Rightarrow> u32 \<Rightarrow> u64 \<Rightarrow> nat list \<Rightarrow> probe option" where
  "rebase_headers s kpid hdrs [] = Some s"
| "rebase_headers s kpid hdrs (i # is) =
     do { let s = s\<lparr>ram := write16 (ram s) (hdrs + 32 * of_nat i + 2) 8\<rparr>;
          (s, t) \<leftarrow> hw_alloc s kpid 0x100 0x100;
          let s = s\<lparr>ram := write64 (ram s) (hdrs + 32 * of_nat i + 8) t\<rparr>;
          let s = clear s t 0x100;
          rebase_headers s kpid hdrs is }"

definition port_rebase :: "probe \<Rightarrow> u32 \<Rightarrow> nat \<Rightarrow> probe option" where
  "port_rebase s kpid i =
     do { let s = s\<lparr>ports := (ports s)(i := stop_cmd (ports s i))\<rparr>;
          (s, a) \<leftarrow> hw_alloc s kpid 0x400 0x400;
          let s = s\<lparr>ports := (ports s)(i := (ports s i)\<lparr>clb := a\<rparr>)\<rparr>;
          let s = clear s a 0x400;
          (s, f) \<leftarrow> hw_alloc s kpid 0x100 0x100;
          let s = s\<lparr>ports := (ports s)(i := (ports s i)\<lparr>fb := f\<rparr>)\<rparr>;
          let s = clear s f 0x100;
          s \<leftarrow> rebase_headers s kpid a [0..<32];
          Some (s\<lparr>ports := (ports s)(i := start_cmd (ports s i))\<rparr>) }"

text \<open>
  The size is computed in 32 bits from words 60 and 61 of the identify data.  The identify data
  and the answers of each port's device are the functions \<open>ident\<close> and \<open>as\<close>.
\<close>

definition identified_size :: "mem \<Rightarrow> u64 \<Rightarrow> u64" where
  "identified_size m ata_id = ucast (read32 m (ata_id + 120) * 512 :: u32)"

definition probe_sata :: "probe \<Rightarrow> u32 \<Rightarrow> nat \<Rightarrow> (nat \<Rightarrow> byte list) \<Rightarrow> (nat \<Rightarrow> ahci_attempt list) \<Rightarrow> nat \<Rightarrow> probe option" where
  "probe_sata s kpid cmdslots ident as i =
     do { s \<leftarrow> port_rebase s kpid i;
          (s, ata_id) \<leftarrow> hw_alloc s kpid 512 0;
          (b, _) \<leftarrow> get_identify_sata (ram s) (ident i) (as i) cmdslots ata_id;
          let s = s\<lparr>ram := b\<rparr>;
          (s, _) \<leftarrow> hw_alloc s kpid 72 0;
          let d = \<lparr>disk_id = last_disk_id s, disk_port = i, disk_size = identified_size (ram s) ata_id\<rparr>;
          (s, _) \<leftarrow> hw_alloc (s\<lparr>last_disk_id := last_disk_id s + 1\<rparr>) kpid 16 0;
          Some (s\<lparr>drives := d # drives s\<rparr>) }"

fun probe_ports :: "probe \<Rightarrow> u32 \<Rightarrow> nat \<Rightarrow> (nat \<Rightarrow> byte list) \<Rightarrow> (nat \<Rightarrow> ahci_attempt list) \<Rightarrow> u32 \<Rightarrow> nat list \<Rightarrow> probe option" where
  "probe_ports s kpid cmdslots ident as pi_reg [] = Some s"
| "probe_ports s kpid cmdslots ident as pi_reg (i # is) =
     do { s \<leftarrow> (if pi_reg AND 1 \<noteq> 0
                then let s = s\<lparr>ports := (ports s)(i := port_reset (ports s i))\<rparr>
                     in if check_type (ports s i) = AHCI_DEV_SATA then probe_sata s kpid cmdslots ident as i else Some s
                else Some s);
          probe_ports s kpid cmdslots ident as (drop_bit 1 pi_reg) is }"

definition probe_port :: "probe \<Rightarrow> u32 \<Rightarrow> nat \<Rightarrow> (nat \<Rightarrow> byte list) \<Rightarrow> (nat \<Rightarrow> ahci_attempt list) \<Rightarrow> u32 \<Rightarrow> probe option" where
  "probe_port s kpid cmdslots ident as pi_reg = probe_ports s kpid cmdslots ident as pi_reg [0..<32]"

section \<open>Blocks and the sector buffer\<close>

lemma bytes_at_put_inside:
  "r + n \<le> length bs \<Longrightarrow> length bs \<le> 2 ^ 64 \<Longrightarrow> bytes_at (put_bytes m p bs) (p + of_nat r) n = take n (drop r bs)"
proof (rule nth_equalityI)
  fix i
  assume a: "r + n \<le> length bs" "length bs \<le> 2 ^ 64" "i < length (bytes_at (put_bytes m p bs) (p + of_nat r) n)"
  then have "put_bytes m p bs (p + of_nat (r + i)) = bs ! (r + i)" by (intro put_bytes_in) auto
  then show "bytes_at (put_bytes m p bs) (p + of_nat r) n ! i = take n (drop r bs) ! i"
    using a by (simp add: add.assoc)
qed simp

lemma take_drop_bytes_at: "r + n \<le> k \<Longrightarrow> take n (drop r (bytes_at m p k)) = bytes_at m (p + of_nat r) n"
  by (rule nth_equalityI) (auto simp: add.assoc)

lemma contents_with_bytes:
  "live h P \<Longrightarrow> q \<in> P \<Longrightarrow> contents (h\<lparr>bytes := m\<rparr>) q = bytes_at m q (length (contents h q))"
  using contents_bytes [of "h\<lparr>bytes := m\<rparr>" P q] by simp

lemma freeable_bytes [simp]: "freeable (h\<lparr>bytes := m\<rparr>) p = freeable h p"
  by (simp add: freeable_def)

lemma store_in_block:
  assumes "live h P" "p \<in> P" "q \<in> P" "q \<noteq> p" "length bs \<le> length (contents h p)"
  shows "contents (h\<lparr>bytes := put_bytes (bytes h) p bs\<rparr>) q = contents h q"
proof -
  have "bytes_at (put_bytes (bytes h) p bs) q (length (contents h q)) = bytes_at (bytes h) q (length (contents h q))"
    using live_bound [OF assms(1)] assms kernel_heap.apart_law [OF assms(1,2,3)]
    by (intro bytes_at_put_other) fastforce+
  then show ?thesis using contents_with_bytes [OF assms(1,3)] contents_bytes [OF assms(1,3)] by simp
qed

lemma malloc_fresh_freeable:
  "unsorted_bin_head (heap h) = 0 \<Longrightarrow> malloc h n = Some (h', p) \<Longrightarrow> freeable h' p"
  by (subst (asm) malloc_def)
    (auto simp: Let_def find_free.simps [of _ 0] grow_heap_def sbrk_def link_allocated_eq freeable_def split: if_splits)

lemma dll_0: "dll ck 0 b bs \<Longrightarrow> bs = []"
  by (cases bs) auto

text \<open>The sector buffer of a transfer of \<open>k\<close> sectors: taken at the heap end, remapped, given back.\<close>

lemma unat_sectors:
  assumes "0 < unat sz" "unat sz \<le> 65535 * 512"
  shows "unat (UPPER_DIVIDE sz SECTOR_SIZE) = (unat sz + 511) div 512"
    "unat (ucast (UPPER_DIVIDE sz SECTOR_SIZE) :: u32) = (unat sz + 511) div 512"
    "unat (UPPER_DIVIDE sz SECTOR_SIZE * SECTOR_SIZE) = 512 * ((unat sz + 511) div 512)"
    "0 < (unat sz + 511) div 512" "(unat sz + 511) div 512 \<le> 65535"
proof -
  have "unat (sz + 511) = unat sz + 511" using assms by (subst unat_word_ariths(1)) simp
  then have "unat ((sz + 511) div 512) = (unat sz + 511) div 512" by (simp add: unat_div)
  moreover have "UPPER_DIVIDE sz SECTOR_SIZE = (sz + 511) div 512"
    by (simp add: UPPER_DIVIDE_def SECTOR_SIZE_def add.commute)
  ultimately show u: "unat (UPPER_DIVIDE sz SECTOR_SIZE) = (unat sz + 511) div 512" by simp
  show "0 < (unat sz + 511) div 512" using assms by (simp add: div_greater_zero_iff)
  show b: "(unat sz + 511) div 512 \<le> 65535" using assms by linarith
  show "unat (ucast (UPPER_DIVIDE sz SECTOR_SIZE) :: u32) = (unat sz + 511) div 512"
    using b by (simp add: unsigned_ucast_eq u take_bit_nat_eq_self)
  show "unat (UPPER_DIVIDE sz SECTOR_SIZE * SECTOR_SIZE) = 512 * ((unat sz + 511) div 512)"
    using b u by (subst unat_word_ariths(2)) (simp add: SECTOR_SIZE_def mult.commute)
qed

lemma loaded_flush: "loaded s r \<Longrightarrow> loaded (flush_tlb s) r" "frames_ok (allocator s) \<Longrightarrow> frames_ok (allocator (flush_tlb s))"
  by (simp_all add: flush_tlb_def set_pml4_address_def get_pml4_address_def)

definition io_ready :: "kernel_io \<Rightarrow> u64 set \<Rightarrow> u64 \<Rightarrow> u32 \<Rightarrow> bool" where
  "io_ready s P r kpid \<longleftrightarrow> live (hp s) P \<and> unsorted_bin_head (heap (hp s)) = 0 \<and>
     unat (heap_end (heap (hp s))) + 2 ^ 32 \<le> 2 ^ 38 \<and>
     loaded (mm s) r \<and> frames_ok (allocator (mm s)) \<and> (ucast kpid :: byte) \<noteq> 0"

lemma sector_buffer:
  assumes "io_ready s P r kpid" "unat n \<le> 2 ^ 25" "0 < unat n"
  shows "\<exists>h tmp. malloc (hp s) n = Some (h, tmp) \<and> live h (insert tmp P) \<and> tmp \<notin> P \<and> freeable h tmp \<and>
     unat n \<le> length (contents h tmp) \<and> (\<forall>q \<in> P. contents h q = contents (hp s) q) \<and>
     unat (tmp + n - 1) + 4096 \<le> 2 ^ 39"
proof -
  have rd: "ready (hp s) n" using assms by (simp add: io_ready_def ready_def)
  have lv: "live (hp s) P" and bin: "unsorted_bin_head (heap (hp s)) = 0" using assms(1) by (simp_all add: io_ready_def)
  from lv obtain as bs where inv: "heap_inv (hp s) as bs" by (auto simp: live_def)
  then have "bs = []" using bin dll_0 by (auto simp: heap_inv_def)
  with malloc_spec [OF inv, of n] assms(1,2) obtain h where "malloc (hp s) n = Some (h, heap_end (heap (hp s)) + 32)"
    by (auto simp: io_ready_def)
  with kernel_heap.alloc_law [OF lv rd] malloc_fresh_freeable [OF bin] obtain tmp where
    *: "malloc (hp s) n = Some (h, tmp)" "live h (insert tmp P)" "tmp \<notin> P" "freeable h tmp" "unat n \<le> length (contents h tmp)"
    "\<forall>q \<in> P. contents h q = contents (hp s) q" and t: "tmp = heap_end (heap (hp s)) + 32" by auto
  have "unat tmp = unat (heap_end (heap (hp s))) + 32"
    using assms(1) unfolding t by (subst unat_word_ariths(1)) (simp add: io_ready_def)
  moreover have "unat (n - 1) = unat n - 1" using assms(3) by (subst unat_minus_one) auto
  ultimately have "unat (tmp + n - 1) = unat (heap_end (heap (hp s))) + 32 + (unat n - 1)"
    using assms unfolding add_diff_eq [symmetric] by (subst unat_word_ariths(1)) (simp add: io_ready_def)
  with * assms show ?thesis by (auto simp: io_ready_def)
qed

lemma remap:
  assumes "io_ready s P r kpid" "unat e + 4096 \<le> 2 ^ 39"
  shows "\<exists>m1 m2. map_memory_range_with_flags (mm s) kpid a e a (PAGE_MAP_FLAGS OR 8) True = Some m1 \<and>
     map_memory_range_with_flags (flush_tlb m1) kpid a e a PAGE_MAP_FLAGS True = Some m2"
proof -
  have p: "present (PAGE_MAP_FLAGS OR 8)" "present PAGE_MAP_FLAGS" by (simp_all add: present_def PAGE_MAP_FLAGS_def)
  from map_memory_range_total [OF _ _ _ p(1) assms(2), of "mm s" r kpid a a True] assms(1) obtain m1 where
    m1: "map_memory_range_with_flags (mm s) kpid a e a (PAGE_MAP_FLAGS OR 8) True = Some m1" "loaded m1 r" "frames_ok (allocator m1)"
    by (auto simp: io_ready_def)
  from map_memory_range_total [OF loaded_flush(1) [OF m1(2)] loaded_flush(2) [OF m1(3)] _ p(2) assms(2), of kpid a a True] assms(1)
  show ?thesis using m1(1) by (auto simp: io_ready_def)
qed

text \<open>Both transfers start by reading the sectors into the buffer.\<close>

lemma sectors_read:
  assumes "io_ready s P r kpid" "completes as cmdslots" "0 < unat sz" "unat sz \<le> 65535 * 512" "unat offset < 2 ^ 57"
  defines "ss \<equiv> UPPER_DIVIDE sz SECTOR_SIZE" and "k \<equiv> (unat sz + 511) div 512"
  defines "n \<equiv> ss * SECTOR_SIZE"
  shows "\<exists>h tmp m1 m2 b. malloc (hp s) n = Some (h, tmp) \<and> live h (insert tmp P) \<and> tmp \<notin> P \<and> freeable h tmp \<and>
     512 * k \<le> length (contents h tmp) \<and> (\<forall>q \<in> P. contents h q = contents (hp s) q) \<and>
     map_memory_range_with_flags (mm s) kpid tmp (tmp + n - 1) tmp (PAGE_MAP_FLAGS OR 8) True = Some m1 \<and>
     map_memory_range_with_flags (flush_tlb m1) kpid tmp (tmp + n - 1) tmp PAGE_MAP_FLAGS True = Some m2 \<and>
     b = put_bytes (bytes h) tmp (bytes_at img (offset div SECTOR_SIZE * SECTOR_SIZE) (512 * k)) \<and>
     read_ahci (bytes h) img as cmdslots (offset div SECTOR_SIZE) (ucast ss) tmp = Some (b, True) \<and>
     (\<forall>q \<in> P. contents (h\<lparr>bytes := b\<rparr>) q = contents (hp s) q)"
proof -
  note u = unat_sectors [OF assms(3,4), folded ss_def k_def, folded n_def]
  have n: "unat n \<le> 2 ^ 25" "0 < unat n" using u by auto
  obtain h tmp where t: "malloc (hp s) n = Some (h, tmp)" "live h (insert tmp P)" "tmp \<notin> P" "freeable h tmp"
    "unat n \<le> length (contents h tmp)" "\<forall>q \<in> P. contents h q = contents (hp s) q" "unat (tmp + n - 1) + 4096 \<le> 2 ^ 39"
    using sector_buffer [OF assms(1) n] by blast
  let ?b = "put_bytes (bytes h) tmp (bytes_at img (offset div SECTOR_SIZE * SECTOR_SIZE) (512 * k))"
  have os: "unat (offset div SECTOR_SIZE) < 2 ^ 48" using assms(5) by (simp add: SECTOR_SIZE_def unat_div)
  from read_ahci_completes [OF assms(2) os, of "ucast ss" "bytes h" img tmp] u have
    rd: "read_ahci (bytes h) img as cmdslots (offset div SECTOR_SIZE) (ucast ss) tmp = Some (?b, True)" by (simp add: SECTOR_SIZE_def)
  have "contents (h\<lparr>bytes := ?b\<rparr>) q = contents h q" if "q \<in> P" for q
    using that t u(3) by (intro store_in_block [OF t(2)]) auto
  moreover obtain m1 m2 where "map_memory_range_with_flags (mm s) kpid tmp (tmp + n - 1) tmp (PAGE_MAP_FLAGS OR 8) True = Some m1"
    "map_memory_range_with_flags (flush_tlb m1) kpid tmp (tmp + n - 1) tmp PAGE_MAP_FLAGS True = Some m2"
    using remap [OF assms(1) t(7)] by blast
  ultimately show ?thesis using t u(3) rd by (intro exI conjI) auto
qed

lemma memcpy_blocks:
  assumes "live h P" "p \<in> P" "q \<in> P" "p \<noteq> q" "i + unat n \<le> length (contents h p)" "j + unat n \<le> length (contents h q)"
  shows "fst (memcpy m (p + of_nat i) (q + of_nat j) n) = put_bytes m (p + of_nat i) (bytes_at m (q + of_nat j) (unat n))"
proof -
  note b = live_bound [OF assms(1,2)] live_bound [OF assms(1,3)] kernel_heap.apart_law [OF assms(1-4)]
  have "p + of_nat i + of_nat a \<noteq> q + of_nat j + of_nat c" if "a < c" "c < unat n" for a c
  proof -
    have "(p + of_nat (i + a) = q + of_nat (j + c)) = (unat p + (i + a) = unat q + (j + c))"
      using b assms(5,6) that by (intro add_of_nat_eq_iff) linarith+
    then show ?thesis using b(3) assms(5,6) that by (simp add: add.assoc [symmetric]) linarith
  qed
  then show ?thesis using unat_lt_64 [of n] by (simp add: memcpy_def memcpy_from_eq [where i = 0, simplified])
qed

section \<open>Correctness\<close>

text \<open>A kernel state with one live block and one disk, and a device that answers at the second poll.\<close>

definition io_example :: kernel_io where
  "io_example = \<lparr>hp = (case malloc fresh_heap 100 of None \<Rightarrow> fresh_heap | Some (h, _) \<Rightarrow> h), mm = small_mmu,
     list_drives = [\<lparr>disk_id = 0, disk_port = 0, disk_size = 0x100000\<rparr>], images = (\<lambda>_ _. 7)\<rparr>"

definition quick_device :: "ahci_attempt list" where
  "quick_device = [\<lparr>port_at = \<lparr>clb = 0, fb = 0, is_reg = 0, cmd_reg = 0, tfd = 0, sig = 0, ssts = 0, sctl = 0, sact = 1, ci = 2\<rparr>,
     polls = [(4, 0), (0, 0)], moved = 0\<rparr>]"

lemma quick_device_completes: "completes quick_device 32"
proof -
  have "find_cmdslot (port_at (hd quick_device)) 32 = Some 2" by code_simp
  then show ?thesis by (simp add: completes_def quick_device_def READ_TIMEOUT_def)
qed

lemma io_example_ready: "io_ready io_example {0x2000060} 0x2000 1" "100 \<le> length (contents (hp io_example) 0x2000060)"
proof -
  have i: "heap_inv fresh_heap [] []" unfolding fresh_heap_def by (rule init_heap_inv) simp
  have e: "heap_end (heap fresh_heap) = 0x2000040"
    by (simp add: fresh_heap_def init_heap_def brk_def aalign_def Let_def)
  from malloc_spec [OF i, of 100] obtain h where h: "malloc fresh_heap 100 = Some (h, 0x2000060)" "heap_inv h [0x2000040] []"
    "132 \<le> unat (mchunk_size (chunk h 0x2000040))" by (auto simp: e)
  have x: "hp io_example = h" by (simp add: io_example_def h)
  have b: "case malloc fresh_heap 100 of None \<Rightarrow> False
    | Some (h, _) \<Rightarrow> unsorted_bin_head (heap h) = 0 \<and> heap_end (heap h) = 0x20000C0 + 64 * 1" by code_simp
  have "live h {0x2000060}" using h(2) unfolding live_def by (intro exI conjI) auto
  with b h(1) small_mmu_loaded show "io_ready io_example {0x2000060} 0x2000 1"
    by (simp add: io_ready_def x) (simp add: io_example_def)
  show "100 \<le> length (contents (hp io_example) 0x2000060)"
    using h(3) by (simp add: x contents_def payload_def)
qed



lemma put_bytes_keep:
  assumes "length bs \<le> n" "n \<le> 2 ^ 64"
  shows "put_bytes m p (bs @ drop (length bs) (bytes_at m p n)) = put_bytes m p bs"
proof
  fix a
  show "put_bytes m p (bs @ drop (length bs) (bytes_at m p n)) a = put_bytes m p bs a"
    using assms by (auto simp: put_bytes_def nth_append word_unat_eq_iff)
qed

lemma bytes_at_put_prefix:
  assumes "length bs \<le> n" "n \<le> 2 ^ 64"
  shows "bytes_at (put_bytes m p bs) p n = bs @ drop (length bs) (bytes_at m p n)"
  using assms by (intro nth_equalityI) (auto simp: put_bytes_def nth_append unat_simps)

text \<open>The copy into the sector buffer, and the sectors written back from it.\<close>

lemma write_buffer:
  assumes "live h (insert tmp P)" "tmp \<notin> P" "k \<le> length (contents h tmp)"
    and same: "\<forall>q \<in> P. contents (h\<lparr>bytes := b\<rparr>) q = C q"
    and buf: "buffer \<in> P" "unat sz \<le> length (C buffer)" and sz: "unat sz \<le> k"
  shows "fst (memcpy b tmp buffer sz) = put_bytes b tmp (take (unat sz) (C buffer))"
    "\<forall>q \<in> P. contents (h\<lparr>bytes := put_bytes b tmp (take (unat sz) (C buffer))\<rparr>) q = C q"
proof -
  have l: "live (h\<lparr>bytes := b\<rparr>) (insert tmp P)" using assms(1) by simp
  have "contents (h\<lparr>bytes := b\<rparr>) buffer = bytes_at b buffer (length (C buffer))"
    using contents_bytes [OF l, of buffer] same buf(1) by simp
  then have "bytes_at b buffer (unat sz) = take (unat sz) (C buffer)"
    using same buf bytes_at_prefix [OF buf(2), of b buffer] by simp
  then show "fst (memcpy b tmp buffer sz) = put_bytes b tmp (take (unat sz) (C buffer))"
    using memcpy_blocks [OF l, of tmp buffer 0 sz 0 b] assms(2,3) same buf sz by auto
  show "\<forall>q \<in> P. contents (h\<lparr>bytes := put_bytes b tmp (take (unat sz) (C buffer))\<rparr>) q = C q"
    using store_in_block [OF l, of tmp _ "take (unat sz) (C buffer)"] same assms(2,3) sz by fastforce
qed

lemma written_image:
  assumes "b = put_bytes m tmp (bytes_at img p n)" "length src \<le> n" "n \<le> 2 ^ 64"
  shows "put_bytes img p (bytes_at (put_bytes b tmp src) tmp n) = put_bytes img p src"
proof -
  have "bytes_at b tmp n = bytes_at img p n"
    using bytes_at_put_bytes [of "bytes_at img p n" m tmp] assms by simp
  then show ?thesis using put_bytes_keep [OF assms(2,3), of img p] by (simp add: bytes_at_put_prefix [OF assms(2,3)])
qed



end
