(* ===== verification/Path.thy ===== *)
theory Path
  imports LibcString
begin

text \<open>
  Paths as the file system code sees them: \<open>preprocess_path\<close> of
  \<open>kernel/arch/x86_64/vfs.c\<close> and the split into segments that \<open>vfs_get_node\<close> and
  \<open>ext2_get_inode_number_at_path\<close> make with \<open>strchr\<close>.  A path is the list of bytes of its C
  string, without the terminator.
\<close>

section \<open>Normalisation\<close>

definition PATH_SEPERATOR :: byte where "PATH_SEPERATOR = ch (CHR ''/'')"

fun collapse :: "bool \<Rightarrow> byte list \<Rightarrow> byte list" where
  "collapse last_was_slash [] = []"
| "collapse last_was_slash (c # cs) =
     (if c = 0 \<or> isspace (sint c) then []
      else if c = PATH_SEPERATOR
        then if last_was_slash then collapse True cs else PATH_SEPERATOR # collapse True cs
      else c # collapse False cs)"

function strip_trailing :: "byte list \<Rightarrow> byte list" where
  "strip_trailing xs =
     (if 1 < length xs \<and> last xs = PATH_SEPERATOR then strip_trailing (butlast xs) else xs)"
  by auto
termination by (relation "measure length") auto

declare strip_trailing.simps [simp del]

text \<open>An empty path gives NULL.\<close>

definition preprocess_path :: "byte list \<Rightarrow> byte list option" where
  "preprocess_path s = (if s = [] then None else Some (strip_trailing (collapse False s)))"

text \<open>
  The loops over a path read the segment up to the next separator or the terminator; the
  byte after the terminator, where the last turn looks, is zero in a freshly cleared buffer.
\<close>

definition segment :: "byte list \<Rightarrow> byte list" where
  "segment p = takeWhile (\<lambda>c. c \<noteq> PATH_SEPERATOR) p"

definition after_segment :: "byte list \<Rightarrow> byte list" where
  "after_segment p = dropWhile (\<lambda>c. c \<noteq> PATH_SEPERATOR) p"

lemma length_after_segment: "length (after_segment p) \<le> length p"
  by (simp add: after_segment_def length_dropWhile_le)

definition skip_root :: "byte list \<Rightarrow> byte list" where
  "skip_root p = (case p of [] \<Rightarrow> [] | c # cs \<Rightarrow> if c = PATH_SEPERATOR then cs else p)"

text \<open>All the segments of a path.\<close>

function segments :: "byte list \<Rightarrow> byte list list" where
  "segments p = (if p = [] then [] else segment p # segments (drop 1 (after_segment p)))"
  by auto
termination
proof (relation "measure length")
  fix p :: "byte list"
  assume "p \<noteq> []"
  then show "(drop 1 (after_segment p), p) \<in> measure length"
    using length_after_segment [of p] by (cases "after_segment p") auto
qed simp

declare segments.simps [simp del]

section \<open>Normal forms\<close>

text \<open>A normal path has no white space, no empty segment and no separator at the end.\<close>

definition clean :: "byte list \<Rightarrow> bool" where
  "clean p \<longleftrightarrow> (\<forall>c \<in> set p. c \<noteq> 0 \<and> \<not> isspace (sint c)) \<and>
     (\<forall>i. Suc i < length p \<longrightarrow> p ! i = PATH_SEPERATOR \<longrightarrow> p ! Suc i \<noteq> PATH_SEPERATOR)"

definition normal_path :: "byte list \<Rightarrow> bool" where
  "normal_path p \<longleftrightarrow> clean p \<and> (1 < length p \<longrightarrow> last p \<noteq> PATH_SEPERATOR)"

lemma sep_not_space: "PATH_SEPERATOR \<noteq> 0" "\<not> isspace (sint PATH_SEPERATOR)"
  by (simp_all add: PATH_SEPERATOR_def isspace_def)

lemma collapse_clean:
  "clean (collapse l s) \<and> (l \<longrightarrow> (\<forall>c cs. collapse l s = c # cs \<longrightarrow> c \<noteq> PATH_SEPERATOR))"
proof (induction l s rule: collapse.induct)
  case (1 l)
  then show ?case by (simp add: clean_def)
next
  case (2 l c cs)
  have step: "clean (c # xs)" if "clean xs" "c \<noteq> 0" "\<not> isspace (sint c)"
    "c = PATH_SEPERATOR \<longrightarrow> (\<forall>d ds. xs = d # ds \<longrightarrow> d \<noteq> PATH_SEPERATOR)" for xs
    unfolding clean_def
  proof (intro conjI allI impI)
    show "\<forall>d \<in> set (c # xs). d \<noteq> 0 \<and> \<not> isspace (sint d)" using that by (auto simp: clean_def)
    fix i
    assume "Suc i < length (c # xs)" "(c # xs) ! i = PATH_SEPERATOR"
    then show "(c # xs) ! Suc i \<noteq> PATH_SEPERATOR"
      using that by (cases i; cases xs) (auto simp: clean_def)
  qed
  consider "c = 0 \<or> isspace (sint c)" | "c = PATH_SEPERATOR" l | "c = PATH_SEPERATOR" "\<not> l"
    | "c \<noteq> 0" "\<not> isspace (sint c)" "c \<noteq> PATH_SEPERATOR" by blast
  then show ?case
  proof cases
    case 1
    then show ?thesis by (simp add: clean_def)
  next
    case 2
    with "2.IH"(1) sep_not_space show ?thesis by simp
  next
    case 3
    with "2.IH"(2) sep_not_space step [of "collapse True cs"] show ?thesis by simp
  next
    case 4
    with "2.IH"(3) step [of "collapse False cs"] show ?thesis by simp
  qed
qed

lemma clean_butlast: "clean p \<Longrightarrow> clean (butlast p)"
  unfolding clean_def by (auto simp: nth_butlast dest: in_set_butlastD)

lemma strip_trailing_normal: "clean p \<Longrightarrow> normal_path (strip_trailing p)"
proof (induction p rule: strip_trailing.induct)
  case (1 p)
  then show ?case
    by (subst strip_trailing.simps) (auto simp: normal_path_def clean_butlast)
qed

lemma collapse_id: "clean p \<Longrightarrow> (l \<longrightarrow> (\<forall>c cs. p = c # cs \<longrightarrow> c \<noteq> PATH_SEPERATOR)) \<Longrightarrow> collapse l p = p"
proof (induction p arbitrary: l)
  case Nil
  then show ?case by simp
next
  case (Cons c cs)
  have "clean cs" using Cons.prems(1) unfolding clean_def by (metis Suc_less_eq length_Cons list.set_intros(2) nth_Cons_Suc)
  moreover have "c = PATH_SEPERATOR \<longrightarrow> (\<forall>d ds. cs = d # ds \<longrightarrow> d \<noteq> PATH_SEPERATOR)"
    using Cons.prems(1) unfolding clean_def by fastforce
  ultimately show ?case using Cons.IH Cons.prems by (auto simp: clean_def)
qed

lemma strip_trailing_id: "normal_path p \<Longrightarrow> strip_trailing p = p"
  by (subst strip_trailing.simps) (auto simp: normal_path_def)

lemma preprocess_normal: "preprocess_path s = Some p \<Longrightarrow> normal_path p"
  using strip_trailing_normal [of "collapse False s"] collapse_clean [of False s]
  by (auto simp: preprocess_path_def split: if_splits)

text \<open>
  C21. \<open>preprocess_path\<close> fails exactly on the empty string.  Its result is a normal path: no white
  space, no two separators in a row, no separator at the end of a longer path; and a normal
  path is its own result.
\<close>

theorem preprocess_path_normal:
  "(preprocess_path s = None \<longleftrightarrow> s = []) \<and>
   (\<forall>p. preprocess_path s = Some p \<longrightarrow> normal_path p) \<and>
   (normal_path s \<and> s \<noteq> [] \<longrightarrow> preprocess_path s = Some s)"
proof (intro conjI allI impI)
  show "preprocess_path s = None \<longleftrightarrow> s = []" by (simp add: preprocess_path_def)
  fix p
  assume "preprocess_path s = Some p"
  then show "normal_path p" by (rule preprocess_normal)
next
  assume "normal_path s \<and> s \<noteq> []"
  then show "preprocess_path s = Some s"
    using collapse_id [of s False] strip_trailing_id [of s] by (simp add: preprocess_path_def normal_path_def)
qed

theorem preprocess_path_normal_witness:
  "preprocess_path (lit ''//mnt///a/ x'') = Some (lit ''/mnt/a'') \<and> preprocess_path (lit ''/mnt/a'') = Some (lit ''/mnt/a'')"
proof -
  have e: "preprocess_path (lit ''//mnt///a/ x'') = Some (lit ''/mnt/a'')" by code_simp
  then have "normal_path (lit ''/mnt/a'')" using preprocess_path_normal [of "lit ''//mnt///a/ x''"] by blast
  moreover have "lit ''/mnt/a'' \<noteq> []" by simp
  ultimately show ?thesis using e preprocess_path_normal [of "lit ''/mnt/a''"] by blast
qed

end
