(* ===== verification/Ext2.thy ===== *)
theory Ext2
  imports LibcMemory Path "HOL-Library.Monad_Syntax"
begin

text \<open>
  The ext2 reader, \<open>kernel/driver/ext2.c\<close> and \<open>kernel/include/ext2.h\<close>: the packed on-disk
  structures, the walk of the block pointers of an inode, reading an inode, searching a
  directory and resolving a path.  Every function takes the argument \<open>rd\<close>, what \<open>read_disk\<close>
  delivers for an offset and a size on the disk of the file system; \<open>disk_data\<close> is that
  function for a disk image.  Strings and buffers are lists of bytes.  \<open>None\<close> is a division by
  zero or a loop that does not end.
\<close>

section \<open>What \<open>read_disk\<close> delivers\<close>

text \<open>
  The sectors read start at the one of the offset and their number ignores the offset inside
  it, so the tail of an unaligned read comes from behind the sector buffer: \<open>past\<close>.
\<close>

definition disk_data :: "(u64 \<Rightarrow> byte) \<Rightarrow> (nat \<Rightarrow> byte) \<Rightarrow> u64 \<Rightarrow> u64 \<Rightarrow> byte list" where
  "disk_data img past offset sz =
     (let n = 512 * ((unat sz + 511) div 512); r = unat offset mod 512
      in map (\<lambda>i. if r + i < n then img (offset + of_nat i) else past (r + i - n)) [0..<unat sz])"

section \<open>On-disk structures\<close>

definition field :: "byte list \<Rightarrow> nat \<Rightarrow> nat \<Rightarrow> byte list" where
  "field b i n = take n (drop i b)"

definition le8 :: "byte list \<Rightarrow> nat \<Rightarrow> byte" where "le8 b i = of_le (field b i 1)"
definition le16 :: "byte list \<Rightarrow> nat \<Rightarrow> u16" where "le16 b i = of_le (field b i 2)"
definition le32 :: "byte list \<Rightarrow> nat \<Rightarrow> u32" where "le32 b i = of_le (field b i 4)"

datatype file_system_type = FILESYSTEM_TYPE_EXT2 | FILESYSTEM_TYPE_UNKNOWN

record filesystem_data =
  disk_number :: u64
  start_offset :: u64
  fs_type :: file_system_type

record ext2_super_block =
  inodecount :: u32
  blockcount :: u32
  r_blockcount :: u32
  free_blockcount :: u32
  free_inodecount :: u32
  first_data_block :: u32
  log_block_size :: u32
  log_frag_size :: u32
  blockper_group :: u32
  fragper_group :: u32
  number_of_inodes_per_group :: u32
  mtime :: u32
  wtime :: u32
  mnt_count :: u16
  max_mnt_count :: u16
  magic :: u16
  fs_state :: u16
  fs_errors :: u16
  minor_rev_level :: u16
  lastcheck :: u32
  checkinterval :: u32
  creator_os :: u32
  rev_level :: u32
  def_resuid :: u16
  def_resgid :: u16
  first_inode :: u32
  inode_size :: u16
  block_group_nr :: u16
  feature_compat :: u32
  feature_incompat :: u32
  feature_ro_compat :: u32
  uuid :: "byte list"
  volume_name :: "byte list"
  last_mounted :: "byte list"
  algorithm_usage_bitmap :: u32
  prealloc_blocks :: byte
  prealloc_dir_blocks :: byte
  padding1 :: u16
  journal_uuid :: "byte list"
  journal_inum :: u32
  journal_dev :: u32
  last_orphan :: u32
  hash_seed :: "byte list"
  def_hash_version :: byte
  reserved_char_pad :: byte
  reserved_word_pad :: u16
  default_mount_opts :: u32
  first_meta_bg :: u32
  reserved_tail :: "byte list"

definition decode_super_block :: "byte list \<Rightarrow> ext2_super_block" where
  "decode_super_block b =
     \<lparr>inodecount = le32 b 0,
      blockcount = le32 b 4,
      r_blockcount = le32 b 8,
      free_blockcount = le32 b 12,
      free_inodecount = le32 b 16,
      first_data_block = le32 b 20,
      log_block_size = le32 b 24,
      log_frag_size = le32 b 28,
      blockper_group = le32 b 32,
      fragper_group = le32 b 36,
      number_of_inodes_per_group = le32 b 40,
      mtime = le32 b 44,
      wtime = le32 b 48,
      mnt_count = le16 b 52,
      max_mnt_count = le16 b 54,
      magic = le16 b 56,
      fs_state = le16 b 58,
      fs_errors = le16 b 60,
      minor_rev_level = le16 b 62,
      lastcheck = le32 b 64,
      checkinterval = le32 b 68,
      creator_os = le32 b 72,
      rev_level = le32 b 76,
      def_resuid = le16 b 80,
      def_resgid = le16 b 82,
      first_inode = le32 b 84,
      inode_size = le16 b 88,
      block_group_nr = le16 b 90,
      feature_compat = le32 b 92,
      feature_incompat = le32 b 96,
      feature_ro_compat = le32 b 100,
      uuid = field b 104 16,
      volume_name = field b 120 16,
      last_mounted = field b 136 64,
      algorithm_usage_bitmap = le32 b 200,
      prealloc_blocks = le8 b 204,
      prealloc_dir_blocks = le8 b 205,
      padding1 = le16 b 206,
      journal_uuid = field b 208 16,
      journal_inum = le32 b 224,
      journal_dev = le32 b 228,
      last_orphan = le32 b 232,
      hash_seed = field b 236 16,
      def_hash_version = le8 b 252,
      reserved_char_pad = le8 b 253,
      reserved_word_pad = le16 b 254,
      default_mount_opts = le32 b 256,
      first_meta_bg = le32 b 260,
      reserved_tail = field b 264 760\<rparr>"

record ext2_block_group_descriptor =
  addr_block_usage_bitmap :: u32
  addr_inode_usage_bitmap :: u32
  start_block_inode_table :: u32
  number_of_unallocated_blocks :: u16
  number_of_unallocated_inodes :: u16
  number_of_dirs_in_group :: u16

definition decode_block_group_descriptor :: "byte list \<Rightarrow> ext2_block_group_descriptor" where
  "decode_block_group_descriptor b =
     \<lparr>addr_block_usage_bitmap = le32 b 0,
      addr_inode_usage_bitmap = le32 b 4,
      start_block_inode_table = le32 b 8,
      number_of_unallocated_blocks = le16 b 12,
      number_of_unallocated_inodes = le16 b 14,
      number_of_dirs_in_group = le16 b 16\<rparr>"

record ext2_inode =
  i_mode :: u16
  i_uid :: u16
  i_size :: u32
  i_atime :: u32
  i_ctime :: u32
  i_mtime :: u32
  i_dtime :: u32
  i_gid :: u16
  i_links_count :: u16
  i_blocks :: u32
  i_flags :: u32
  i_osd1 :: u32
  i_block :: "u32 list"
  i_generation :: u32
  i_file_acl :: u32
  i_dir_acl :: u32
  i_faddr :: u32
  i_osd2 :: "byte list"

definition decode_inode :: "byte list \<Rightarrow> ext2_inode" where
  "decode_inode b =
     \<lparr>i_mode = le16 b 0,
      i_uid = le16 b 2,
      i_size = le32 b 4,
      i_atime = le32 b 8,
      i_ctime = le32 b 12,
      i_mtime = le32 b 16,
      i_dtime = le32 b 20,
      i_gid = le16 b 24,
      i_links_count = le16 b 26,
      i_blocks = le32 b 28,
      i_flags = le32 b 32,
      i_osd1 = le32 b 36,
      i_block = map (\<lambda>i. le32 b (40 + 4 * i)) [0..<15],
      i_generation = le32 b 100,
      i_file_acl = le32 b 104,
      i_dir_acl = le32 b 108,
      i_faddr = le32 b 112,
      i_osd2 = field b 116 12\<rparr>"

record ext2_dir_entry =
  inode :: u32
  size_of_entry :: u16
  name_length :: byte
  type_indicator :: byte

definition decode_dir_entry :: "byte list \<Rightarrow> ext2_dir_entry" where
  "decode_dir_entry b = \<lparr>inode = le32 b 0, size_of_entry = le16 b 4, name_length = le8 b 6, type_indicator = le8 b 7\<rparr>"

definition zero_dir_entry :: ext2_dir_entry where
  "zero_dir_entry = \<lparr>inode = 0, size_of_entry = 0, name_length = 0, type_indicator = 0\<rparr>"

text \<open>\<open>1024 << log_block_size\<close> is an \<open>int\<close> shift, which the processor takes modulo 32.\<close>

definition s_block_get_block_size :: "ext2_super_block \<Rightarrow> u64" where
  "s_block_get_block_size sb = scast (push_bit (unat (log_block_size sb) mod 32) (1024 :: u32))"

definition get_number_of_block_groups :: "ext2_super_block \<Rightarrow> u64 option" where
  "get_number_of_block_groups sb =
     (if number_of_inodes_per_group sb = 0 then None
      else Some (UPPER_DIVIDE (ucast (inodecount sb)) (ucast (number_of_inodes_per_group sb))))"

type_synonym disk_reader = "u64 \<Rightarrow> u64 \<Rightarrow> byte list"

section \<open>Structures of the file system\<close>

definition ext2_read_super_block :: "disk_reader \<Rightarrow> filesystem_data \<Rightarrow> ext2_super_block" where
  "ext2_read_super_block rd fs =
     (let sb = decode_super_block (rd (start_offset fs) 1024)
      in if magic sb \<noteq> 0xEF53 then decode_super_block (replicate 1024 0) else sb)"

definition sizeof_block_group_descriptor :: u64 where "sizeof_block_group_descriptor = 18"

definition ext2_read_block_group_descriptor :: "disk_reader \<Rightarrow> filesystem_data \<Rightarrow> ext2_super_block \<Rightarrow> u64 \<Rightarrow> ext2_block_group_descriptor" where
  "ext2_read_block_group_descriptor rd fs sb group_num =
     (let block_size = s_block_get_block_size sb;
          bgdt_offset = start_offset fs + (if block_size > 1024 then block_size else 1024)
      in decode_block_group_descriptor (rd (bgdt_offset + sizeof_block_group_descriptor * group_num) sizeof_block_group_descriptor))"

text \<open>The block number is decremented in 32 bits.\<close>

definition ext2_read_inode_metadata :: "disk_reader \<Rightarrow> filesystem_data \<Rightarrow> ext2_super_block \<Rightarrow> u64 \<Rightarrow> ext2_inode option" where
  "ext2_read_inode_metadata rd fs sb inode_num =
     (let per_group = ucast (number_of_inodes_per_group sb) :: u64 in
      if per_group = 0 then None else
      let block_group_num = (inode_num - 1) div per_group;
          bgd = ext2_read_block_group_descriptor rd fs sb block_group_num;
          inode_table_index = (inode_num - 1) mod per_group;
          addr = ucast (start_block_inode_table bgd - 1) * s_block_get_block_size sb + inode_table_index * ucast (inode_size sb)
      in Some (decode_inode (rd (start_offset fs + addr) (ucast (inode_size sb)))))"

definition ext2_get_inode_size :: "disk_reader \<Rightarrow> filesystem_data \<Rightarrow> ext2_super_block \<Rightarrow> u64 \<Rightarrow> u64 option" where
  "ext2_get_inode_size rd fs sb inode_num =
     map_option (\<lambda>n. push_bit 32 (ucast (i_dir_acl n)) OR ucast (i_size n)) (ext2_read_inode_metadata rd fs sb inode_num)"

section \<open>Block pointers\<close>

definition read_full_block :: "disk_reader \<Rightarrow> filesystem_data \<Rightarrow> u32 \<Rightarrow> u64 \<Rightarrow> byte list option" where
  "read_full_block rd fs block_num block_size =
     (if block_num = 0 then None
      else Some (rd ((ucast block_num - 1) * block_size + start_offset fs) block_size))"

definition get_indirect_block_entry :: "disk_reader \<Rightarrow> filesystem_data \<Rightarrow> u32 \<Rightarrow> u64 \<Rightarrow> u32 \<Rightarrow> u32" where
  "get_indirect_block_entry rd fs indirect_block_num block_size index =
     (if indirect_block_num = 0 then 0
      else case read_full_block rd fs indirect_block_num block_size of
        None \<Rightarrow> 0
      | Some table \<Rightarrow>
          let entries_per_block = ucast (block_size div 4) :: u32
          in if index < entries_per_block then le32 table (4 * unat index) else 0)"

definition block_offset :: "filesystem_data \<Rightarrow> u64 \<Rightarrow> u32 \<Rightarrow> u64" where
  "block_offset fs block_size block_num =
     (if block_num = 0 then 0 else (ucast block_num - 1) * block_size + start_offset fs)"

definition nth_block :: "disk_reader \<Rightarrow> filesystem_data \<Rightarrow> u64 \<Rightarrow> ext2_inode \<Rightarrow> u64 \<Rightarrow> u32" where
  "nth_block rd fs block_size ino block_index =
     (let apb = block_size div 4; entry = (\<lambda>b i. get_indirect_block_entry rd fs b block_size i) in
      if block_index < 12 then i_block ino ! unat block_index
      else let block_index = block_index - 12 in
      if block_index < apb then
        (let single_indirect_num = i_block ino ! 12
         in if single_indirect_num = 0 then 0 else entry single_indirect_num (ucast block_index))
      else let block_index = block_index - apb; double_capacity = apb * apb in
      if block_index < double_capacity then
        (let double_indirect_num = i_block ino ! 13
         in if double_indirect_num = 0 then 0
            else let outer_index = ucast (block_index div apb); inner_index = ucast (block_index mod apb);
                     single_block_num = entry double_indirect_num outer_index
                 in if single_block_num = 0 then 0 else entry single_block_num inner_index)
      else let block_index = block_index - double_capacity; triple_capacity = double_capacity * apb in
      if block_index < triple_capacity then
        (let triple_indirect_num = i_block ino ! 14
         in if triple_indirect_num = 0 then 0
            else let outer_index = ucast (block_index div double_capacity) :: u32;
                     remainder = ucast (block_index mod double_capacity) :: u32;
                     double_block_num = entry triple_indirect_num outer_index
                 in if double_block_num = 0 then 0
                    else let outer_index2 = remainder div ucast apb; inner_index2 = remainder mod ucast apb;
                             single_block_num = entry double_block_num outer_index2
                         in if single_block_num = 0 then 0 else entry single_block_num inner_index2)
      else 0)"

definition ext2_get_nth_block_offset_of_inode :: "disk_reader \<Rightarrow> filesystem_data \<Rightarrow> ext2_super_block \<Rightarrow> u64 \<Rightarrow> u64 \<Rightarrow> u64 option" where
  "ext2_get_nth_block_offset_of_inode rd fs sb inode_num block_index =
     (let block_size = s_block_get_block_size sb in
      map_option (\<lambda>ino. block_offset fs block_size (nth_block rd fs block_size ino block_index))
        (ext2_read_inode_metadata rd fs sb inode_num))"

section \<open>Reading an inode\<close>

text \<open>
  The loop reads at most a block per turn; the result is what it has stored in the output
  buffer from its start.  \<open>end_offset\<close> is the last offset to read, so an empty range wraps.
\<close>

partial_function (option) read_blocks :: "disk_reader \<Rightarrow> filesystem_data \<Rightarrow> ext2_super_block \<Rightarrow> u64 \<Rightarrow> u64 \<Rightarrow> u64 \<Rightarrow> byte list option" where
  "read_blocks rd fs sb inode_num curr_read_offset end_offset =
     (if curr_read_offset \<le> end_offset then
        if s_block_get_block_size sb = 0 then None else
        do { base \<leftarrow> ext2_get_nth_block_offset_of_inode rd fs sb inode_num (curr_read_offset div s_block_get_block_size sb);
             let read_start = base + curr_read_offset mod s_block_get_block_size sb;
             let read_size = min (s_block_get_block_size sb) (end_offset - curr_read_offset + 1);
             rest \<leftarrow> read_blocks rd fs sb inode_num (curr_read_offset + read_size) end_offset;
             Some (rd read_start read_size @ rest) }
      else Some [])"

definition ext2_read_inode :: "disk_reader \<Rightarrow> filesystem_data \<Rightarrow> ext2_super_block \<Rightarrow> u64 \<Rightarrow> u64 \<Rightarrow> u64 \<Rightarrow> byte list option" where
  "ext2_read_inode rd fs sb inode_num offset_bytes count_bytes =
     do { max_read_size \<leftarrow> ext2_get_inode_size rd fs sb inode_num;
          read_blocks rd fs sb inode_num offset_bytes (min max_read_size (offset_bytes + count_bytes) - 1) }"

section \<open>Directories and paths\<close>

text \<open>\<open>strncmp\<close> returning zero, on a C string and the bytes of an entry.\<close>

fun strncmp_zero :: "byte list \<Rightarrow> byte list \<Rightarrow> nat \<Rightarrow> bool" where
  "strncmp_zero a b 0 = True"
| "strncmp_zero a b (Suc n) =
     (let x = (case a of [] \<Rightarrow> 0 | c # _ \<Rightarrow> c); y = (case b of [] \<Rightarrow> 0 | c # _ \<Rightarrow> c)
      in if x = 0 \<and> y = 0 then True else if x = 0 \<or> y = 0 \<or> x \<noteq> y then False
         else strncmp_zero (drop 1 a) (drop 1 b) n)"

partial_function (option) find_entry :: "byte list \<Rightarrow> byte list \<Rightarrow> nat \<Rightarrow> u64 \<Rightarrow> ext2_dir_entry option" where
  "find_entry dat inode_name name_size pos =
     (if pos + 1 < of_nat (length dat) then
        let e = decode_dir_entry (drop (unat pos) dat) in
        if strncmp_zero inode_name (drop (unat pos + 8) dat) (min (unat (name_length e)) name_size) then Some e
        else find_entry dat inode_name name_size (pos + ucast (size_of_entry e))
      else Some zero_dir_entry)"

definition ext2_find_inode_in_dir_by_name :: "disk_reader \<Rightarrow> filesystem_data \<Rightarrow> ext2_super_block \<Rightarrow> u64 \<Rightarrow> byte list \<Rightarrow> nat \<Rightarrow> ext2_dir_entry option" where
  "ext2_find_inode_in_dir_by_name rd fs sb dir_inode_num inode_name name_size =
     do { sz \<leftarrow> ext2_get_inode_size rd fs sb dir_inode_num;
          dat \<leftarrow> ext2_read_inode rd fs sb dir_inode_num 0 sz;
          find_entry dat inode_name name_size 0 }"

text \<open>The inode is passed as an \<open>int\<close>.\<close>

fun path_inode :: "disk_reader \<Rightarrow> filesystem_data \<Rightarrow> ext2_super_block \<Rightarrow> nat \<Rightarrow> byte list \<Rightarrow> u64 \<Rightarrow> u64 option" where
  "path_inode rd fs sb 0 p current_inode = Some 0"
| "path_inode rd fs sb (Suc n) p current_inode =
     (if p = [] then Some 0 else
      do { e \<leftarrow> ext2_find_inode_in_dir_by_name rd fs sb (scast (ucast current_inode :: u32)) p (length (segment p));
           if after_segment p = [] then Some (ucast (inode e))
           else if type_indicator e \<noteq> 2 then Some 0
           else path_inode rd fs sb n (drop 1 (after_segment p)) (ucast (inode e)) })"

definition EXT2_ROOT_INODE :: u64 where "EXT2_ROOT_INODE = 2"

definition ext2_get_inode_number_at_path :: "disk_reader \<Rightarrow> filesystem_data \<Rightarrow> ext2_super_block \<Rightarrow> byte list \<Rightarrow> u64 option" where
  "ext2_get_inode_number_at_path rd fs sb pth =
     (case preprocess_path pth of
        None \<Rightarrow> Some 0
      | Some p \<Rightarrow>
          if p = [] then Some 0
          else if p = lit ''/'' then Some EXT2_ROOT_INODE
          else path_inode rd fs sb (length p) (skip_root p) EXT2_ROOT_INODE)"

text \<open>\<open>ext2_list_dir\<close> prepends the name of every entry to the list it returns.\<close>

partial_function (option) entry_names :: "byte list \<Rightarrow> u64 \<Rightarrow> byte list list \<Rightarrow> byte list list option" where
  "entry_names dat pos acc =
     (if pos + 1 < of_nat (length dat) then
        let e = decode_dir_entry (drop (unat pos) dat)
        in entry_names dat (pos + ucast (size_of_entry e)) (field dat (unat pos + 8) (unat (name_length e)) # acc)
      else Some acc)"

definition ext2_list_dir :: "disk_reader \<Rightarrow> filesystem_data \<Rightarrow> byte list \<Rightarrow> byte list list option" where
  "ext2_list_dir rd fs pth =
     (let sb = ext2_read_super_block rd fs in
      do { dir_inode_num \<leftarrow> ext2_get_inode_number_at_path rd fs sb pth;
           if dir_inode_num = 0 then Some []
           else do { sz \<leftarrow> ext2_get_inode_size rd fs sb dir_inode_num;
                     dat \<leftarrow> ext2_read_inode rd fs sb dir_inode_num 0 sz;
                     entry_names dat 0 [] } })"

declare read_blocks.simps [code] find_entry.simps [code] entry_names.simps [code]

section \<open>The pointer tree of an inode\<close>

text \<open>
  The reference: block \<open>k\<close> of a file is reached from one of the fifteen root pointers by the
  digits of its index in base \<open>a\<close>, the number of pointers in a block; a null pointer on the
  way gives a null block.
\<close>

definition block_path :: "nat \<Rightarrow> nat \<Rightarrow> (nat \<times> nat list) option" where
  "block_path a k =
     (if k < 12 then Some (k, [])
      else if k - 12 < a then Some (12, [k - 12])
      else if k - 12 - a < a ^ 2 then (let j = k - 12 - a in Some (13, [j div a, j mod a]))
      else if k - 12 - a - a ^ 2 < a ^ 3
        then (let j = k - 12 - a - a ^ 2 in Some (14, [j div a ^ 2, j div a mod a, j mod a]))
      else None)"

fun walk_ptrs :: "(u32 \<Rightarrow> nat \<Rightarrow> u32) \<Rightarrow> u32 \<Rightarrow> nat list \<Rightarrow> u32" where
  "walk_ptrs next b [] = b"
| "walk_ptrs next b (i # is) = (if b = 0 then 0 else walk_ptrs next (next b i) is)"

definition ref_block :: "disk_reader \<Rightarrow> filesystem_data \<Rightarrow> u64 \<Rightarrow> ext2_inode \<Rightarrow> nat \<Rightarrow> u32" where
  "ref_block rd fs bs ino k =
     (case block_path (unat bs div 4) k of None \<Rightarrow> 0
      | Some (root, is) \<Rightarrow> walk_ptrs (\<lambda>b i. get_indirect_block_entry rd fs b bs (of_nat i)) (i_block ino ! root) is)"

lemma entry_null [simp]: "get_indirect_block_entry rd fs 0 bs i = 0"
  by (simp add: get_indirect_block_entry_def)

lemma ucast_of_nat_unat: "(ucast (x :: u64) :: u32) = of_nat (unat x)"
  by (simp add: word_unat_eq_iff unsigned_ucast_eq unat_of_nat)

lemma div_mod_square: "(j :: nat) mod a ^ 2 div a = j div a mod a" "j mod a ^ 2 mod a = j mod a"
proof -
  have e: "j mod a ^ 2 = a * (j div a mod a) + j mod a" by (simp add: power2_eq_square mod_mult2_eq)
  show "j mod a ^ 2 mod a = j mod a" unfolding e by simp
  show "j mod a ^ 2 div a = j div a mod a"
  proof (cases "a = 0")
    case False
    then show ?thesis unfolding e by (simp add: add.commute)
  qed simp
qed

lemma nth_block_eq_ref:
  assumes "4 \<le> unat bs" "unat bs \<le> 2 ^ 17"
  shows "nth_block rd fs bs ino k = ref_block rd fs bs ino (unat k)"
proof -
  define a where "a = unat bs div 4"
  have a: "unat (bs div 4) = a" by (simp add: a_def unat_div)
  have ap: "0 < a" "a \<le> 2 ^ 15" using assms by (auto simp: a_def)
  have a2: "a * a \<le> 2 ^ 30" using mult_le_mono [OF ap(2) ap(2)] by simp
  have a3: "a * a * a \<le> 2 ^ 45" using mult_le_mono [OF a2 ap(2)] by simp
  have w2: "unat (bs div 4 * (bs div 4)) = a * a" using a2 by (subst unat_word_ariths(2)) (simp add: a)
  have w3: "unat (bs div 4 * (bs div 4) * (bs div 4)) = a * a * a" using a3 by (subst unat_word_ariths(2)) (simp add: a w2)
  have s: "unat (x - y) = unat x - unat y" if "unat y \<le> unat x" for x y :: u64
    using that by (simp add: unat_sub word_le_nat_alt)
  let ?k1 = "k - 12" and ?k2 = "k - 12 - bs div 4" and ?k3 = "k - 12 - bs div 4 - bs div 4 * (bs div 4)"
  have k1: "unat ?k1 = unat k - 12" if "\<not> unat k < 12" using that s [of 12 k] by simp
  have k2: "unat ?k2 = unat k - 12 - a" if "\<not> unat k < 12" "\<not> unat k - 12 < a"
    using that k1 s [of "bs div 4" ?k1] by (simp add: a)
  have k3: "unat ?k3 = unat k - 12 - a - a * a" if "\<not> unat k < 12" "\<not> unat k - 12 < a" "\<not> unat k - 12 - a < a * a"
    using that k2 s [of "bs div 4 * (bs div 4)" ?k2] by (simp add: w2)
  have lt: "k < 12 \<longleftrightarrow> unat k < 12" by (simp add: word_less_nat_alt)
  have r: "(ucast (x mod (bs div 4 * (bs div 4))) :: u32) div ucast (bs div 4) = of_nat (unat x div a mod a)"
    "(ucast (x mod (bs div 4 * (bs div 4))) :: u32) mod ucast (bs div 4) = of_nat (unat x mod a)" for x :: u64
  proof -
    have "unat x mod (a * a) < 2 ^ 32" using a2 ap mod_less_divisor [of "a * a" "unat x"] by (simp del: mod_less_divisor)
    then have m: "unat (ucast (x mod (bs div 4 * (bs div 4))) :: u32) = unat x mod (a * a)"
      by (simp add: unsigned_ucast_eq unat_mod w2 take_bit_nat_eq_self)
    have d: "unat (ucast (bs div 4) :: u32) = a" using ap by (simp add: unsigned_ucast_eq a take_bit_nat_eq_self)
    have "unat x div a mod a < 2 ^ 32" "unat x mod a < 2 ^ 32"
      using ap by (auto intro: less_trans [OF mod_less_divisor])
    then show "(ucast (x mod (bs div 4 * (bs div 4))) :: u32) div ucast (bs div 4) = of_nat (unat x div a mod a)"
      "(ucast (x mod (bs div 4 * (bs div 4))) :: u32) mod ucast (bs div 4) = of_nat (unat x mod a)"
      using div_mod_square [of "unat x" a]
      by (simp_all add: word_unat_eq_iff unat_div unat_mod m d unat_of_nat take_bit_nat_eq_self power2_eq_square)
  qed
  note w = word_less_nat_alt a w2 w3
  note e = nth_block_def ref_block_def Let_def block_path_def a_def [symmetric] power2_eq_square power3_eq_cube
  have u: "(ucast x :: u32) = of_nat n" if "unat x = n" for x :: u64 and n using that ucast_of_nat_unat [of x] by metis
  consider "unat k < 12" | "\<not> unat k < 12" "unat k - 12 < a" | "\<not> unat k < 12" "\<not> unat k - 12 < a" "unat k - 12 - a < a * a"
    | "\<not> unat k < 12" "\<not> unat k - 12 < a" "\<not> unat k - 12 - a < a * a" by blast
  then show ?thesis
  proof cases
    case 1
    then show ?thesis unfolding e lt by simp
  next
    case 2
    then show ?thesis unfolding e lt using k1 u [of ?k1] by (simp add: w)
  next
    case 3
    have "unat (?k2 div (bs div 4)) = (unat k - 12 - a) div a" "unat (?k2 mod (bs div 4)) = (unat k - 12 - a) mod a"
      using k2 3 by (simp_all add: unat_div unat_mod a_def)
    from u [OF this(1)] u [OF this(2)] show ?thesis using 3 k1 k2 unfolding e lt by (simp add: w)
  next
    case 4
    have "unat (?k3 div (bs div 4 * (bs div 4))) = (unat k - 12 - a - a * a) div (a * a)"
      using k3 4 by (simp add: unat_div w2)
    from u [OF this] show ?thesis using 4 k1 k2 k3 r [of ?k3] unfolding e lt by (simp add: w)
  qed
qed

section \<open>Reading aligned ranges\<close>

lemma dvd_unat_mult: "d dvd 2 ^ 64 \<Longrightarrow> d dvd unat y \<Longrightarrow> d dvd unat ((x :: u64) * y)"
  by (simp add: unat_word_ariths dvd_mod)

lemma dvd_unat_add: "d dvd 2 ^ 64 \<Longrightarrow> d dvd unat x \<Longrightarrow> d dvd unat y \<Longrightarrow> d dvd unat ((x :: u64) + y)"
  by (simp add: unat_word_ariths dvd_mod)

text \<open>Byte \<open>i\<close> of a file: the byte at the place of its block on the disk image.\<close>

definition file_byte :: "disk_reader \<Rightarrow> (u64 \<Rightarrow> byte) \<Rightarrow> filesystem_data \<Rightarrow> u64 \<Rightarrow> ext2_inode \<Rightarrow> nat \<Rightarrow> byte" where
  "file_byte rd img fs bs ino i =
     img (block_offset fs bs (nth_block rd fs bs ino (of_nat (i div unat bs))) + of_nat (i mod unat bs))"

lemma div_mod_add_small:
  fixes a b i :: nat
  assumes "a mod b + i < b"
  shows "(a + i) div b = a div b" "(a + i) mod b = a mod b + i"
proof -
  have e: "a + i = (a mod b + i) + b * (a div b)" by simp
  show "(a + i) div b = a div b" unfolding e using assms by (subst div_mult_self2) auto
  show "(a + i) mod b = a mod b + i" unfolding e using assms by (subst mod_mult_self2) simp
qed

text \<open>The contract of the disk that the reader needs: a read that starts at a sector or stays inside one is exact.\<close>

locale disk_image =
  fixes rd :: disk_reader and img :: "u64 \<Rightarrow> byte"
  assumes aligned_read: "unat offset mod 512 = 0 \<Longrightarrow> rd offset n = bytes_at img offset (unat n)"
    and sector_read: "unat offset mod 512 + unat n \<le> 512 \<Longrightarrow> rd offset n = bytes_at img offset (unat n)"
begin

lemma block_offset_aligned:
  assumes "unat bs mod 512 = 0" "unat (start_offset fs) mod 512 = 0"
  shows "unat (block_offset fs bs b) mod 512 = 0"
proof -
  have "512 dvd unat ((ucast b - 1) * bs + start_offset fs)"
    using assms by (intro dvd_unat_add dvd_unat_mult) (simp_all add: dvd_eq_mod_eq_0)
  then show ?thesis by (simp add: block_offset_def dvd_eq_mod_eq_0)
qed

lemma block_bytes:
  assumes "unat c mod unat bs = 0" "n \<le> unat bs" "0 < unat bs"
  shows "bytes_at img (block_offset fs bs (nth_block rd fs bs ino (c div bs))) n = map (file_byte rd img fs bs ino) [unat c..<unat c + n]"
proof (rule nth_equalityI)
  fix i
  assume "i < length (bytes_at img (block_offset fs bs (nth_block rd fs bs ino (c div bs))) n)"
  then have i: "i < n" by simp
  obtain q where q: "unat c = unat bs * q" using assms(1) by auto
  have "(unat c + i) div unat bs = unat c div unat bs" "(unat c + i) mod unat bs = i"
    using i assms(2,3) unfolding q by auto
  moreover have "of_nat (unat (c div bs)) = c div bs" by simp
  then have "of_nat (unat c div unat bs) = c div bs" by (simp only: unat_div)
  ultimately show "bytes_at img (block_offset fs bs (nth_block rd fs bs ino (c div bs))) n ! i = map (file_byte rd img fs bs ino) [unat c..<unat c + n] ! i"
    using i by (simp add: file_byte_def)
qed simp

lemma read_blocks_aligned:
  assumes meta: "ext2_read_inode_metadata rd fs sb ino_num = Some ino" and bs: "bs = s_block_get_block_size sb"
    and al: "unat bs mod 512 = 0" "unat (start_offset fs) mod 512 = 0" and b0: "0 < unat bs"
    and c: "unat c mod unat bs = 0" "c \<le> e" and e: "unat e < 2 ^ 64 - 1"
  shows "read_blocks rd fs sb ino_num c e = Some (map (file_byte rd img fs bs ino) [unat c..<Suc (unat e)])"
  using c
proof (induction "unat e - unat c" arbitrary: c rule: less_induct)
  case less
  let ?rs = "min bs (e - c + 1)" and ?base = "block_offset fs bs (nth_block rd fs bs ino (c div bs))"
  have le: "unat c \<le> unat e" using less.prems(2) by (simp add: word_le_nat_alt)
  have "unat (e - c + 1) = unat e - unat c + 1"
    using le e by (simp add: unat_word_ariths unat_sub less.prems(2))
  then have rs: "unat ?rs = min (unat bs) (unat e - unat c + 1)" by (simp add: min_def word_le_nat_alt)
  have nz: "bs \<noteq> 0" using b0 by auto
  have cm: "c mod bs = 0" using less.prems(1) by (simp add: word_unat_eq_iff unat_mod)
  have rd: "rd ?base ?rs = map (file_byte rd img fs bs ino) [unat c..<unat c + unat ?rs]"
    using aligned_read [OF block_offset_aligned [OF al], of "nth_block rd fs bs ino (c div bs)" ?rs]
      block_bytes [OF less.prems(1) _ b0, of "unat ?rs"] rs by simp
  have off: "ext2_get_nth_block_offset_of_inode rd fs sb ino_num (c div bs) = Some ?base"
    by (simp add: ext2_get_nth_block_offset_of_inode_def meta bs Let_def)
  have "unat (c + ?rs) = unat c + unat ?rs" using le e rs by (subst unat_word_ariths(1)) simp
  then have rest: "read_blocks rd fs sb ino_num (c + ?rs) e = Some (map (file_byte rd img fs bs ino) [unat c + unat ?rs..<Suc (unat e)])"
  proof (cases "c + ?rs \<le> e")
    case True
    then have le2: "unat c + unat ?rs \<le> unat e" using \<open>unat (c + ?rs) = _\<close> by (simp add: word_le_nat_alt)
    then have "unat ?rs = unat bs" using rs by linarith
    then have "unat (c + ?rs) mod unat bs = 0" using less.prems(1) \<open>unat (c + ?rs) = _\<close> by simp
    moreover have "unat e - unat (c + ?rs) < unat e - unat c"
      using le2 \<open>unat (c + ?rs) = _\<close> \<open>unat ?rs = unat bs\<close> b0 by linarith
    ultimately show ?thesis using less.hyps [of "c + ?rs"] True \<open>unat (c + ?rs) = _\<close> by simp
  next
    case False
    then have "Suc (unat e) \<le> unat c + unat ?rs" using \<open>unat (c + ?rs) = _\<close> by (simp add: word_le_nat_alt)
    then show ?thesis using False by (subst read_blocks.simps) simp
  qed
  have "[unat c..<Suc (unat e)] = [unat c..<unat c + unat ?rs] @ [unat c + unat ?rs..<Suc (unat e)]"
    using le rs upt_add_eq_append [of "unat c" "unat c + unat ?rs" "Suc (unat e) - (unat c + unat ?rs)"] by (simp del: upt_Suc)
  then show ?case
    using rest off rd nz less.prems(2) cm by (subst read_blocks.simps) (simp add: bs [symmetric] Let_def del: upt_Suc)
qed

lemma ext2_read_inode_aligned:
  assumes meta: "ext2_read_inode_metadata rd fs sb ino_num = Some ino" and bs: "bs = s_block_get_block_size sb"
    and al: "unat bs mod 512 = 0" "unat (start_offset fs) mod 512 = 0" and b0: "0 < unat bs"
    and len: "ext2_get_inode_size rd fs sb ino_num = Some len"
    and off: "unat off mod unat bs = 0" "off < len" "0 < unat n" "unat off + unat n < 2 ^ 64"
  shows "ext2_read_inode rd fs sb ino_num off n =
    Some (map (file_byte rd img fs bs ino) [unat off..<min (unat len) (unat off + unat n)])"
proof -
  let ?e = "min len (off + n)"
  have on: "unat (off + n) = unat off + unat n" using off by (simp add: unat_word_ariths)
  then have ue: "unat ?e = min (unat len) (unat off + unat n)" by (simp add: min_def word_le_nat_alt)
  have "0 < unat ?e" using off ue by (simp add: word_less_nat_alt)
  then have ue1: "unat (?e - 1) = unat ?e - 1" by (subst unat_minus_one) auto
  then have "off \<le> ?e - 1" using ue off by (simp add: word_le_nat_alt word_less_nat_alt)
  moreover have "unat (?e - 1) < 2 ^ 64 - 1" using ue1 unat_lt_64 [of ?e] \<open>0 < unat ?e\<close> by linarith
  ultimately have "read_blocks rd fs sb ino_num off (?e - 1) = Some (map (file_byte rd img fs bs ino) [unat off..<Suc (unat (?e - 1))])"
    using read_blocks_aligned [OF meta bs al b0 off(1)] by blast
  moreover have "Suc (unat (?e - 1)) = min (unat len) (unat off + unat n)" using ue ue1 \<open>0 < unat ?e\<close> by simp
  ultimately show ?thesis by (simp add: ext2_read_inode_def len)
qed

text \<open>A read from any offset that stays inside one sector.\<close>

lemma ext2_read_inode_sector:
  assumes meta: "ext2_read_inode_metadata rd fs sb ino_num = Some ino" and bs: "bs = s_block_get_block_size sb"
    and al: "unat bs mod 512 = 0" "unat (start_offset fs) mod 512 = 0" and b0: "0 < unat bs"
    and len: "ext2_get_inode_size rd fs sb ino_num = Some len"
    and off: "unat off mod 512 + unat n \<le> 512" "0 < unat n" "unat off + unat n \<le> unat len"
  shows "ext2_read_inode rd fs sb ino_num off n = Some (map (file_byte rd img fs bs ino) [unat off..<unat off + unat n])"
proof -
  let ?e = "off + n - 1" and ?base = "block_offset fs bs (nth_block rd fs bs ino (off div bs))"
  have lt: "unat off + unat n < 2 ^ 64" using off(3) unat_lt_64 [of len] by linarith
  then have on: "unat (off + n) = unat off + unat n" by (simp add: unat_word_ariths)
  have e: "unat ?e = unat off + unat n - 1" using on off(2) by (subst unat_minus_one) auto
  have min: "min len (off + n) = off + n"
    using on off(3) by (simp add: min_absorb2 word_le_nat_alt)
  have blk: "unat off mod unat bs + unat n \<le> unat bs"
  proof -
    obtain k where k: "unat bs = 512 * k" "0 < k" using al(1) b0 by auto
    have "unat off mod (512 * k) = 512 * (unat off div 512 mod k) + unat off mod 512" by (rule mod_mult2_eq)
    moreover have "512 * (unat off div 512 mod k) + 512 \<le> 512 * k"
      using mod_less_divisor [OF k(2), of "unat off div 512"] by linarith
    ultimately show ?thesis unfolding k(1) using off(1) by linarith
  qed
  have cnt: "?e - off + 1 = n" "off \<le> ?e" using e off(2) by (simp_all add: word_le_nat_alt)
  have rs: "min bs n = n" using blk by (simp add: min_absorb2 word_le_nat_alt)
  have d512: "512 dvd unat bs" using al(1) by auto
  have ob: "unat (?base + off mod bs) mod 512 = unat off mod 512"
  proof -
    have "unat (?base + off mod bs) mod 512 = (unat ?base + unat (off mod bs)) mod 512"
      by (simp add: unat_word_ariths mod_mod_cancel)
    also have "\<dots> = unat off mod unat bs mod 512"
      using block_offset_aligned [OF al] by (metis add_0 mod_add_left_eq unat_mod)
    finally show ?thesis using d512 by (simp add: mod_mod_cancel)
  qed
  have bytes: "bytes_at img (?base + off mod bs) (unat n) = map (file_byte rd img fs bs ino) [unat off..<unat off + unat n]"
  proof (rule nth_equalityI)
    fix i
    assume "i < length (bytes_at img (?base + off mod bs) (unat n))"
    then have i: "i < unat n" by simp
    have "unat off mod unat bs + i < unat bs" using blk i by linarith
    then have dm: "(unat off + i) div unat bs = unat off div unat bs" "(unat off + i) mod unat bs = unat off mod unat bs + i"
      by (rule div_mod_add_small)+
    have "of_nat (unat (off div bs)) = off div bs" "of_nat (unat (off mod bs)) = off mod bs" by simp_all
    then have "of_nat (unat off div unat bs) = off div bs" "of_nat (unat off mod unat bs) = off mod bs"
      by (simp_all only: unat_div unat_mod)
    then show "bytes_at img (?base + off mod bs) (unat n) ! i = map (file_byte rd img fs bs ino) [unat off..<unat off + unat n] ! i"
      using i by (simp add: file_byte_def dm add.assoc)
  qed simp
  have "\<not> off + n \<le> ?e" using e on off(2) by (simp add: word_le_nat_alt)
  then have "read_blocks rd fs sb ino_num (off + n) ?e = Some []" by (subst read_blocks.simps) simp
  then have "read_blocks rd fs sb ino_num off ?e = Some (rd (?base + off mod bs) n)"
    using cnt rs b0 by (subst read_blocks.simps)
      (auto simp: bs [symmetric] ext2_get_nth_block_offset_of_inode_def meta Let_def)
  then show ?thesis
    using sector_read [of "?base + off mod bs" n] ob off(1) by (simp add: ext2_read_inode_def len min bytes)
qed

end

text \<open>\<open>disk_data\<close>, the result of \<open>read_disk\<close> on an image, keeps the contract.\<close>

interpretation image: disk_image "disk_data img past" img for img past
proof
  fix offset n :: u64
  assume "unat offset mod 512 = 0"
  moreover have "unat n \<le> 512 * ((unat n + 511) div 512)" by linarith
  ultimately show "disk_data img past offset n = bytes_at img offset (unat n)"
    by (auto simp: disk_data_def bytes_at_def Let_def)
next
  fix offset n :: u64
  assume "unat offset mod 512 + unat n \<le> 512"
  moreover have "512 \<le> 512 * ((unat n + 511) div 512)" if "x < unat n" for x
    using that div_le_mono [of 512 "unat n + 511" 512] by simp
  ultimately have "unat offset mod 512 + x < 512 * ((unat n + 511) div 512)" if "x < unat n" for x
    using that by (meson add_less_cancel_left less_le_trans)
  then show "disk_data img past offset n = bytes_at img offset (unat n)"
    by (auto simp: disk_data_def bytes_at_def Let_def)
qed

section \<open>Directories\<close>

text \<open>A directory as the file system stores it: entries of inode, type, name and padding.\<close>

type_synonym dirent = "u32 \<times> byte \<times> byte list \<times> nat"

fun encode_entry :: "dirent \<Rightarrow> byte list" where
  "encode_entry (ino, ty, nm, pad) =
     to_le 4 ino @ to_le 2 (of_nat (8 + length nm + pad) :: u16) @ [of_nat (length nm), ty] @ nm @ replicate pad 0"

fun entry_ok :: "dirent \<Rightarrow> bool" where
  "entry_ok (ino, ty, nm, pad) \<longleftrightarrow> length nm \<le> 255 \<and> 0 \<notin> set nm \<and> 8 + length nm + pad < 2 ^ 16"

fun entry_header :: "dirent \<Rightarrow> ext2_dir_entry" where
  "entry_header (ino, ty, nm, pad) =
     \<lparr>inode = ino, size_of_entry = of_nat (8 + length nm + pad), name_length = of_nat (length nm), type_indicator = ty\<rparr>"

fun entry_name :: "dirent \<Rightarrow> byte list" where
  "entry_name (ino, ty, nm, pad) = nm"

definition dir_bytes :: "dirent list \<Rightarrow> byte list" where
  "dir_bytes es = concat (map encode_entry es)"

lemma length_encode_entry: "length (encode_entry (ino, ty, nm, pad)) = 8 + length nm + pad"
  by simp

lemma decode_encode: "decode_dir_entry (encode_entry e @ rest) = entry_header e"
proof -
  obtain ino ty nm pad where e: "e = (ino, ty, nm, pad)" by (cases e)
  have "of_le (to_le 4 ino) = ino" "of_le (to_le 2 (of_nat (8 + length nm + pad) :: u16)) = (of_nat (8 + length nm + pad) :: u16)"
    by (simp_all add: of_le_to_le take_bit_word_eq_self)
  moreover have "of_le [b] = (b :: byte)" for b by (simp add: of_le_def)
  ultimately show ?thesis
    by (simp add: e decode_dir_entry_def le32_def le16_def le8_def field_def)
qed

lemma unat_pos:
  "n < 2 ^ 63 \<Longrightarrow> unat (of_nat n :: u64) = n" "n < 2 ^ 63 \<Longrightarrow> unat (of_nat n + 1 :: u64) = Suc n"
proof -
  assume n: "n < 2 ^ 63"
  then show u: "unat (of_nat n :: u64) = n" by (intro unat_of_nat_lt) simp
  show "unat (of_nat n + 1 :: u64) = Suc n" using n by (subst unat_word_ariths(1)) (simp add: u)
qed

lemma entry_step:
  assumes "entry_ok e" "dat = pre @ encode_entry e @ rest" "length dat < 2 ^ 63"
  shows "of_nat (length pre) + 1 < (of_nat (length dat) :: u64)"
    "drop (unat (of_nat (length pre) :: u64)) dat = encode_entry e @ rest"
    "of_nat (length pre) + ucast (size_of_entry (entry_header e)) = (of_nat (length (pre @ encode_entry e)) :: u64)"
    "take (unat (name_length (entry_header e))) (drop (unat (of_nat (length pre) :: u64) + 8) dat) = entry_name e"
    "unat (name_length (entry_header e)) = length (entry_name e)"
proof -
  obtain ino ty nm pad where e: "e = (ino, ty, nm, pad)" by (cases e)
  have l: "length (encode_entry e) = 8 + length nm + pad" by (simp add: e)
  have u: "unat (of_nat (length pre) :: u64) = length pre" using assms(2,3) by (intro unat_of_nat_lt) simp
  have "length pre < 2 ^ 63" "Suc (length pre) < length dat" using assms(2,3) l by simp_all
  then show "of_nat (length pre) + 1 < (of_nat (length dat) :: u64)"
    unfolding word_less_nat_alt unat_pos(1) [OF assms(3)] by (simp only: unat_pos(2))
  show "drop (unat (of_nat (length pre) :: u64)) dat = encode_entry e @ rest" by (simp add: u assms(2))
  have "unat (of_nat (8 + length nm + pad) :: u16) = 8 + length nm + pad" using assms(1) e by (intro unat_of_nat_lt) simp
  then have "(ucast (of_nat (8 + length nm + pad) :: u16) :: u64) = of_nat (8 + length nm + pad)"
    by (metis of_nat_unat)
  then show "of_nat (length pre) + ucast (size_of_entry (entry_header e)) = (of_nat (length (pre @ encode_entry e)) :: u64)"
    by (simp add: e)
  show n: "unat (name_length (entry_header e)) = length (entry_name e)"
    using assms(1) e by (auto intro!: unat_of_nat_lt)
  show "take (unat (name_length (entry_header e))) (drop (unat (of_nat (length pre) :: u64) + 8) dat) = entry_name e"
    unfolding n u by (simp add: assms(2) e)
qed

lemma entry_names_dir:
  "list_all entry_ok es \<Longrightarrow> length (pre @ dir_bytes es) < 2 ^ 63 \<Longrightarrow>
   entry_names (pre @ dir_bytes es) (of_nat (length pre)) acc = Some (rev (map entry_name es) @ acc)"
proof (induction es arbitrary: pre acc)
  case Nil
  have "length pre < 2 ^ 63" using Nil(2) by (simp add: dir_bytes_def)
  then have "\<not> of_nat (length pre) + 1 < (of_nat (length pre) :: u64)"
    unfolding word_less_nat_alt unat_pos(1) [OF \<open>length pre < 2 ^ 63\<close>] by (simp only: unat_pos(2))
  then show ?case by (subst entry_names.simps) (simp add: dir_bytes_def)
next
  case (Cons e es)
  let ?dat = "pre @ dir_bytes (e # es)"
  have d: "?dat = pre @ encode_entry e @ dir_bytes es" by (simp add: dir_bytes_def)
  note st = entry_step [OF _ d Cons.prems(2)]
  have "entry_ok e" using Cons.prems(1) by simp
  then show ?case
    using Cons.IH [of "pre @ encode_entry e"] Cons.prems st
    by (subst entry_names.simps) (simp add: Let_def field_def decode_encode d [symmetric] del: entry_header.simps encode_entry.simps)
qed

text \<open>
  \<open>strncmp\<close> over the shorter of the two lengths: an entry matches when its name and the wanted
  name agree as far as the shorter one goes.
\<close>

definition name_match :: "byte list \<Rightarrow> dirent \<Rightarrow> bool" where
  "name_match seg e \<longleftrightarrow> (let m = min (length (entry_name e)) (length seg) in take m seg = take m (entry_name e))"

lemma strncmp_zero_take:
  "m \<le> length a \<Longrightarrow> m \<le> length b \<Longrightarrow> 0 \<notin> set (take m a) \<Longrightarrow> 0 \<notin> set (take m b) \<Longrightarrow>
     strncmp_zero a b m = (take m a = take m b)"
proof (induction m arbitrary: a b)
  case 0
  then show ?case by simp
next
  case (Suc m)
  then obtain x a' y b' where "a = x # a'" "b = y # b'" by (metis Suc_le_length_iff)
  with Suc show ?case by (auto simp: Let_def)
qed

lemma take_of_prefix:
  assumes "take (length nm) raw = nm" "m \<le> length nm"
  shows "take m raw = take m nm" "length nm \<le> length raw"
proof -
  have "take m nm = take m (take (length nm) raw)" by (simp only: assms(1))
  then show "take m raw = take m nm" using assms(2) by (simp add: min_absorb1)
  have "length (take (length nm) raw) = length nm" by (simp only: assms(1))
  then show "length nm \<le> length raw" by simp
qed

lemma strncmp_zero_prefix:
  assumes "take (length nm) raw = nm" "0 \<notin> set nm" "0 \<notin> set seg"
  defines "m \<equiv> min (length nm) (length seg)"
  shows "strncmp_zero (seg @ rest) raw m = (take m seg = take m nm)"
proof -
  have m: "m \<le> length nm" "m \<le> length seg" by (simp_all add: m_def)
  note t = take_of_prefix [OF assms(1) m(1)]
  have "0 \<notin> set (take m raw)" unfolding t(1) using assms(2) by (auto dest: in_set_takeD)
  moreover have "0 \<notin> set (take m (seg @ rest))" using assms(3) m by (auto dest: in_set_takeD)
  ultimately show ?thesis using strncmp_zero_take [of m "seg @ rest" raw] m t by simp
qed

lemma find_entry_dir:
  "list_all entry_ok es \<Longrightarrow> length (pre @ dir_bytes es) < 2 ^ 63 \<Longrightarrow> 0 \<notin> set seg \<Longrightarrow>
   find_entry (pre @ dir_bytes es) (seg @ rest) (length seg) (of_nat (length pre)) =
     Some (case find (name_match seg) es of None \<Rightarrow> zero_dir_entry | Some e \<Rightarrow> entry_header e)"
proof (induction es arbitrary: pre)
  case Nil
  have "length pre < 2 ^ 63" using Nil(2) by (simp add: dir_bytes_def)
  then have "\<not> of_nat (length pre) + 1 < (of_nat (length pre) :: u64)"
    unfolding word_less_nat_alt unat_pos(1) [OF \<open>length pre < 2 ^ 63\<close>] by (simp only: unat_pos(2))
  then show ?case by (subst find_entry.simps) (simp add: dir_bytes_def)
next
  case (Cons e es)
  let ?dat = "pre @ dir_bytes (e # es)" and ?m = "min (length (entry_name e)) (length seg)"
  have d: "?dat = pre @ encode_entry e @ dir_bytes es" by (simp add: dir_bytes_def)
  have ok: "entry_ok e" using Cons.prems(1) by simp
  note st = entry_step [OF ok d Cons.prems(2)]
  let ?raw = "drop (unat (of_nat (length pre) :: u64) + 8) ?dat"
  have nm: "take (length (entry_name e)) ?raw = entry_name e" using st(4) st(5) by simp
  have "0 \<notin> set (entry_name e)" using ok by (cases e) simp
  then have m: "strncmp_zero (seg @ rest) ?raw ?m = name_match seg e"
    unfolding name_match_def Let_def by (rule strncmp_zero_prefix [OF nm _ Cons.prems(3)])
  show ?case
    using Cons.IH [of "pre @ encode_entry e"] Cons.prems st m
    by (subst find_entry.simps) (simp add: Let_def decode_encode d [symmetric] del: entry_header.simps encode_entry.simps)
qed

section \<open>Properties\<close>

text \<open>
  C18. The direct, single, double and triple indirect cases of
  \<open>ext2_get_nth_block_offset_of_inode\<close> together are the walk of the pointer tree by the digits
  of the block index, and a block beyond the tree has offset 0: none of the 32- and 64-bit
  index computations wraps for block sizes up to 128 KB.
\<close>

theorem nth_block_offset_walks_tree:
  assumes "bs = s_block_get_block_size sb" "4 \<le> unat bs" "unat bs \<le> 2 ^ 17"
    "ext2_read_inode_metadata rd fs sb ino_num = Some ino"
  shows "ext2_get_nth_block_offset_of_inode rd fs sb ino_num k = Some (block_offset fs bs (ref_block rd fs bs ino (unat k)))"
  using assms by (simp add: ext2_get_nth_block_offset_of_inode_def Let_def nth_block_eq_ref)

text \<open>A small file system for the examples: 1 KB blocks, inode 2 with three bytes in block 7.\<close>

definition small_fs :: filesystem_data where
  "small_fs = \<lparr>disk_number = 0, start_offset = 1024, fs_type = FILESYSTEM_TYPE_EXT2\<rparr>"

definition small_sb :: ext2_super_block where
  "small_sb = (decode_super_block [])\<lparr>number_of_inodes_per_group := 8, inode_size := 128\<rparr>"

definition small_img :: "u64 \<Rightarrow> byte" where
  "small_img a = (if a = 2056 then 5 else if a = 5252 then 3 else if a = 5288 then 7 else if a = 7168 then 65 else 0)"

lemma small_sb_simps [simp]:
  "s_block_get_block_size small_sb = 1024" "number_of_inodes_per_group small_sb = 8" "inode_size small_sb = 128"
  by (simp_all add: s_block_get_block_size_def small_sb_def decode_super_block_def le32_def field_def of_le_def)

lemma le32_disk_data:
  assumes "unat offset mod 512 + unat sz \<le> 512 * ((unat sz + 511) div 512)" "i + 4 \<le> unat sz"
  shows "le32 (disk_data img past offset sz) i = of_le [img (offset + of_nat i), img (offset + of_nat (i + 1)),
    img (offset + of_nat (i + 2)), img (offset + of_nat (i + 3))]"
proof -
  have "disk_data img past offset sz = bytes_at img offset (unat sz)"
    using assms(1) by (auto simp: disk_data_def bytes_at_def Let_def)
  moreover have "field (bytes_at img offset (unat sz)) i 4 = map (\<lambda>j. img (offset + of_nat j)) [i, i + 1, i + 2, i + 3]"
    using assms(2) by (intro nth_equalityI) (auto simp: field_def nth_Cons' less_Suc_eq numeral_eq_Suc add_ac)
  ultimately show ?thesis by (simp add: le32_def)
qed

lemma small_inode:
  "\<exists>ino. ext2_read_inode_metadata (disk_data small_img (\<lambda>_. 0)) small_fs small_sb 2 = Some ino"
  "ext2_get_inode_size (disk_data small_img (\<lambda>_. 0)) small_fs small_sb 2 = Some 3"
proof -
  show "\<exists>ino. ext2_read_inode_metadata (disk_data small_img (\<lambda>_. 0)) small_fs small_sb 2 = Some ino"
    by (simp add: ext2_read_inode_metadata_def Let_def)
  have "start_block_inode_table (ext2_read_block_group_descriptor (disk_data small_img (\<lambda>_. 0)) small_fs small_sb 0) = 5"
    by (simp add: ext2_read_block_group_descriptor_def sizeof_block_group_descriptor_def decode_block_group_descriptor_def
        small_fs_def le32_disk_data small_img_def of_le_def)
  then show "ext2_get_inode_size (disk_data small_img (\<lambda>_. 0)) small_fs small_sb 2 = Some 3"
    by (simp add: ext2_get_inode_size_def ext2_read_inode_metadata_def Let_def decode_inode_def small_fs_def
        le32_disk_data small_img_def of_le_def)
qed

theorem nth_block_offset_walks_tree_witness:
  "\<exists>ino. ext2_get_nth_block_offset_of_inode (disk_data small_img (\<lambda>_. 0)) small_fs small_sb 2 300 =
     Some (block_offset small_fs 1024 (ref_block (disk_data small_img (\<lambda>_. 0)) small_fs 1024 ino 300))"
proof -
  obtain ino where "ext2_read_inode_metadata (disk_data small_img (\<lambda>_. 0)) small_fs small_sb 2 = Some ino"
    using small_inode(1) by blast
  from nth_block_offset_walks_tree [OF _ _ _ this, of 1024 300] show ?thesis by auto
qed



text \<open>
  C20. For a directory whose data is a sequence of entries, the listing is the names of all
  entries, last first, and a search returns the first entry whose name agrees with the wanted
  name as far as the shorter of the two goes, or a zero entry.  An entry whose name is only a
  prefix of the wanted name is therefore taken for it.
\<close>

theorem directory_search_prefix:
  assumes "list_all entry_ok es" "length (dir_bytes es) < 2 ^ 63" "0 \<notin> set seg"
  shows "entry_names (dir_bytes es) 0 [] = Some (rev (map entry_name es)) \<and>
    find_entry (dir_bytes es) (seg @ rest) (length seg) 0 =
       Some (case find (name_match seg) es of None \<Rightarrow> zero_dir_entry | Some e \<Rightarrow> entry_header e)"
  using entry_names_dir [of es "[]" "[]"] find_entry_dir [of es "[]" seg rest] assms by simp_all

theorem directory_search_prefix_witness:
  "find_entry (dir_bytes [(11, 2, lit ''a'', 3), (12, 2, lit ''abc'', 1)]) (lit ''abc'') 3 0 = Some (entry_header (11, 2, lit ''a'', 3)) \<and>
   entry_names (dir_bytes [(11, 2, lit ''a'', 3), (12, 2, lit ''abc'', 1)]) 0 [] = Some [lit ''abc'', lit ''a'']"
proof -
  let ?es = "[(11, 2, lit ''a'', 3), (12, 2, lit ''abc'', 1)]"
  have h: "list_all entry_ok ?es" "length (dir_bytes ?es) < 2 ^ 63" "0 \<notin> set (lit ''abc'')"
    by (simp_all add: dir_bytes_def)
  have "find (name_match (lit ''abc'')) ?es = Some (11, 2, lit ''a'', 3)" by (simp add: name_match_def)
  then show ?thesis
    using directory_search_prefix [OF h, of "[]"] by (simp add: numeral_3_eq_3)
qed

end
