(* ===== verification/Vfs.thy ===== *)
theory Vfs
  imports Ext2
begin

text \<open>
  The virtual file system, \<open>kernel/arch/x86_64/vfs.c\<close> and \<open>kernel/include/vfs.h\<close>.  The node
  tree is a store from node identifiers (the addresses of the \<open>vfs_node\<close> blocks) to nodes, since
  the code links and mutates nodes in place; path strings are byte lists, and the buffers for
  them are not tracked.  A node that lies on an ext2 file system is reached through the
  functions of \<open>Ext2\<close>, with \<open>rd\<close> giving the disk reader of every disk number.
\<close>

section \<open>Nodes\<close>

datatype vfs_node_type = UNWNOWN_TYPE | VFS_NODE_TYPE_REGULAR_FILE | VFS_NODE_TYPE_DIR | VFS_NODE_TYPE_CHAR_DEVICE
  | VFS_NODE_TYPE_BLOCK_DEVICE | VFS_NODE_TYPE_FIFO | VFS_NODE_TYPE_SOCKET | VFS_NODE_TYPE_SYMBOLINK
  | VFS_NODE_TYPE_FILE_SYSTEM

datatype vfs_status = OK | CONTINUES_IN_FILE_SYSTEM | DIR_ALREADY_EXISTS | UNSUPPORTED | INVALID_PATH | NO_DIR | MEMORY_ERR

text \<open>The \<open>data\<close> pointer: the child list of a directory (NULL when empty) or a mounted file system.\<close>

datatype vfs_data = Children "nat list" | Mounted filesystem_data

record vfs_node =
  vtype :: vfs_node_type
  vname :: "byte list"
  vdata :: vfs_data

record vfs =
  nodes :: "nat \<Rightarrow> vfs_node"
  next_node :: nat
  vfs_root :: nat

definition VFS_NODE_NAME_NUM_OF_CHARS :: nat where "VFS_NODE_NAME_NUM_OF_CHARS = 256"

fun child_list :: "vfs_data \<Rightarrow> nat list" where
  "child_list (Children cs) = cs"
| "child_list (Mounted fs) = []"

definition children :: "vfs \<Rightarrow> nat \<Rightarrow> nat list" where
  "children s n = child_list (vdata (nodes s n))"

definition init_vfs :: "vfs \<Rightarrow> vfs" where
  "init_vfs s =
     (let n = next_node s
      in s\<lparr>nodes := (nodes s)(n := \<lparr>vtype = VFS_NODE_TYPE_DIR, vname = lit ''/'', vdata = Children []\<rparr>),
           next_node := n + 1, vfs_root := n\<rparr>)"

definition find_child_node :: "vfs \<Rightarrow> nat \<Rightarrow> byte list \<Rightarrow> nat option" where
  "find_child_node s parent seg =
     (if vtype (nodes s parent) \<noteq> VFS_NODE_TYPE_DIR then None
      else find (\<lambda>c. vname (nodes s c) = seg) (children s parent))"

section \<open>Lookup\<close>

text \<open>\<open>None\<close> is a null pointer.\<close>

record vfs_get_node_return_t =
  found_node :: "nat option"
  remaining_path :: "byte list option"
  status :: vfs_status

function vfs_walk :: "vfs \<Rightarrow> byte list \<Rightarrow> nat \<Rightarrow> byte list \<Rightarrow> byte list \<Rightarrow> vfs_get_node_return_t" where
  "vfs_walk s p current_node sep pos =
     (if pos = [] then \<lparr>found_node = Some current_node, remaining_path = None, status = OK\<rparr>
      else if vtype (nodes s current_node) = VFS_NODE_TYPE_FILE_SYSTEM
        then \<lparr>found_node = Some current_node, remaining_path = Some sep, status = CONTINUES_IN_FILE_SYSTEM\<rparr>
      else if vtype (nodes s current_node) \<noteq> VFS_NODE_TYPE_DIR
        then \<lparr>found_node = None, remaining_path = Some p, status = NO_DIR\<rparr>
      else case find_child_node s current_node (segment pos) of
          None \<Rightarrow> \<lparr>found_node = Some current_node, remaining_path = Some sep, status = OK\<rparr>
        | Some child_node \<Rightarrow> vfs_walk s p child_node (after_segment pos) (drop 1 (after_segment pos)))"
  by auto
termination
proof (relation "measure (\<lambda>(s, p, n, sep, pos). length pos)", goal_cases)
  case (2 s p n sep pos c)
  then show ?case using length_after_segment [of pos] by (cases "after_segment pos") auto
qed simp

declare vfs_walk.simps [simp del]

definition vfs_get_node :: "vfs \<Rightarrow> byte list \<Rightarrow> vfs_get_node_return_t" where
  "vfs_get_node s pth =
     (case preprocess_path pth of
        None \<Rightarrow> \<lparr>found_node = None, remaining_path = None, status = MEMORY_ERR\<rparr>
      | Some p \<Rightarrow>
          if p = [] then \<lparr>found_node = None, remaining_path = Some p, status = INVALID_PATH\<rparr>
          else vfs_walk s p (vfs_root s) p (skip_root p))"

section \<open>Operations\<close>

text \<open>
  The node name is an array of 256 characters: copying a longer name is undefined, the outer
  \<open>None\<close>.
\<close>

definition add_child :: "vfs \<Rightarrow> nat \<Rightarrow> byte list \<Rightarrow> vfs" where
  "add_child s parent nm =
     (let n = next_node s;
          ns = (nodes s)(n := \<lparr>vtype = VFS_NODE_TYPE_DIR, vname = nm, vdata = Children []\<rparr>)
      in s\<lparr>nodes := ns(parent := (ns parent)\<lparr>vdata := Children (n # children s parent)\<rparr>), next_node := n + 1\<rparr>)"

definition vfs_mkdir :: "vfs \<Rightarrow> byte list \<Rightarrow> (vfs \<times> nat option) option" where
  "vfs_mkdir s pth =
     (let r = vfs_get_node s pth in
      case remaining_path r of None \<Rightarrow> Some (s, None)
      | Some rest \<Rightarrow>
          (case found_node r of None \<Rightarrow> Some (s, None)
           | Some parent_folder \<Rightarrow>
               if vtype (nodes s parent_folder) \<noteq> VFS_NODE_TYPE_DIR then Some (s, None)
               else let dir_name = drop 1 rest
                    in if PATH_SEPERATOR \<in> set dir_name then Some (s, None)
                       else if VFS_NODE_NAME_NUM_OF_CHARS < length dir_name + 1 then None
                       else Some (add_child s parent_folder dir_name, Some (next_node s))))"

definition mount_file_system :: "vfs \<Rightarrow> byte list \<Rightarrow> u64 \<Rightarrow> u64 \<Rightarrow> file_system_type \<Rightarrow> vfs \<times> nat option" where
  "mount_file_system s pth disk disk_offset ty =
     (let r = vfs_get_node s pth in
      case found_node r of None \<Rightarrow> (s, None)
      | Some n \<Rightarrow>
          if remaining_path r \<noteq> None then (s, None)
          else if vtype (nodes s n) \<noteq> VFS_NODE_TYPE_DIR then (s, None)
          else if vdata (nodes s n) \<noteq> Children [] then (s, None)
          else (s\<lparr>nodes := (nodes s)(n := (nodes s n)\<lparr>vtype := VFS_NODE_TYPE_FILE_SYSTEM,
                  vdata := Mounted \<lparr>disk_number = disk, start_offset = disk_offset, fs_type = ty\<rparr>\<rparr>)\<rparr>, Some n))"

text \<open>The path inside a mounted file system; the root of it when nothing remains.\<close>

definition fs_path :: "vfs_get_node_return_t \<Rightarrow> byte list" where
  "fs_path r = (case remaining_path r of None \<Rightarrow> lit ''/'' | Some p \<Rightarrow> p)"

fun mounted_fs :: "vfs_data \<Rightarrow> filesystem_data option" where
  "mounted_fs (Mounted fs) = Some fs"
| "mounted_fs (Children cs) = None"

text \<open>The list returned is built by prepending, so it is the reverse of the child list.\<close>

definition vfs_list_dir :: "vfs \<Rightarrow> (u64 \<Rightarrow> disk_reader) \<Rightarrow> byte list \<Rightarrow> byte list list option" where
  "vfs_list_dir s rd pth =
     (let r = vfs_get_node s pth in
      case found_node r of None \<Rightarrow> Some []
      | Some n \<Rightarrow>
          if vtype (nodes s n) = VFS_NODE_TYPE_DIR then Some (rev (map (\<lambda>c. vname (nodes s c)) (children s n)))
          else if vtype (nodes s n) = VFS_NODE_TYPE_FILE_SYSTEM then
            (case mounted_fs (vdata (nodes s n)) of None \<Rightarrow> None
             | Some fs \<Rightarrow> if fs_type fs = FILESYSTEM_TYPE_EXT2 then ext2_list_dir (rd (disk_number fs)) fs (fs_path r)
                         else Some [])
          else Some [])"

definition EXT2_S_IFDIR :: u16 where "EXT2_S_IFDIR = 0x4000"
definition EXT2_S_IFREG :: u16 where "EXT2_S_IFREG = 0x8000"
definition EXT2_S_IFMT :: u16 where "EXT2_S_IFMT = 0xF000"

definition vfs_path_exists :: "vfs \<Rightarrow> (u64 \<Rightarrow> disk_reader) \<Rightarrow> byte list \<Rightarrow> int option" where
  "vfs_path_exists s rd pth =
     (let r = vfs_get_node s pth in
      case found_node r of None \<Rightarrow> Some 0
      | Some n \<Rightarrow>
          if vtype (nodes s n) = VFS_NODE_TYPE_DIR
            then Some (if status r = OK \<and> remaining_path r = None then 1 else 0)
          else if vtype (nodes s n) = VFS_NODE_TYPE_FILE_SYSTEM then
            (case mounted_fs (vdata (nodes s n)) of None \<Rightarrow> None
             | Some fs \<Rightarrow>
                 if fs_type fs = FILESYSTEM_TYPE_EXT2 then
                   (let s_block = ext2_read_super_block (rd (disk_number fs)) fs in
                    do { inode_num \<leftarrow> ext2_get_inode_number_at_path (rd (disk_number fs)) fs s_block (fs_path r);
                         if inode_num = 0 then Some 0
                         else do { ino \<leftarrow> ext2_read_inode_metadata (rd (disk_number fs)) fs s_block inode_num;
                                   Some (if i_mode ino AND EXT2_S_IFMT = EXT2_S_IFDIR then 1
                                         else if i_mode ino AND EXT2_S_IFMT = EXT2_S_IFREG then 2 else - 1) } })
                 else Some 0)
          else Some (if status r = OK then 2 else 0))"

definition vfs_read :: "vfs \<Rightarrow> (u64 \<Rightarrow> disk_reader) \<Rightarrow> byte list \<Rightarrow> u64 \<Rightarrow> u64 \<Rightarrow> (int \<times> byte list) option" where
  "vfs_read s rd pth offset_bytes count_bytes =
     (let r = vfs_get_node s pth in
      case found_node r of None \<Rightarrow> Some (- 1, [])
      | Some n \<Rightarrow>
          if vtype (nodes s n) = VFS_NODE_TYPE_FILE_SYSTEM then
            (case mounted_fs (vdata (nodes s n)) of None \<Rightarrow> None
             | Some fs \<Rightarrow>
                 if fs_type fs = FILESYSTEM_TYPE_EXT2 then
                   (let s_block = ext2_read_super_block (rd (disk_number fs)) fs in
                    do { inode_num \<leftarrow> ext2_get_inode_number_at_path (rd (disk_number fs)) fs s_block (fs_path r);
                         if inode_num = 0 then Some (- 1, [])
                         else do { bs \<leftarrow> ext2_read_inode (rd (disk_number fs)) fs s_block inode_num offset_bytes count_bytes;
                                   Some (int (length bs), bs) } })
                 else Some (0, []))
          else Some (0, []))"

definition vfs_get_file_size :: "vfs \<Rightarrow> (u64 \<Rightarrow> disk_reader) \<Rightarrow> byte list \<Rightarrow> int option" where
  "vfs_get_file_size s rd pth =
     (let r = vfs_get_node s pth in
      case found_node r of None \<Rightarrow> Some (- 1)
      | Some n \<Rightarrow>
          if vtype (nodes s n) = VFS_NODE_TYPE_FILE_SYSTEM then
            (case mounted_fs (vdata (nodes s n)) of None \<Rightarrow> None
             | Some fs \<Rightarrow>
                 if fs_type fs = FILESYSTEM_TYPE_EXT2 then
                   (let s_block = ext2_read_super_block (rd (disk_number fs)) fs in
                    do { inode_num \<leftarrow> ext2_get_inode_number_at_path (rd (disk_number fs)) fs s_block (fs_path r);
                         if inode_num = 0 then Some (- 1)
                         else do { sz \<leftarrow> ext2_get_inode_size (rd (disk_number fs)) fs s_block inode_num;
                                   Some (sint sz) } })
                 else Some 0)
          else Some 0)"

definition vfs_write :: "vfs \<Rightarrow> byte list \<Rightarrow> u64 \<Rightarrow> u64 \<Rightarrow> byte list \<Rightarrow> vfs \<times> int" where
  "vfs_write s pth offset_bytes count_bytes out_buffer = (s, 0)"

section \<open>Lookup against the tree\<close>

text \<open>The abstract lookup: follow the segments while they name children of directories.\<close>

fun resolve :: "vfs \<Rightarrow> nat \<Rightarrow> byte list list \<Rightarrow> nat \<times> byte list list" where
  "resolve s n [] = (n, [])"
| "resolve s n (seg # segs) =
     (case find_child_node s n seg of None \<Rightarrow> (n, seg # segs) | Some c \<Rightarrow> resolve s c segs)"

lemma segments_Nil [simp]: "segments [] = []"
  by (simp add: segments.simps)

lemma segments_Cons: "p \<noteq> [] \<Longrightarrow> segments p = segment p # segments (drop 1 (after_segment p))"
  by (subst segments.simps) simp

lemma after_segment_sep: "after_segment p \<noteq> [] \<Longrightarrow> after_segment p = PATH_SEPERATOR # drop 1 (after_segment p)"
  unfolding after_segment_def using hd_dropWhile [of "\<lambda>c. c \<noteq> PATH_SEPERATOR" p]
  by (cases "dropWhile (\<lambda>c. c \<noteq> PATH_SEPERATOR) p") auto

definition walk_result :: "vfs \<Rightarrow> byte list \<Rightarrow> nat \<times> byte list list \<Rightarrow> vfs_get_node_return_t \<Rightarrow> bool" where
  "walk_result s p cr r \<longleftrightarrow>
     (case cr of (c, rest) \<Rightarrow>
        if rest = [] then r = \<lparr>found_node = Some c, remaining_path = None, status = OK\<rparr>
        else if vtype (nodes s c) = VFS_NODE_TYPE_FILE_SYSTEM \<or> vtype (nodes s c) = VFS_NODE_TYPE_DIR
          then \<exists>q. r = \<lparr>found_node = Some c, remaining_path = Some (PATH_SEPERATOR # q),
                 status = (if vtype (nodes s c) = VFS_NODE_TYPE_DIR then OK else CONTINUES_IN_FILE_SYSTEM)\<rparr> \<and>
                 q \<noteq> [] \<and> segments q = rest \<and> suffix q p
        else r = \<lparr>found_node = None, remaining_path = Some p, status = NO_DIR\<rparr>)"

lemma suffix_after_segment: "suffix (drop 1 (after_segment p)) p"
  unfolding after_segment_def dropWhile_eq_drop by (simp add: suffix_drop)

lemma vfs_walk_resolve:
  "pos = [] \<or> sep = PATH_SEPERATOR # pos \<Longrightarrow> suffix pos p \<Longrightarrow>
     walk_result s p (resolve s n (segments pos)) (vfs_walk s p n sep pos)"
proof (induction s p n sep pos rule: vfs_walk.induct)
  case (1 s p n sep pos)
  show ?case
  proof (cases "pos = []")
    case True
    then show ?thesis by (simp add: walk_result_def vfs_walk.simps)
  next
    case False
    then have sep: "sep = PATH_SEPERATOR # pos" using "1.prems"(1) by simp
    note sg = segments_Cons [OF False]
    have stop: ?thesis if "find_child_node s n (segment pos) = None"
      using that False sep sg "1.prems"(2) by (subst vfs_walk.simps) (auto simp: walk_result_def)
    show ?thesis
    proof (cases "find_child_node s n (segment pos)")
      case (Some c)
      then have d: "vtype (nodes s n) = VFS_NODE_TYPE_DIR" by (auto simp: find_child_node_def split: if_splits)
      have "drop 1 (after_segment pos) = [] \<or> after_segment pos = PATH_SEPERATOR # drop 1 (after_segment pos)"
        using after_segment_sep [of pos] by (cases "after_segment pos") auto
      moreover have "suffix (drop 1 (after_segment pos)) p"
        using "1.prems"(2) suffix_after_segment suffix_order.order_trans by blast
      ultimately have
        "walk_result s p (resolve s c (segments (drop 1 (after_segment pos)))) (vfs_walk s p c (after_segment pos) (drop 1 (after_segment pos)))"
        using "1.IH" [OF False _ _ Some] d by simp
      then show ?thesis using False d Some by (subst vfs_walk.simps) (simp add: sg)
    qed (rule stop)
  qed
qed

lemma get_node_resolve:
  "preprocess_path pth = Some (PATH_SEPERATOR # q) \<Longrightarrow>
     walk_result s (PATH_SEPERATOR # q) (resolve s (vfs_root s) (segments q)) (vfs_get_node s pth)"
  using vfs_walk_resolve [of q "PATH_SEPERATOR # q" "PATH_SEPERATOR # q" s "vfs_root s"]
  by (simp add: vfs_get_node_def skip_root_def suffix_ConsI)

text \<open>A rest of one segment is that segment, in a path that does not end in a separator.\<close>

lemma single_segment:
  assumes "q \<noteq> []" "last q \<noteq> PATH_SEPERATOR"
  shows "PATH_SEPERATOR \<notin> set q \<longleftrightarrow> length (segments q) = 1" "length (segments q) = 1 \<Longrightarrow> segments q = [q]"
proof -
  have e: "segment q @ after_segment q = q" by (simp add: segment_def after_segment_def)
  have iff: "PATH_SEPERATOR \<notin> set q \<longleftrightarrow> after_segment q = []"
    by (auto simp: after_segment_def dropWhile_eq_Nil_conv)
  have "drop 1 (after_segment q) \<noteq> []" if "after_segment q \<noteq> []"
    using that assms(2) e after_segment_sep [OF that] by (metis last_appendR last_ConsL)
  then have len: "length (segments q) = 1 \<longleftrightarrow> after_segment q = []"
    using segments_Cons [OF assms(1)] segments_Cons [of "drop 1 (after_segment q)"] by (cases "after_segment q = []") auto
  then show "PATH_SEPERATOR \<notin> set q \<longleftrightarrow> length (segments q) = 1" using iff by simp
  show "length (segments q) = 1 \<Longrightarrow> segments q = [q]"
    using len e segments_Cons [OF assms(1)] by simp
qed

lemma resolve_stop: "resolve s n segs = (c, x # xs) \<Longrightarrow> find_child_node s c x = None"
proof (induction segs arbitrary: n)
  case (Cons seg segs)
  then show ?case by (cases "find_child_node s n seg") auto
qed simp

lemma mkdir_cases:
  assumes p: "preprocess_path pth = Some (PATH_SEPERATOR # q)" and r: "resolve s (vfs_root s) (segments q) = (c, rest)"
  shows "vfs_mkdir s pth =
    (if length rest = 1 \<and> vtype (nodes s c) = VFS_NODE_TYPE_DIR
     then if VFS_NODE_NAME_NUM_OF_CHARS < length (hd rest) + 1 then None
          else Some (add_child s c (hd rest), Some (next_node s))
     else Some (s, None))"
proof -
  have w: "walk_result s (PATH_SEPERATOR # q) (c, rest) (vfs_get_node s pth)" using get_node_resolve [OF p, of s] r by simp
  have nl: "last q' \<noteq> PATH_SEPERATOR" if "suffix q' (PATH_SEPERATOR # q)" "q' \<noteq> []" "q \<noteq> []" for q'
  proof -
    have sx: "suffix q' (PATH_SEPERATOR # q)" by (rule that(1))
    have "last (PATH_SEPERATOR # q) \<noteq> PATH_SEPERATOR"
      using preprocess_normal [OF p] that(3) by (auto simp: normal_path_def)
    moreover obtain pre where "PATH_SEPERATOR # q = pre @ q'" using sx unfolding suffix_def by blast
    ultimately show ?thesis using that(2) by simp
  qed
  show ?thesis
  proof (cases "rest = [] \<or> vtype (nodes s c) \<noteq> VFS_NODE_TYPE_DIR")
    case True
    then show ?thesis using w by (auto simp: walk_result_def vfs_mkdir_def Let_def split: if_splits)
  next
    case False
    then obtain q' where q': "vfs_get_node s pth = \<lparr>found_node = Some c, remaining_path = Some (PATH_SEPERATOR # q'), status = OK\<rparr>"
      "q' \<noteq> []" "segments q' = rest" "suffix q' (PATH_SEPERATOR # q)"
      using w by (auto simp: walk_result_def split: if_splits)
    have "q \<noteq> []" using r False by auto
    note sg = single_segment [OF q'(2) nl [OF q'(4,2) this]]
    show ?thesis
    proof (cases "length rest = 1")
      case True
      with sg q'(3) have "rest = [q']" "PATH_SEPERATOR \<notin> set q'" by simp_all
      then show ?thesis using q'(1) False by (simp add: vfs_mkdir_def Let_def)
    next
      case long: False
      with sg q'(3) have "PATH_SEPERATOR \<in> set q'" by simp
      then show ?thesis using q'(1) False long by (simp add: vfs_mkdir_def Let_def)
    qed
  qed
qed

section \<open>The tree invariant\<close>

text \<open>
  Children are newer than their parent, so the nodes form a tree; the names in a directory are
  distinct, not empty and free of separators.
\<close>

definition vfs_wf :: "vfs \<Rightarrow> bool" where
  "vfs_wf s \<longleftrightarrow> vfs_root s < next_node s \<and>
     (\<forall>i < next_node s. \<forall>c \<in> set (children s i). i < c \<and> c < next_node s \<and>
        vname (nodes s c) \<noteq> [] \<and> PATH_SEPERATOR \<notin> set (vname (nodes s c))) \<and>
     (\<forall>i < next_node s. distinct (map (\<lambda>c. vname (nodes s c)) (children s i)))"

lemma vfs_wf_child: "vfs_wf s \<Longrightarrow> n < next_node s \<Longrightarrow> find_child_node s n seg = Some c \<Longrightarrow> c < next_node s"
proof -
  assume "vfs_wf s" "n < next_node s" "find_child_node s n seg = Some c"
  then have "c \<in> set (children s n)"
    by (auto simp: find_child_node_def find_Some_iff split: if_splits)
  with \<open>vfs_wf s\<close> \<open>n < next_node s\<close> show ?thesis unfolding vfs_wf_def by blast
qed

lemma add_child_simps:
  assumes "parent < next_node s"
  shows "children (add_child s parent nm) parent = next_node s # children s parent"
    "children (add_child s parent nm) (next_node s) = []"
    "n < next_node s \<Longrightarrow> n \<noteq> parent \<Longrightarrow> children (add_child s parent nm) n = children s n"
    "n < next_node s \<Longrightarrow> vname (nodes (add_child s parent nm) n) = vname (nodes s n)"
    "n < next_node s \<Longrightarrow> vtype (nodes (add_child s parent nm) n) = vtype (nodes s n)"
    "vname (nodes (add_child s parent nm) (next_node s)) = nm"
    "next_node (add_child s parent nm) = Suc (next_node s)" "vfs_root (add_child s parent nm) = vfs_root s"
  using assms by (simp_all add: add_child_def children_def Let_def)

lemma add_child_wf:
  assumes wf: "vfs_wf s" and p: "parent < next_node s" "vtype (nodes s parent) = VFS_NODE_TYPE_DIR"
    and nm: "find_child_node s parent nm = None" "nm \<noteq> []" "PATH_SEPERATOR \<notin> set nm"
  shows "vfs_wf (add_child s parent nm)"
proof -
  let ?s = "add_child s parent nm"
  note a = add_child_simps [OF p(1), where nm = nm]
  have old: "i < c \<and> c < next_node s \<and> vname (nodes s c) \<noteq> [] \<and> PATH_SEPERATOR \<notin> set (vname (nodes s c))"
    if "i < next_node s" "c \<in> set (children s i)" for i c
    using wf that unfolding vfs_wf_def by blast
  have fresh: "nm \<notin> (\<lambda>c. vname (nodes s c)) ` set (children s parent)"
    using nm(1) p(2) by (auto simp: find_child_node_def find_None_iff)
  have names: "map (\<lambda>c. vname (nodes ?s c)) (children s i) = map (\<lambda>c. vname (nodes s c)) (children s i)"
    if "i < next_node s" for i using old [OF that] a(4) by simp
  have dist: "distinct (map (\<lambda>c. vname (nodes s c)) (children s i))" if "i < next_node s" for i
    using wf that unfolding vfs_wf_def by blast
  have new: "i < c \<and> c < next_node ?s \<and> vname (nodes ?s c) \<noteq> [] \<and> PATH_SEPERATOR \<notin> set (vname (nodes ?s c))"
    if "i < next_node ?s" "c \<in> set (children ?s i)" for i c
  proof -
    have "i = next_node s \<or> i = parent \<and> c = next_node s \<or> i < next_node s \<and> c \<in> set (children s i)"
      using that a(1,7) a(3) [of i] p(1) by (cases "i = parent") (auto simp: less_Suc_eq)
    then consider "i = next_node s" | "i = parent" "c = next_node s" | "i < next_node s" "c \<in> set (children s i)" by blast
    then show ?thesis
    proof cases
      case 1
      then show ?thesis using that(2) a(2) by simp
    next
      case 2
      then show ?thesis using p(1) nm a(6,7) by simp
    next
      case 3
      then show ?thesis using old [OF 3] a(4,7) by simp
    qed
  qed
  have "distinct (map (\<lambda>c. vname (nodes ?s c)) (children ?s i))" if "i < next_node ?s" for i
  proof -
    have "i = next_node s \<or> i = parent \<or> i < next_node s \<and> i \<noteq> parent" using that a(7) by auto
    then consider "i = next_node s" | "i = parent" | "i < next_node s" "i \<noteq> parent" by blast
    then show ?thesis
    proof cases
      case 1
      then show ?thesis using a(2) by simp
    next
      case 2
      have "map (\<lambda>c. vname (nodes ?s c)) (children ?s parent) = nm # map (\<lambda>c. vname (nodes s c)) (children s parent)"
        by (simp only: a(1) list.map names [OF p(1)] a(6))
      then show ?thesis using 2 dist [OF p(1)] fresh by simp
    next
      case 3
      show ?thesis using dist [OF 3(1)] by (simp only: a(3) [OF 3] names [OF 3(1)])
    qed
  qed
  moreover have "vfs_root ?s < next_node ?s" using wf a(7,8) by (simp add: vfs_wf_def)
  ultimately show ?thesis using new unfolding vfs_wf_def by blast
qed

lemma find_child_add:
  assumes wf: "vfs_wf s" and p: "parent < next_node s" "n < next_node s" and seg: "\<not> (n = parent \<and> seg = nm)"
  shows "find_child_node (add_child s parent nm) n seg = find_child_node s n seg"
proof -
  note a = add_child_simps [OF p(1), where nm = nm]
  have "find (\<lambda>c. vname (nodes (add_child s parent nm) c) = seg) (children s n) = find (\<lambda>c. vname (nodes s c) = seg) (children s n)"
  proof (rule find_cong [OF refl])
    fix c
    assume "c \<in> set (children s n)"
    then have "c < next_node s" using wf p(2) unfolding vfs_wf_def by blast
    then show "(vname (nodes (add_child s parent nm) c) = seg) = (vname (nodes s c) = seg)" using a(4) by simp
  qed
  then show ?thesis
    using p a(1,5,6) a(3) [of n] seg by (cases "n = parent") (auto simp: find_child_node_def)
qed

lemma resolve_add_old:
  assumes "vfs_wf s" "parent < next_node s" "find_child_node s parent nm = None"
  shows "n < next_node s \<Longrightarrow> resolve s n segs = (m, []) \<Longrightarrow> resolve (add_child s parent nm) n segs = (m, [])"
proof (induction segs arbitrary: n)
  case Nil
  then show ?case by simp
next
  case (Cons seg segs)
  then obtain c where c: "find_child_node s n seg = Some c" "resolve s c segs = (m, [])" by (auto split: option.splits)
  then have "\<not> (n = parent \<and> seg = nm)" using assms(3) by auto
  then have "find_child_node (add_child s parent nm) n seg = Some c"
    using find_child_add [OF assms(1,2) Cons.prems(1)] c(1) by simp
  then show ?case using Cons.IH [OF vfs_wf_child [OF assms(1) Cons.prems(1) c(1)] c(2)] by simp
qed

lemma resolve_add_new:
  assumes "vfs_wf s" "vtype (nodes s parent) = VFS_NODE_TYPE_DIR"
  shows "n < next_node s \<Longrightarrow> resolve s n segs = (parent, [nm]) \<Longrightarrow>
     resolve (add_child s parent nm) n segs = (next_node s, []) \<and> parent < next_node s"
proof (induction segs arbitrary: n)
  case Nil
  then show ?case by simp
next
  case (Cons seg segs)
  note none = resolve_stop [OF Cons.prems(2)]
  show ?case
  proof (cases "find_child_node s n seg")
    case None
    then have e: "n = parent" "seg = nm" "segs = []" using Cons.prems by auto
    then show ?thesis
      using Cons.prems(1) assms(2) add_child_simps [of parent s, where nm = nm] by (simp add: find_child_node_def)
  next
    case (Some c)
    then have r: "resolve s c segs = (parent, [nm])" using Cons.prems by simp
    note ih = Cons.IH [OF vfs_wf_child [OF assms(1) Cons.prems(1) Some] r]
    have "\<not> (n = parent \<and> seg = nm)" using Some none by auto
    then have "find_child_node (add_child s parent nm) n seg = Some c"
      using find_child_add [OF assms(1) conjunct2 [OF ih] Cons.prems(1)] Some by simp
    then show ?thesis using ih by simp
  qed
qed

section \<open>Properties\<close>

text \<open>
  C16. For every path whose normal form is absolute, \<open>vfs_get_node\<close> implements the lookup in the
  tree of nodes: it follows the segments as long as they name children of directories.  When all
  are used up it returns the node with no remaining path; on a directory or a mounted file
  system it returns the last node reached and a remaining path with exactly the segments left;
  on any other node it reports that the path does not exist.
\<close>

theorem vfs_get_node_refines_tree:
  assumes "preprocess_path pth = Some (PATH_SEPERATOR # q)"
  shows "walk_result s (PATH_SEPERATOR # q) (resolve s (vfs_root s) (segments q)) (vfs_get_node s pth)"
  by (rule get_node_resolve [OF assms])

definition empty_vfs :: vfs where
  "empty_vfs = init_vfs \<lparr>nodes = (\<lambda>_. \<lparr>vtype = UNWNOWN_TYPE, vname = [], vdata = Children []\<rparr>), next_node = 0, vfs_root = 0\<rparr>"

theorem vfs_get_node_refines_tree_witness:
  "walk_result empty_vfs (lit ''/mnt/a'') (resolve empty_vfs 0 [lit ''mnt'', lit ''a'']) (vfs_get_node empty_vfs (lit ''//mnt/a/''))"
proof -
  have e: "preprocess_path (lit ''//mnt/a/'') = Some (PATH_SEPERATOR # lit ''mnt/a'')"
    "segments (lit ''mnt/a'') = [lit ''mnt'', lit ''a'']" "vfs_root empty_vfs = 0" "PATH_SEPERATOR # lit ''mnt/a'' = lit ''/mnt/a''"
    by code_simp+
  from vfs_get_node_refines_tree [OF e(1), of empty_vfs] show ?thesis unfolding e(2-4) .
qed



end
