(* ===== verification/Keyboard.thy ===== *)
theory Keyboard
  imports Prelude "HOL-Library.Monad_Syntax"
begin

text \<open>
  The PS/2 keyboard: scan code translation (\<open>kernel/arch/x86_64/scs1.c\<close>), and the ring buffer and
  modifier state of \<open>kernel/arch/x86_64/io.c\<close>.  \<open>None\<close> is an access outside the buffer array.
\<close>

section \<open>Scan codes\<close>

text \<open>A key of scan code set 1: one character, one that shift changes, or a letter.\<close>

datatype key = Plain byte | Shifted byte byte | Letter byte byte

definition scs1_table :: "(u16 \<times> key) list" where
  "scs1_table =
    [(0x01, Plain 27), (0x02, Shifted 49 33), (0x03, Shifted 50 64), (0x04, Shifted 51 35),
     (0x05, Shifted 52 36), (0x06, Shifted 53 37), (0x07, Shifted 54 94), (0x08, Shifted 55 38),
     (0x09, Shifted 56 42), (0x0A, Shifted 57 40), (0x0B, Shifted 48 41), (0x0C, Shifted 45 95),
     (0x0D, Shifted 61 43), (0x0E, Plain 8), (0x0F, Plain 9), (0x10, Letter 113 81), (0x11, Letter 119 87),
     (0x12, Letter 101 69), (0x13, Letter 114 82), (0x14, Letter 116 84), (0x15, Letter 121 89),
     (0x16, Letter 117 85), (0x17, Letter 105 73), (0x18, Letter 111 79), (0x19, Letter 112 80),
     (0x1A, Shifted 91 123), (0x1B, Shifted 93 125), (0x1C, Plain 10), (0x1D, Plain 0), (0x1E, Letter 97 65),
     (0x1F, Letter 115 83), (0x20, Letter 100 68), (0x21, Letter 102 70), (0x22, Letter 103 71),
     (0x23, Letter 104 72), (0x24, Letter 106 74), (0x25, Letter 107 75), (0x26, Letter 108 76),
     (0x27, Shifted 59 58), (0x28, Shifted 39 34), (0x29, Shifted 96 126), (0x2A, Plain 0),
     (0x2B, Shifted 92 124), (0x2C, Letter 122 90), (0x2D, Letter 120 88), (0x2E, Letter 99 67),
     (0x2F, Letter 118 86), (0x30, Letter 98 66), (0x31, Letter 110 78), (0x32, Letter 109 77),
     (0x33, Shifted 44 60), (0x34, Shifted 46 62), (0x35, Shifted 47 63), (0x36, Plain 0), (0x37, Plain 42),
     (0x38, Plain 0), (0x39, Plain 32), (0x3A, Plain 0), (0x3B, Plain 0), (0x3C, Plain 0), (0x3D, Plain 0),
     (0x3E, Plain 0), (0x3F, Plain 0), (0x40, Plain 0), (0x41, Plain 0), (0x42, Plain 0), (0x43, Plain 0),
     (0x44, Plain 0), (0x45, Plain 0), (0x46, Plain 0), (0x47, Plain 55), (0x48, Plain 56), (0x49, Plain 57),
     (0x4A, Plain 45), (0x4B, Plain 52), (0x4C, Plain 53), (0x4D, Plain 54), (0x4E, Plain 43),
     (0x4F, Plain 49), (0x50, Plain 50), (0x51, Plain 51), (0x52, Plain 48), (0x53, Plain 46), (0x57, Plain 0),
     (0x58, Plain 0)]"

definition scs1_to_ascii :: "u16 \<Rightarrow> bool \<Rightarrow> bool \<Rightarrow> byte" where
  "scs1_to_ascii scan_code shift caps_on =
     (case map_of scs1_table scan_code of
        None \<Rightarrow> 0
      | Some (Plain c) \<Rightarrow> c
      | Some (Shifted c d) \<Rightarrow> (if shift then d else c)
      | Some (Letter c d) \<Rightarrow> (if shift \<or> caps_on then d else c))"

definition scs1_is_press :: "u16 \<Rightarrow> bool" where
  "scs1_is_press scan_code \<longleftrightarrow> scan_code < 0x81"

section \<open>State\<close>

record keyboard_state =
  caps :: bool
  lshift :: bool
  lctrl :: bool
  lalt :: bool
  altgr :: bool
  rctrl :: bool
  rshift :: bool
  ext :: bool
  up :: bool
  down :: bool
  left :: bool
  right :: bool

record keyboard_t =
  buffer :: "byte list"
  tmp :: "byte list"
  buffer_head :: u64
  buffer_tail :: u64
  ks :: keyboard_state

definition BUFFER_SIZE :: nat where "BUFFER_SIZE = 0x100"

definition keyboard :: keyboard_t where
  "keyboard = \<lparr>buffer = replicate BUFFER_SIZE 0, tmp = replicate BUFFER_SIZE 0, buffer_head = 0, buffer_tail = 0,
     ks = \<lparr>caps = False, lshift = False, lctrl = False, lalt = False, altgr = False, rctrl = False, rshift = False,
           ext = False, up = False, down = False, left = False, right = False\<rparr>\<rparr>"

definition is_special_char :: "byte \<Rightarrow> bool" where
  "is_special_char c \<longleftrightarrow> \<not> (c \<noteq> 8 \<and> c \<noteq> 13 \<and> c \<noteq> 0x1B \<and> c \<noteq> 9 \<and> c \<noteq> 10 \<and> c \<noteq> - 1 \<and> c \<noteq> 0)"

definition buffer_clear :: "keyboard_t \<Rightarrow> keyboard_t" where
  "buffer_clear k = k\<lparr>buffer_head := 0, buffer_tail := 0, buffer := replicate BUFFER_SIZE 0\<rparr>"

definition buffer_len :: "keyboard_t \<Rightarrow> int" where
  "buffer_len k = sint (ucast (buffer_tail k) :: u32)"

section \<open>The ring buffer\<close>

definition buffer_put_c :: "keyboard_t \<Rightarrow> byte \<Rightarrow> keyboard_t option" where
  "buffer_put_c k c =
     (let nxt = (buffer_head k + 1) mod of_nat BUFFER_SIZE in
      if nxt \<noteq> buffer_tail k then
        if unat (buffer_head k) < BUFFER_SIZE
        then Some (k\<lparr>buffer := (buffer k)[unat (buffer_head k) := c], buffer_head := nxt\<rparr>) else None
      else Some k)"

definition EOF :: int where "EOF = - 1"

text \<open>
  Reading a backspace moves the bytes behind it down by two places, over the backspace and the
  character before it, through \<open>tmp\<close>; this needs two places before the new tail.
\<close>

definition shift_two :: "keyboard_t \<Rightarrow> keyboard_t" where
  "shift_two k =
     (let t = unat (buffer_tail k); n = BUFFER_SIZE - (t + 1);
          moved = take n (drop t (buffer k)) @ replicate (BUFFER_SIZE - n) 0
      in k\<lparr>tmp := moved, buffer := take (t - 2) (buffer k) @ take n moved @ drop (t - 2 + n) (buffer k),
           buffer_head := buffer_head k - 2, buffer_tail := buffer_tail k - 2\<rparr>)"

definition buffer_get :: "keyboard_t \<Rightarrow> (keyboard_t \<times> int) option" where
  "buffer_get k =
     (if buffer_head k = buffer_tail k then Some (k, EOF)
      else if BUFFER_SIZE \<le> unat (buffer_tail k) then None
      else let c = buffer k ! unat (buffer_tail k);
               k = k\<lparr>buffer_tail := (buffer_tail k + 1) mod of_nat BUFFER_SIZE\<rparr>
           in if c \<noteq> 8 then Some (k, sint c)
              else if unat (buffer_tail k) < 2 then None
              else Some (shift_two k, sint c))"

definition buffer_is_empty :: "keyboard_t \<Rightarrow> bool" where
  "buffer_is_empty k \<longleftrightarrow> buffer_head k = buffer_tail k \<and> \<not> (up (ks k) \<or> down (ks k) \<or> left (ks k) \<or> right (ks k))"

section \<open>Keys\<close>

definition special_key_press :: "keyboard_state \<Rightarrow> u16 \<Rightarrow> keyboard_state" where
  "special_key_press s scan_code =
     (if scan_code = 0x3A then s\<lparr>caps := \<not> caps s\<rparr>
      else if scan_code = 0x2A then s\<lparr>lshift := True\<rparr>
      else if scan_code = 0xAA then s\<lparr>lshift := False\<rparr>
      else if scan_code = 0x1D then s\<lparr>lctrl := True\<rparr>
      else if scan_code = 0x9D then s\<lparr>lctrl := False, rctrl := False\<rparr>
      else if scan_code = 0x38 then s\<lparr>lalt := True\<rparr>
      else if scan_code = 0xB8 then s\<lparr>lalt := False, altgr := False\<rparr>
      else if scan_code = 0xE0 then s\<lparr>ext := True\<rparr>
      else if scan_code = 0x3B then s\<lparr>rctrl := (ext s \<or> rctrl s), ext := False\<rparr>
      else if scan_code = 0xBB then s\<lparr>rctrl := (\<not> ext s \<and> rctrl s), ext := False\<rparr>
      else if scan_code = 0x36 then s\<lparr>rshift := True\<rparr>
      else if scan_code = 0xB6 then s\<lparr>rshift := False\<rparr>
      else if scan_code = 0x48 then s\<lparr>up := (ext s \<or> up s), ext := False\<rparr>
      else if scan_code = 0xC8 then s\<lparr>up := (\<not> ext s \<and> up s), ext := False\<rparr>
      else if scan_code = 0x4B then s\<lparr>left := (ext s \<or> left s), ext := False\<rparr>
      else if scan_code = 0xCB then s\<lparr>left := (\<not> ext s \<and> left s), ext := False\<rparr>
      else if scan_code = 0x4D then s\<lparr>right := (ext s \<or> right s), ext := False\<rparr>
      else if scan_code = 0xCD then s\<lparr>right := (\<not> ext s \<and> right s), ext := False\<rparr>
      else if scan_code = 0x50 then s\<lparr>down := (ext s \<or> down s), ext := False\<rparr>
      else if scan_code = 0xD0 then s\<lparr>down := (\<not> ext s \<and> down s), ext := False\<rparr>
      else s)"

text \<open>\<open>clear_trailing_space\<close>: the loop from index \<open>i - 1\<close> down, with the number of backspaces put.\<close>

fun clear_spaces :: "keyboard_t \<Rightarrow> nat \<Rightarrow> (keyboard_t \<times> int) option" where
  "clear_spaces k 0 = Some (k, 0)"
| "clear_spaces k (Suc i) =
     (if BUFFER_SIZE \<le> i then None
      else if buffer k ! i = ch (CHR '' '')
        then do { k' \<leftarrow> buffer_put_c k 8; (k'', n) \<leftarrow> clear_spaces k' i; Some (k'', n + 1) }
      else Some (k, 0))"

definition clear_trailing_space :: "keyboard_t \<Rightarrow> int \<Rightarrow> (keyboard_t \<times> int) option" where
  "clear_trailing_space k start = (if start \<le> 0 then Some (k, 0) else clear_spaces k (nat start))"

text \<open>The loop over the current word; \<open>start\<close> is decremented with the index.\<close>

fun clear_word :: "keyboard_t \<Rightarrow> int \<Rightarrow> nat \<Rightarrow> (keyboard_t \<times> int) option" where
  "clear_word k start 0 = Some (k, start)"
| "clear_word k start (Suc i) =
     (if BUFFER_SIZE \<le> i then None
      else if buffer k ! i \<noteq> ch (CHR '' '')
        then do { k' \<leftarrow> (if \<not> is_special_char (buffer k ! i) then buffer_put_c k 8 else Some k);
                  clear_word k' (start - 1) i }
      else Some (k, start))"

definition delete_word :: "keyboard_t \<Rightarrow> keyboard_t option" where
  "delete_word k =
     (let start = sint (ucast (buffer_head k) :: u32) in
      do { (k, tspaces) \<leftarrow> clear_trailing_space k start;
           let start = start - tspaces - 1;
           if start < 0 then Some k
           else do { (k, start) \<leftarrow> clear_word k start (nat (start + 1));
                     (k, _) \<leftarrow> clear_trailing_space k start;
                     Some k } })"

definition buffer_put :: "keyboard_t \<Rightarrow> byte \<Rightarrow> keyboard_t option" where
  "buffer_put k s =
     (let st = special_key_press (ks k) (ucast s); k = k\<lparr>ks := st\<rparr> in
      if ext st \<or> up st \<or> left st \<or> down st \<or> right st then Some k
      else let uc = scs1_to_ascii (ucast s) (lshift st \<or> rshift st) (caps st) in
        if (lctrl st \<or> rctrl st) \<and> \<not> (lshift st \<or> rshift st) \<and> (uc = 8 \<or> uc = 0x0C \<or> uc = ch (CHR ''w''))
        then if uc = 8 \<or> uc = ch (CHR ''w'') then delete_word k else Some k
        else if lctrl st \<or> rctrl st \<or> lalt st \<or> altgr st then Some k
        else if uc \<noteq> 0 then buffer_put_c k uc else Some k)"

text \<open>
  \<open>wait_key\<close> spins until the buffer has something; the scan codes are what the keyboard
  interrupt delivers meanwhile, and \<open>None\<close> also stands for waiting on.
\<close>

fun wait_buffer :: "keyboard_t \<Rightarrow> byte list \<Rightarrow> keyboard_t option" where
  "wait_buffer k [] = (if buffer_is_empty k then None else Some k)"
| "wait_buffer k (s # ss) =
     (if buffer_is_empty k then do { k' \<leftarrow> buffer_put k s; wait_buffer k' ss } else Some k)"

definition CURSOR_UP :: int where "CURSOR_UP = 0x100"
definition CURSOR_LEFT :: int where "CURSOR_LEFT = 0x101"
definition CURSOR_RIGHT :: int where "CURSOR_RIGHT = 0x102"
definition CURSOR_DOWN :: int where "CURSOR_DOWN = 0x103"

definition wait_key :: "keyboard_t \<Rightarrow> byte list \<Rightarrow> (keyboard_t \<times> int) option" where
  "wait_key k scans =
     do { k \<leftarrow> wait_buffer k scans;
          (k, c) \<leftarrow> buffer_get k;
          if c \<noteq> EOF then Some (k, c)
          else if up (ks k) then Some (k\<lparr>ks := (ks k)\<lparr>up := False\<rparr>\<rparr>, CURSOR_UP)
          else if down (ks k) then Some (k\<lparr>ks := (ks k)\<lparr>down := False\<rparr>\<rparr>, CURSOR_DOWN)
          else if left (ks k) then Some (k\<lparr>ks := (ks k)\<lparr>left := False\<rparr>\<rparr>, CURSOR_LEFT)
          else if right (ks k) then Some (k\<lparr>ks := (ks k)\<lparr>right := False\<rparr>\<rparr>, CURSOR_RIGHT)
          else Some (k, EOF) }"

section \<open>The queue contract\<close>

text \<open>Runs of an operation: over a list of arguments, and repeated \<open>n\<close> times collecting the results.\<close>

fun run_all :: "('s \<Rightarrow> 'a \<Rightarrow> 's option) \<Rightarrow> 's \<Rightarrow> 'a list \<Rightarrow> 's option" where
  "run_all f s [] = Some s"
| "run_all f s (x # xs) = Option.bind (f s x) (\<lambda>s'. run_all f s' xs)"

fun drain :: "('s \<Rightarrow> ('s \<times> 'r) option) \<Rightarrow> nat \<Rightarrow> 's \<Rightarrow> ('s \<times> 'r list) option" where
  "drain g 0 s = Some (s, [])"
| "drain g (Suc n) s = Option.bind (g s) (\<lambda>(s', r). map_option (\<lambda>(t, rs). (t, r # rs)) (drain g n s'))"

text \<open>
  A bounded queue of items of which the \<open>plain\<close> ones are delivered unchanged.
\<close>

locale bounded_queue =
  fixes put :: "'s \<Rightarrow> 'a \<Rightarrow> 's option"
    and get :: "'s \<Rightarrow> ('s \<times> 'r) option"
    and items :: "'s \<Rightarrow> 'a list"
    and inv :: "'s \<Rightarrow> bool"
    and cap :: nat
    and deliver :: "'a \<Rightarrow> 'r"
    and plain :: "'a \<Rightarrow> bool"
  assumes put_room: "inv s \<Longrightarrow> length (items s) < cap \<Longrightarrow> \<exists>s'. put s x = Some s' \<and> inv s' \<and> items s' = items s @ [x]"
    and put_full: "inv s \<Longrightarrow> length (items s) = cap \<Longrightarrow> put s x = Some s"
    and get_plain: "inv s \<Longrightarrow> items s = x # xs \<Longrightarrow> plain x \<Longrightarrow>
          \<exists>s'. get s = Some (s', deliver x) \<and> inv s' \<and> items s' = xs"
begin

lemma put_list:
  "inv s \<Longrightarrow> length (items s) + length xs \<le> cap \<Longrightarrow>
     \<exists>s'. run_all put s xs = Some s' \<and> inv s' \<and> items s' = items s @ xs"
proof (induction xs arbitrary: s)
  case (Cons x xs)
  obtain s1 where s1: "put s x = Some s1" "inv s1" "items s1 = items s @ [x]"
    using put_room [of s x] Cons.prems by auto
  then show ?case using Cons.IH [of s1] Cons.prems by auto
qed simp

lemma get_list:
  "inv s \<Longrightarrow> items s = xs @ ys \<Longrightarrow> list_all plain xs \<Longrightarrow>
     \<exists>s'. drain get (length xs) s = Some (s', map deliver xs) \<and> inv s' \<and> items s' = ys"
proof (induction xs arbitrary: s)
  case (Cons x xs)
  obtain s1 where s1: "get s = Some (s1, deliver x)" "inv s1" "items s1 = xs @ ys"
    using get_plain [of s x "xs @ ys"] Cons.prems by auto
  then show ?case using Cons.IH [of s1] Cons.prems by auto
qed simp

lemma fifo:
  assumes "inv s" "length (items s @ xs) \<le> cap" "list_all plain (items s @ xs)"
  shows "\<exists>s1 s2. run_all put s xs = Some s1 \<and> drain get (length (items s @ xs)) s1 = Some (s2, map deliver (items s @ xs))
           \<and> inv s2 \<and> items s2 = []"
proof -
  obtain s1 where "run_all put s xs = Some s1" "inv s1" "items s1 = items s @ xs"
    using put_list [of s xs] assms by auto
  then show ?thesis using get_list [of s1 "items s @ xs" "[]"] assms by auto
qed

lemma put_full_list: "inv s \<Longrightarrow> length (items s) = cap \<Longrightarrow> run_all put s xs = Some s"
  by (induction xs) (simp_all add: put_full)

end

section \<open>The ring buffer is such a queue\<close>

definition ring_inv :: "keyboard_t \<Rightarrow> bool" where
  "ring_inv k \<longleftrightarrow> length (buffer k) = BUFFER_SIZE \<and> unat (buffer_head k) < BUFFER_SIZE \<and> unat (buffer_tail k) < BUFFER_SIZE"

definition pending :: "keyboard_t \<Rightarrow> nat" where
  "pending k = (unat (buffer_head k) + BUFFER_SIZE - unat (buffer_tail k)) mod BUFFER_SIZE"

definition contents_of :: "keyboard_t \<Rightarrow> byte list" where
  "contents_of k = map (\<lambda>j. buffer k ! ((unat (buffer_tail k) + j) mod BUFFER_SIZE)) [0..<pending k]"

lemma next_index: "unat i < BUFFER_SIZE \<Longrightarrow> unat ((i + 1 :: u64) mod of_nat BUFFER_SIZE) = (unat i + 1) mod BUFFER_SIZE"
  by (simp add: unat_word_ariths BUFFER_SIZE_def)

lemma length_contents_of [simp]: "length (contents_of k) = pending k"
  by (simp add: contents_of_def)

lemma ring_step:
  assumes "h < (256::nat)" "t < 256"
  shows "(h + 1) mod 256 \<noteq> t \<Longrightarrow> ((h + 1) mod 256 + 256 - t) mod 256 = (h + 256 - t) mod 256 + 1"
    and "(h + 1) mod 256 = t \<longleftrightarrow> (h + 256 - t) mod 256 = 255"
    and "h \<noteq> t \<Longrightarrow> (h + 256 - (t + 1) mod 256) mod 256 = (h + 256 - t) mod 256 - 1"
    and "(h + 256 - t) mod 256 = 0 \<longleftrightarrow> h = t"
    and "(t + (h + 256 - t) mod 256) mod 256 = h"
    and "(h + 256 - t) mod 256 < 256"
proof -
  have cases: "(h + 256 - t) mod 256 = (if t \<le> h then h - t else h + 256 - t)"
    using assms by (auto simp: mod_if)
  show "(h + 1) mod 256 \<noteq> t \<Longrightarrow> ((h + 1) mod 256 + 256 - t) mod 256 = (h + 256 - t) mod 256 + 1"
    unfolding cases using assms by (auto simp: mod_if split: if_splits)
  show "(h + 1) mod 256 = t \<longleftrightarrow> (h + 256 - t) mod 256 = 255"
    unfolding cases using assms by (auto simp: mod_if split: if_splits)
  show "h \<noteq> t \<Longrightarrow> (h + 256 - (t + 1) mod 256) mod 256 = (h + 256 - t) mod 256 - 1"
    unfolding cases using assms by (auto simp: mod_if split: if_splits)
  show "(h + 256 - t) mod 256 = 0 \<longleftrightarrow> h = t"
    unfolding cases using assms by auto
  show "(t + (h + 256 - t) mod 256) mod 256 = h"
    unfolding cases using assms by (auto simp: mod_if)
  show "(h + 256 - t) mod 256 < 256" by simp
qed

lemma put_c_full_iff:
  "ring_inv k \<Longrightarrow> ((buffer_head k + 1) mod of_nat BUFFER_SIZE = buffer_tail k) = (pending k = 255)"
  using ring_step(2) [of "unat (buffer_head k)" "unat (buffer_tail k)"]
  by (simp add: ring_inv_def pending_def word_unat_eq_iff next_index) (simp add: BUFFER_SIZE_def)

lemma pending_le: "pending k \<le> 255"
  by (simp add: pending_def BUFFER_SIZE_def)

lemma put_c_room:
  assumes "ring_inv k" "pending k < 255"
  shows "\<exists>k'. buffer_put_c k c = Some k' \<and> ring_inv k' \<and> contents_of k' = contents_of k @ [c] \<and> ks k' = ks k"
proof -
  let ?h = "unat (buffer_head k)" and ?t = "unat (buffer_tail k)"
  let ?nxt = "(buffer_head k + 1) mod of_nat BUFFER_SIZE"
  let ?k = "k\<lparr>buffer := (buffer k)[?h := c], buffer_head := ?nxt\<rparr>"
  have inv: "?h < 256" "?t < 256" "length (buffer k) = 256" "unat ?nxt = (?h + 1) mod 256"
    using assms(1) next_index [of "buffer_head k"] by (simp_all add: ring_inv_def BUFFER_SIZE_def)
  have ne: "?nxt \<noteq> buffer_tail k" using put_c_full_iff [OF assms(1)] assms(2) by simp
  then have put: "buffer_put_c k c = Some ?k"
    using inv by (simp add: buffer_put_c_def BUFFER_SIZE_def)
  have nt: "(?h + 1) mod 256 \<noteq> ?t" using ne inv(4) by (auto simp: word_unat_eq_iff)
  have pend: "pending ?k = pending k + 1"
    using ring_step(1) [OF inv(1,2) nt] inv(4) by (simp add: pending_def BUFFER_SIZE_def)
  have last: "(?t + pending k) mod 256 = ?h"
    using ring_step(5) [OF inv(1,2)] by (simp add: pending_def BUFFER_SIZE_def)
  have other: "(?t + j) mod 256 \<noteq> ?h" if "j < pending k" for j
  proof
    assume "(?t + j) mod 256 = ?h"
    then have "(?t + j) mod 256 = (?t + pending k) mod 256" using last by simp
    then have "j mod 256 = pending k mod 256" by (simp add: mod_add_cong nat_mod_eq_iff)
    then show False using that pending_le [of k] by simp
  qed
  have "contents_of ?k = contents_of k @ [c]"
    using pend last other [THEN not_sym] inv by (simp add: contents_of_def BUFFER_SIZE_def nth_list_update_neq)
  moreover have "ring_inv ?k" using inv by (simp add: ring_inv_def BUFFER_SIZE_def)
  ultimately show ?thesis using put by simp
qed

lemma get_step:
  assumes "ring_inv k" "contents_of k = c # cs"
  defines "k1 \<equiv> k\<lparr>buffer_tail := (buffer_tail k + 1) mod of_nat BUFFER_SIZE\<rparr>"
  shows "buffer_head k \<noteq> buffer_tail k" "buffer k ! unat (buffer_tail k) = c"
    "ring_inv k1" "contents_of k1 = cs"
proof -
  let ?h = "unat (buffer_head k)" and ?t = "unat (buffer_tail k)"
  have inv: "?h < 256" "?t < 256" "length (buffer k) = 256"
    using assms(1) by (simp_all add: ring_inv_def BUFFER_SIZE_def)
  have len: "pending k = Suc (length cs)" using assms(2) by (metis length_Cons length_contents_of)
  then have ne: "?h \<noteq> ?t" using ring_step(4) [OF inv(1,2)] by (simp add: pending_def BUFFER_SIZE_def)
  then show "buffer_head k \<noteq> buffer_tail k" by auto
  have up: "[0..<pending k] = 0 # map Suc [0..<length cs]"
    using len by (simp add: map_Suc_upt upt_conv_Cons del: upt_Suc)
  have "buffer k ! (?t mod 256) = c" "cs = map (\<lambda>j. buffer k ! ((?t + Suc j) mod 256)) [0..<length cs]"
    using assms(2) unfolding contents_of_def up by (simp_all add: comp_def BUFFER_SIZE_def)
  then show "buffer k ! ?t = c" using inv by simp
  have t1: "unat (buffer_tail k1) = (?t + 1) mod 256"
    using inv next_index [of "buffer_tail k"] by (simp add: k1_def BUFFER_SIZE_def)
  then show "ring_inv k1" using inv by (simp add: ring_inv_def k1_def BUFFER_SIZE_def)
  have "pending k1 = length cs"
    using ring_step(3) [OF inv(1,2) ne] t1 len by (simp add: pending_def k1_def BUFFER_SIZE_def)
  moreover have "((?t + 1) mod 256 + j) mod 256 = (?t + Suc j) mod 256" for j
    by (simp add: mod_add_left_eq)
  ultimately show "contents_of k1 = cs"
    using t1 \<open>cs = _\<close> by (simp add: contents_of_def BUFFER_SIZE_def) (simp add: k1_def)
qed

interpretation kbq: bounded_queue buffer_put_c buffer_get contents_of ring_inv 255 sint "\<lambda>c. c \<noteq> 8"
proof unfold_locales
  fix k c
  assume "ring_inv k" "length (contents_of k) < 255"
  then show "\<exists>k'. buffer_put_c k c = Some k' \<and> ring_inv k' \<and> contents_of k' = contents_of k @ [c]"
    using put_c_room [of k c] by auto
next
  fix k c
  assume "ring_inv k" "length (contents_of k) = 255"
  then show "buffer_put_c k c = Some k"
    using put_c_full_iff [of k] by (simp add: buffer_put_c_def)
next
  fix k c cs
  assume *: "ring_inv k" "contents_of k = c # cs" "c \<noteq> 8"
  show "\<exists>k'. buffer_get k = Some (k', sint c) \<and> ring_inv k' \<and> contents_of k' = cs"
    using get_step [OF *(1,2)] *(1,3) by (simp add: buffer_get_def ring_inv_def not_le)
qed

section \<open>Correctness\<close>

lemma ring_inv_keyboard: "ring_inv keyboard" "contents_of keyboard = []"
  by (simp_all add: ring_inv_def keyboard_def contents_of_def pending_def BUFFER_SIZE_def)

text \<open>
  C23. The key buffer is a queue of 255 characters: characters put behind the pending ones come
  out in the order in which they went in, after the pending ones; characters put into a full
  buffer are dropped.
\<close>

theorem buffer_fifo:
  assumes "ring_inv k" "length (contents_of k) + length cs \<le> 255" "8 \<notin> set (contents_of k @ cs)"
  shows "\<exists>k1 k2. run_all buffer_put_c k cs = Some k1
           \<and> drain buffer_get (length (contents_of k @ cs)) k1 = Some (k2, map sint (contents_of k @ cs))
           \<and> ring_inv k2 \<and> contents_of k2 = []
           \<and> (length (contents_of k1) = 255 \<longrightarrow> run_all buffer_put_c k1 ds = Some k1)"
proof -
  have plain: "list_all (\<lambda>c. c \<noteq> 8) (contents_of k @ cs)"
    using assms(3) by (auto simp: list_all_iff)
  obtain k1 where k1: "run_all buffer_put_c k cs = Some k1" "ring_inv k1"
    using kbq.put_list [OF assms(1), of cs] assms(2) by auto
  then show ?thesis
    using kbq.fifo [OF assms(1) _ plain] assms(2) kbq.put_full_list [OF k1(2), of ds] by auto
qed

theorem buffer_fifo_witness:
  "\<exists>k1 k2. run_all buffer_put_c keyboard (lit ''ls'') = Some k1
     \<and> drain buffer_get 2 k1 = Some (k2, [108, 115]) \<and> contents_of k2 = []"
proof -
  have "(8 :: byte) \<notin> set (contents_of keyboard @ lit ''ls'')" by (simp add: ring_inv_keyboard)
  then show ?thesis
    using buffer_fifo [OF ring_inv_keyboard(1), of "lit ''ls''" "[]"] by (auto simp: ring_inv_keyboard numeral_2_eq_2)
qed

text \<open>A backspace that is read takes itself and its place out of an unwrapped buffer.\<close>

lemma shift_two_contents:
  assumes "ring_inv k" "2 \<le> unat (buffer_tail k)" "unat (buffer_tail k) \<le> unat (buffer_head k)"
  shows "ring_inv (shift_two k)" "contents_of (shift_two k) = contents_of k"
proof -
  let ?h = "unat (buffer_head k)" and ?t = "unat (buffer_tail k)"
  have inv: "?h < 256" "?t < 256" "length (buffer k) = 256"
    using assms(1) by (simp_all add: ring_inv_def BUFFER_SIZE_def)
  have h: "unat (buffer_head k - 2) = ?h - 2" and t: "unat (buffer_tail k - 2) = ?t - 2"
    using assms(2,3) by (simp_all add: unat_sub word_le_nat_alt)
  show "ring_inv (shift_two k)"
    using inv h t assms(2) by (auto simp: ring_inv_def shift_two_def Let_def BUFFER_SIZE_def)
  have p: "pending (shift_two k) = ?h - ?t" "pending k = ?h - ?t"
    using h t assms(2,3) inv by (simp_all add: pending_def shift_two_def Let_def BUFFER_SIZE_def mod_if)
  have "buffer (shift_two k) ! ((unat (buffer_tail (shift_two k)) + j) mod BUFFER_SIZE) = buffer k ! ((?t + j) mod BUFFER_SIZE)"
    if j: "j < ?h - ?t" for j
  proof -
    obtain t' where t': "?t = t' + 2" using assms(2) by (metis add.commute le_Suc_ex)
    moreover have "j < 253 - t'" using t' j inv(1) by simp
    ultimately show ?thesis
      using inv t assms(3) j by (simp add: shift_two_def Let_def BUFFER_SIZE_def nth_append)
  qed
  then show "contents_of (shift_two k) = contents_of k"
    unfolding contents_of_def p by simp
qed

text \<open>
  C24. Reading a backspace at the front of the buffer leaves the characters behind it when the
  pending characters do not wrap and something was read before; at index 0 or 255, where the
  two places before it do not exist, the code writes in front of the array.
\<close>

theorem buffer_get_backspace:
  assumes "ring_inv k" "contents_of k = 8 # cs"
  shows "(0 < unat (buffer_tail k) \<and> unat (buffer_tail k) < unat (buffer_head k) \<longrightarrow>
            (\<exists>k'. buffer_get k = Some (k', 8) \<and> ring_inv k' \<and> contents_of k' = cs))
       \<and> (unat (buffer_tail k) = 0 \<or> unat (buffer_tail k) = 255 \<longrightarrow> buffer_get k = None)"
proof -
  let ?t = "unat (buffer_tail k)"
  let ?k = "k\<lparr>buffer_tail := (buffer_tail k + 1) mod of_nat BUFFER_SIZE\<rparr>"
  note step = get_step [OF assms]
  have t: "?t < 256" "unat (buffer_head k) < 256" using assms(1) by (simp_all add: ring_inv_def BUFFER_SIZE_def)
  have t1: "unat (buffer_tail ?k) = (?t + 1) mod 256"
    using next_index [of "buffer_tail k"] t by (simp add: BUFFER_SIZE_def)
  have get: "buffer_get k = (if unat (buffer_tail ?k) < 2 then None else Some (shift_two ?k, 8))"
    using step t by (simp add: buffer_get_def Let_def BUFFER_SIZE_def)
  have "ring_inv (shift_two ?k)" "contents_of (shift_two ?k) = cs" if "0 < ?t" "?t < unat (buffer_head k)"
    using shift_two_contents [OF step(3)] step(4) t1 that t by simp_all
  then show ?thesis
    unfolding get using t1 t by auto
qed

lemma backspace_first_key: "\<exists>k1. buffer_put keyboard 0x0E = Some k1 \<and> ring_inv k1 \<and> contents_of k1 = [8] \<and> buffer_tail k1 = 0"
  by (simp add: buffer_put_def keyboard_def special_key_press_def scs1_to_ascii_def scs1_table_def buffer_put_c_def Let_def
      BUFFER_SIZE_def ring_inv_def contents_of_def pending_def)

theorem buffer_get_backspace_witness:
  "\<exists>k1. buffer_put keyboard 0x0E = Some k1 \<and> buffer_get k1 = None"
proof -
  obtain k1 where k1: "buffer_put keyboard 0x0E = Some k1" "ring_inv k1" "contents_of k1 = [8]" "buffer_tail k1 = 0"
    using backspace_first_key by auto
  then show ?thesis using buffer_get_backspace [OF k1(2,3)] by auto
qed

section \<open>Waiting for a key\<close>

fun key_chars :: "key \<Rightarrow> byte list" where
  "key_chars (Plain c) = [c]"
| "key_chars (Shifted c d) = [c, d]"
| "key_chars (Letter c d) = [c, d]"

lemma scs1_table_ascii: "list_all (\<lambda>(a, q). a < 0x80 \<and> list_all (\<lambda>c. c < 0x80) (key_chars q)) scs1_table"
  by (simp add: scs1_table_def)

lemma scs1_ascii: "scs1_to_ascii s sh cp < 0x80"
proof (cases "map_of scs1_table s")
  case (Some q)
  then have "list_all (\<lambda>c. c < 0x80) (key_chars q)"
    using map_of_SomeD [OF Some] scs1_table_ascii by (auto simp: list_all_iff)
  with Some show ?thesis by (cases q) (simp_all add: scs1_to_ascii_def)
qed (simp add: scs1_to_ascii_def)

lemma scs1_release: "0x80 \<le> s \<Longrightarrow> scs1_to_ascii s sh cp = 0"
proof -
  assume s: "0x80 \<le> s"
  have "map_of scs1_table s = None"
  proof (rule ccontr)
    assume "map_of scs1_table s \<noteq> None"
    then obtain q where "(s, q) \<in> set scs1_table" using map_of_SomeD by fastforce
    then have "s < 0x80" using scs1_table_ascii by (auto simp: list_all_iff)
    with s show False by simp
  qed
  then show ?thesis by (simp add: scs1_to_ascii_def)
qed

text \<open>No prefix byte, cursor key, control or alt key is being held.\<close>

definition idle :: "keyboard_state \<Rightarrow> bool" where
  "idle st \<longleftrightarrow> \<not> ext st \<and> \<not> up st \<and> \<not> down st \<and> \<not> left st \<and> \<not> right st
     \<and> \<not> lctrl st \<and> \<not> rctrl st \<and> \<not> lalt st \<and> \<not> altgr st"

definition release :: "byte \<Rightarrow> bool" where
  "release r \<longleftrightarrow> 0x80 \<le> r \<and> r \<noteq> 0xE0"

definition after_scans :: "keyboard_state \<Rightarrow> byte list \<Rightarrow> keyboard_state" where
  "after_scans = foldl (\<lambda>st r. special_key_press st (ucast r))"

lemma unat_ucast_byte: "unat (ucast (r :: byte) :: u16) = unat r"
proof -
  have "unat r < 2 ^ LENGTH(8)" by (rule unsigned_less)
  then show ?thesis by (simp add: unsigned_ucast_eq take_bit_nat_eq_self)
qed

lemma ucast_byte_inj: "((ucast r :: u16) = ucast t) = (r = t)" for r t :: byte
  by (simp add: word_unat_eq_iff unat_ucast_byte)

lemma ucast_byte_ge: "(0x80 \<le> (ucast (r :: byte) :: u16)) = (0x80 \<le> r)"
  by (simp add: word_le_nat_alt unat_ucast_byte)

lemma ucast_byte_eq: "((ucast (r :: byte) :: u16) = 0xE0) = (r = 0xE0)"
  using ucast_byte_inj [of r "0xE0"] by simp

lemma idle_release:
  assumes "idle st" "0x80 \<le> s" "s \<noteq> 0xE0"
  shows "idle (special_key_press st s)"
proof -
  have "s \<noteq> 0x3A" "s \<noteq> 0x2A" "s \<noteq> 0x1D" "s \<noteq> 0x38" "s \<noteq> 0x3B" "s \<noteq> 0x36" "s \<noteq> 0x48" "s \<noteq> 0x4B" "s \<noteq> 0x4D" "s \<noteq> 0x50"
    using assms(2) by auto
  with assms(1,3) show ?thesis by (simp add: special_key_press_def idle_def)
qed

lemma idle_printable:
  assumes "idle st" "scs1_to_ascii s sh cp \<noteq> 0"
  shows "special_key_press st s = st"
proof -
  have "s < 0x80" using scs1_release [of s] assms(2) by (meson not_le)
  then have "s \<noteq> 0xAA" "s \<noteq> 0x9D" "s \<noteq> 0xB8" "s \<noteq> 0xE0" "s \<noteq> 0xBB" "s \<noteq> 0xB6" "s \<noteq> 0xC8" "s \<noteq> 0xCB" "s \<noteq> 0xCD" "s \<noteq> 0xD0"
    by auto
  moreover have "s \<noteq> 0x3A" "s \<noteq> 0x2A" "s \<noteq> 0x1D" "s \<noteq> 0x38" "s \<noteq> 0x3B" "s \<noteq> 0x36"
    using assms(2) by (auto simp: scs1_to_ascii_def scs1_table_def)
  ultimately show ?thesis using assms(1) by (simp add: special_key_press_def idle_def)
qed

lemma buffer_put_release:
  "idle (ks k) \<Longrightarrow> release r \<Longrightarrow>
     buffer_put k r = Some (k\<lparr>ks := special_key_press (ks k) (ucast r)\<rparr>) \<and> idle (special_key_press (ks k) (ucast r))"
  using idle_release [of "ks k" "ucast r"] scs1_release [of "ucast r"]
  by (simp add: buffer_put_def release_def ucast_byte_ge ucast_byte_eq idle_def Let_def)

lemma buffer_put_printable:
  assumes "idle (ks k)" "scs1_to_ascii (ucast s) (lshift (ks k) \<or> rshift (ks k)) (caps (ks k)) \<noteq> 0"
  shows "buffer_put k s = buffer_put_c k (scs1_to_ascii (ucast s) (lshift (ks k) \<or> rshift (ks k)) (caps (ks k)))"
  using idle_printable [OF assms] assms by (simp add: buffer_put_def idle_def Let_def)

lemma wait_buffer_releases:
  "idle (ks k) \<Longrightarrow> buffer_is_empty k \<Longrightarrow> list_all release rs \<Longrightarrow>
     wait_buffer k (rs @ ss) = wait_buffer (k\<lparr>ks := after_scans (ks k) rs\<rparr>) ss
     \<and> idle (after_scans (ks k) rs)"
proof (induction rs arbitrary: k)
  case (Cons r rs)
  let ?k = "k\<lparr>ks := special_key_press (ks k) (ucast r)\<rparr>"
  have put: "buffer_put k r = Some ?k" "idle (ks ?k)" using buffer_put_release Cons.prems by auto
  then have "buffer_is_empty ?k" using Cons.prems(2) by (simp add: buffer_is_empty_def idle_def)
  with put Cons.IH [of ?k] Cons.prems show ?case by (simp add: after_scans_def)
qed (simp add: after_scans_def)

lemma sint_ascii: "c < (0x80 :: byte) \<Longrightarrow> sint c \<noteq> - 1"
proof
  assume c: "c < 0x80" and m: "sint c = - 1"
  have "sint c = sint (- 1 :: byte)" using m by simp
  then have "c = - 1" by (simp only: signed_word_eqI)
  with c show False by simp
qed

text \<open>
  C22. While no prefix, cursor, control or alt key is active, waiting for a key ends: after any
  number of key releases the first key with a character makes \<open>wait_key\<close> return that
  character, under the shift and caps state at that moment, and leaves the buffer empty.
\<close>

theorem wait_key_returns:
  assumes "ring_inv k" "contents_of k = []" "idle (ks k)" "list_all release rs"
    and "st = after_scans (ks k) rs"
    and "c = scs1_to_ascii (ucast s) (lshift st \<or> rshift st) (caps st)"
    and "c \<noteq> 0" "c \<noteq> 8"
  shows "\<exists>k'. wait_key k (rs @ s # ss) = Some (k', sint c) \<and> ring_inv k' \<and> contents_of k' = [] \<and> ks k' = st"
proof -
  let ?k = "k\<lparr>ks := st\<rparr>"
  have head: "buffer_head k = buffer_tail k"
    using assms(1,2) ring_step(4) [of "unat (buffer_head k)" "unat (buffer_tail k)"] length_contents_of [of k]
    by (simp add: ring_inv_def pending_def BUFFER_SIZE_def word_unat_eq_iff)
  have empty: "buffer_is_empty k" using head assms(3) by (simp add: buffer_is_empty_def idle_def)
  have idle: "idle st" and wait: "wait_buffer k (rs @ s # ss) = wait_buffer ?k (s # ss)"
    using wait_buffer_releases [OF assms(3) empty assms(4)] assms(5) by auto
  have emp': "buffer_is_empty ?k" using head idle by (simp add: buffer_is_empty_def idle_def)
  have inv: "ring_inv ?k" "contents_of ?k = []" "pending ?k < 255"
    using assms(1,2) length_contents_of [of k] by (simp_all add: ring_inv_def contents_of_def pending_def)
  obtain k1 where k1: "buffer_put_c ?k c = Some k1" "ring_inv k1" "contents_of k1 = [c]" "ks k1 = st"
    using put_c_room [OF inv(1,3), of c] inv(2) by auto
  have put: "buffer_put ?k s = Some k1"
    using buffer_put_printable [of ?k s] idle assms(6,7) k1(1) by simp
  have "\<not> buffer_is_empty k1" using get_step(1) [OF k1(2,3)] by (simp add: buffer_is_empty_def)
  then have wb: "wait_buffer ?k (s # ss) = Some k1" using emp' put by (cases ss) simp_all
  obtain k2 where k2: "buffer_get k1 = Some (k2, sint c)" "ring_inv k2" "contents_of k2 = []"
    using kbq.get_plain [OF k1(2,3) assms(8)] by auto
  have "ks k2 = st" using k2(1) k1(4) by (auto simp: buffer_get_def shift_two_def Let_def split: if_splits)
  moreover have "sint c \<noteq> - 1" using sint_ascii scs1_ascii assms(6) by simp
  ultimately show ?thesis using wait wb k2 by (simp add: wait_key_def EOF_def)
qed

theorem wait_key_returns_witness:
  "\<exists>k'. wait_key keyboard [0xAA, 0x9E, 0x1E] = Some (k', 97) \<and> contents_of k' = []"
  using wait_key_returns [OF ring_inv_keyboard, of "[0xAA, 0x9E]" "ks keyboard" 97 "0x1E" "[]"]
  by (auto simp: keyboard_def idle_def release_def after_scans_def special_key_press_def scs1_to_ascii_def scs1_table_def)

text \<open>The scan codes that clear the extended prefix.\<close>

definition ends_prefix :: "byte \<Rightarrow> bool" where
  "ends_prefix s \<longleftrightarrow> s \<in> {0x3B, 0xBB, 0x48, 0xC8, 0x4B, 0xCB, 0x4D, 0xCD, 0x50, 0xD0}"

lemma prefix_stays: "ext st \<Longrightarrow> \<not> ends_prefix s \<Longrightarrow> ext (special_key_press st (ucast s))"
proof -
  assume "ext st" "\<not> ends_prefix s"
  then show ?thesis
    using ucast_byte_inj [of s "0x3B"] ucast_byte_inj [of s "0xBB"] ucast_byte_inj [of s "0x48"] ucast_byte_inj [of s "0xC8"]
      ucast_byte_inj [of s "0x4B"] ucast_byte_inj [of s "0xCB"] ucast_byte_inj [of s "0x4D"] ucast_byte_inj [of s "0xCD"]
      ucast_byte_inj [of s "0x50"] ucast_byte_inj [of s "0xD0"]
    by (simp add: special_key_press_def ends_prefix_def)
qed

lemma put_prefixed:
  "ext (special_key_press (ks k) (ucast s)) \<Longrightarrow> buffer_put k s = Some (k\<lparr>ks := special_key_press (ks k) (ucast s)\<rparr>)"
  by (simp add: buffer_put_def Let_def)

lemma cursor_prefixed:
  "\<not> ends_prefix s \<Longrightarrow> buffer_is_empty k \<Longrightarrow> buffer_is_empty (k\<lparr>ks := special_key_press (ks k) (ucast s)\<rparr>)"
proof -
  assume "\<not> ends_prefix s" "buffer_is_empty k"
  then show ?thesis
    using ucast_byte_inj [of s "0x48"] ucast_byte_inj [of s "0xC8"] ucast_byte_inj [of s "0x4B"] ucast_byte_inj [of s "0xCB"]
      ucast_byte_inj [of s "0x4D"] ucast_byte_inj [of s "0xCD"] ucast_byte_inj [of s "0x50"] ucast_byte_inj [of s "0xD0"]
    by (simp add: special_key_press_def ends_prefix_def buffer_is_empty_def)
qed

lemma wait_prefixed:
  "ext (ks k) \<Longrightarrow> buffer_is_empty k \<Longrightarrow> list_all (\<lambda>s. \<not> ends_prefix s) ss \<Longrightarrow> wait_buffer k ss = None"
  by (induction ss arbitrary: k) (simp_all add: prefix_stays put_prefixed cursor_prefixed)

text \<open>
  The prefix byte of an extended key is cleared only by the cursor keys and by the codes
  3B and BB: after the prefix of any other extended key (Delete, Home, the right control
  key), no other key is delivered, however many are pressed.
\<close>

lemma extended_key_blocks:
  assumes "buffer_is_empty k" "list_all (\<lambda>s. \<not> ends_prefix s) ss"
  shows "wait_key k (0xE0 # ss) = None"
proof -
  let ?k = "k\<lparr>ks := special_key_press (ks k) (ucast (0xE0 :: byte))\<rparr>"
  have e: "ext (special_key_press (ks k) (ucast (0xE0 :: byte)))" by (simp add: special_key_press_def)
  moreover have "buffer_is_empty ?k" by (rule cursor_prefixed) (simp_all add: ends_prefix_def assms(1))
  ultimately have "wait_buffer ?k ss = None" using assms(2) by (intro wait_prefixed) simp_all
  then show ?thesis using assms(1) put_prefixed [OF e] by (simp add: wait_key_def)
qed

lemma extended_key_blocks_witness: "wait_key keyboard [0xE0, 0x53, 0xE0, 0xD3, 0x1E, 0x9E, 0x1C] = None"
  by (rule extended_key_blocks) (simp_all add: ends_prefix_def buffer_is_empty_def keyboard_def)

end
