(* ===== verification/LibcStdlib.thy ===== *)
theory LibcStdlib
  imports Prelude "HOL-Library.Signed_Division"
begin

text \<open>
  \<open>libc/stdlib\<close>: number conversion (\<open>itoa\<close>, \<open>atoi\<close>), \<open>pow\<close>, \<open>abs\<close> and the random number
  generator.  C integers are integers with the wrap-around of the compiled code written out;
  division and remainder truncate as in C.
\<close>

section \<open>Signed arithmetic\<close>

definition wrap32 :: "int \<Rightarrow> int" where "wrap32 x = sint (word_of_int x :: u32)"
definition wrap64 :: "int \<Rightarrow> int" where "wrap64 x = sint (word_of_int x :: u64)"

lemma wrap64_id [simp]: "- (2 ^ 63) \<le> x \<Longrightarrow> x < 2 ^ 63 \<Longrightarrow> wrap64 x = x"
  by (simp add: wrap64_def signed_of_int signed_take_bit_int_eq_self)

lemma wrap32_id [simp]: "- (2 ^ 31) \<le> x \<Longrightarrow> x < 2 ^ 31 \<Longrightarrow> wrap32 x = x"
  by (simp add: wrap32_def signed_of_int signed_take_bit_int_eq_self)

lemma sdiv_nonneg: "0 \<le> (a :: int) \<Longrightarrow> 0 < b \<Longrightarrow> a sdiv b = a div b"
  by (cases "a = 0") (simp_all add: signed_divide_int_def)

lemma smod_nonneg: "0 \<le> (a :: int) \<Longrightarrow> 0 < b \<Longrightarrow> a smod b = a mod b"
  by (cases "a = 0") (simp_all add: signed_modulo_int_def)

section \<open>itoa.c\<close>

text \<open>The remainder is an unsigned 64-bit value in the code, so a negative one is above 9.\<close>

definition digit_char :: "int \<Rightarrow> byte" where
  "digit_char r = (if r < 0 \<or> 9 < r then word_of_int (r - 10) + ch (CHR ''a'') else word_of_int r + ch (CHR ''0''))"

text \<open>The digits in the order in which the loop writes them; the loop runs only for bases from 2 on.\<close>

function itoa_digits :: "int \<Rightarrow> int \<Rightarrow> byte list" where
  "itoa_digits base num =
     (if num = 0 \<or> base < 2 then []
      else let num = (if num < 0 then wrap64 (num * - 1) else num)
           in digit_char (num smod base) # itoa_digits base (num sdiv base))"
  by auto
termination
proof (relation "measure (\<lambda>(b, n). nat \<bar>n\<bar> + (if \<bar>n\<bar> > 2 ^ 63 then 2 ^ 64 else 0))", goal_cases)
  case 1
  then show ?case by simp
next
  case (2 base num x)
  have "\<bar>x\<bar> \<le> \<bar>num\<bar> \<or> \<bar>num\<bar> > 2 ^ 63 \<and> \<bar>x\<bar> \<le> 2 ^ 63"
  proof (cases "num < 0")
    case True
    then have x: "x = wrap64 (- num)" using 2(2) by simp
    show ?thesis
    proof (cases "\<bar>num\<bar> < 2 ^ 63")
      case True
      then show ?thesis using x \<open>num < 0\<close> by simp
    next
      case False
      have "\<bar>x\<bar> \<le> 2 ^ 63"
        using sint_greater_eq [of "word_of_int (- num) :: u64"] sint_less [of "word_of_int (- num) :: u64"]
        by (simp add: x wrap64_def)
      then show ?thesis using False by linarith
    qed
  qed (simp add: 2(2))
  moreover have "x \<noteq> 0 \<Longrightarrow> \<bar>x sdiv base\<bar> < \<bar>x\<bar>"
    using 2(1) int_div_less_self [of "\<bar>x\<bar>" base]
    by (simp add: signed_divide_int_def abs_mult pos_imp_zdiv_nonneg_iff)
  ultimately show ?case using 2(1) by (cases "x = 0") (auto, linarith)
qed

declare itoa_digits.simps [simp del]

text \<open>The loop that exchanges the characters between \<open>start\<close> and \<open>end\<close>.\<close>

function swap_ends :: "byte list \<Rightarrow> nat \<Rightarrow> nat \<Rightarrow> byte list" where
  "swap_ends str i j = (if i < j then swap_ends (str[i := str ! j, j := str ! i]) (i + 1) (j - 1) else str)"
  by auto
termination by (relation "measure (\<lambda>(_, i, j). j - i)") auto

declare swap_ends.simps [simp del]

text \<open>The string written, without its terminator; \<open>None\<close> is the null pointer.\<close>

definition itoa :: "int \<Rightarrow> int \<Rightarrow> byte list option" where
  "itoa num base =
     (if base = 0 then None
      else if base < 2 \<or> base > 36 then None
      else if num = 0 then Some [ch (CHR ''0'')]
      else let (str, num) = (if num < 0 \<and> base = 10 then ([ch (CHR ''-'')], wrap64 (- num)) else ([], num));
               str = str @ itoa_digits base num;
               start = (if str ! 0 = ch (CHR ''-'') then 1 else 0)
           in Some (swap_ends str start (length str - 1)))"

section \<open>atoi.c\<close>

definition atoi_space :: "byte \<Rightarrow> bool" where
  "atoi_space c \<longleftrightarrow> c = ch (CHR '' '') \<or> c = 9 \<or> c = 10 \<or> c = 11 \<or> c = 12 \<or> c = 13"

fun atoi_digits :: "int \<Rightarrow> byte list \<Rightarrow> int" where
  "atoi_digits num [] = num"
| "atoi_digits num (c # cs) =
     (if 48 \<le> sint c \<and> sint c \<le> 57 then atoi_digits (wrap64 (num * 10 + (sint c - 48))) cs else num)"

definition atoi :: "byte list \<Rightarrow> int" where
  "atoi nptr =
     (let s = dropWhile atoi_space nptr;
          (sgn, s) = (case s of
              [] \<Rightarrow> (1, s)
            | c # cs \<Rightarrow> if c = ch (CHR ''-'') then (- 1, cs) else if c = ch (CHR ''+'') then (1, cs) else (1, s))
      in wrap64 (sgn * atoi_digits 0 s))"

section \<open>math.c, stdlib.c, random.c\<close>

fun pow_loop :: "int \<Rightarrow> int \<Rightarrow> nat \<Rightarrow> int" where
  "pow_loop result base 0 = result"
| "pow_loop result base (Suc e) = pow_loop (wrap32 (result * base)) base e"

definition pow :: "int \<Rightarrow> int \<Rightarrow> int" where
  "pow base e = pow_loop 1 base (nat e)"

definition abs_c :: "int \<Rightarrow> int" where
  "abs_c x = (if x < 0 then wrap32 (- x) else x)"

text \<open>The table \<open>r\<close> of the generator, filled from the front.\<close>

definition lcg_next :: "int \<Rightarrow> int" where
  "lcg_next x = (let y = (16807 * x) smod 2147483647 in if y < 0 then y + 2147483647 else y)"

fun rand_lcg :: "nat \<Rightarrow> int list \<Rightarrow> int list" where
  "rand_lcg 0 r = r"
| "rand_lcg (Suc n) r = rand_lcg n (r @ [lcg_next (last r)])"

definition rand_copy :: "int list \<Rightarrow> int list" where
  "rand_copy r = r @ take 3 r"

fun rand_add :: "nat \<Rightarrow> int list \<Rightarrow> int list" where
  "rand_add 0 r = r"
| "rand_add (Suc n) r = rand_add n (r @ [wrap32 (r ! (length r - 31) + r ! (length r - 3))])"

text \<open>The last loop stores entry 344 as the seed and returns in its first round.\<close>

definition rand :: "u32 \<Rightarrow> u32 \<times> u32" where
  "rand seed =
     (let r = rand_add 310 (rand_copy (rand_lcg 30 [sint seed]));
          x = word_of_int (wrap32 (r ! (344 - 31) + r ! (344 - 3)))
      in (x, drop_bit 1 x))"

section \<open>Digits\<close>

lemma swap_ends_rev:
  "swap_ends (xs @ ys @ zs) (length xs) (length xs + length ys - 1) = xs @ rev ys @ zs"
proof (induction "length ys" arbitrary: xs ys zs rule: less_induct)
  case less
  consider "length ys \<le> 1" | a mid b where "ys = a # mid @ [b]"
    by (cases ys) (auto, metis append_butlast_last_id length_0_conv less_one linorder_not_less)
  then show ?case
  proof cases
    case 1
    then have "rev ys = ys" by (cases ys) auto
    moreover have "\<not> length xs < length xs + length ys - 1" using 1 by (cases ys) auto
    ultimately show ?thesis by (subst swap_ends.simps) simp
  next
    case 2
    have "swap_ends ((xs @ [b]) @ mid @ (a # zs)) (length (xs @ [b])) (length (xs @ [b]) + length mid - 1)
        = (xs @ [b]) @ rev mid @ (a # zs)"
      by (rule less) (simp add: 2)
    then show ?thesis
      unfolding 2 by (subst swap_ends.simps) (simp add: nth_append list_update_append)
  qed
qed

lemma swap_ends_tail: "swap_ends (xs @ ys) (length xs) (length (xs @ ys) - 1) = xs @ rev ys"
  using swap_ends_rev [of xs ys "[]"] by simp

definition digit_value :: "byte \<Rightarrow> int" where
  "digit_value c = (if sint c \<le> 57 then sint c - 48 else sint c - 87)"

definition base_value :: "int \<Rightarrow> byte list \<Rightarrow> int" where
  "base_value b = foldl (\<lambda>v c. v * b + digit_value c) 0"

lemma digit_char_sint:
  assumes "0 \<le> r" "r < 36"
  shows "sint (digit_char r) = (if 9 < r then r + 87 else r + 48)"
proof -
  have "sint (word_of_int x :: byte) = x" if "0 \<le> x" "x < 128" for x :: int
    using that by (simp add: signed_of_int signed_take_bit_int_eq_self)
  moreover have "digit_char r = word_of_int (if 9 < r then r + 87 else r + 48)"
    using assms by (simp add: digit_char_def)
  ultimately show ?thesis using assms by simp
qed

lemma digit_value_char [simp]: "0 \<le> r \<Longrightarrow> r < 36 \<Longrightarrow> digit_value (digit_char r) = r"
  by (simp add: digit_value_def digit_char_sint)

lemma digit_char_not_minus: "0 \<le> r \<Longrightarrow> r < 36 \<Longrightarrow> digit_char r \<noteq> ch (CHR ''-'')"
proof
  assume "0 \<le> r" "r < 36" "digit_char r = ch (CHR ''-'')"
  then have "sint (digit_char r) = 45" by simp
  then show False using digit_char_sint [of r] \<open>0 \<le> r\<close> \<open>r < 36\<close> by (simp split: if_splits)
qed

lemma char_sints:
  "\<not> 48 \<le> sint (ch (CHR '' ''))" "\<not> 48 \<le> sint (9 :: byte)" "\<not> 48 \<le> sint (10 :: byte)" "\<not> 48 \<le> sint (11 :: byte)"
  "\<not> 48 \<le> sint (12 :: byte)" "\<not> 48 \<le> sint (13 :: byte)" "\<not> 48 \<le> sint (ch (CHR ''-''))" "\<not> 48 \<le> sint (ch (CHR ''+''))"
  by simp_all

lemma itoa_digits_pos:
  assumes "0 < n" "2 \<le> b"
  shows "itoa_digits b n = digit_char (n mod b) # itoa_digits b (n div b)"
  using assms by (subst itoa_digits.simps) (simp add: sdiv_nonneg smod_nonneg)

lemma itoa_digits_0 [simp]: "itoa_digits b 0 = []"
  by (subst itoa_digits.simps) simp

text \<open>The sign is dropped by the first round of the loop.\<close>

lemma itoa_digits_neg:
  assumes "- (2 ^ 63) < n" "n < 0" "2 \<le> b"
  shows "itoa_digits b n = itoa_digits b (- n)"
proof -
  have "wrap64 (- n) = - n" using assms by simp
  then show ?thesis
    using assms by (subst (1 2) itoa_digits.simps) (simp add: Let_def)
qed

lemma itoa_digits_value:
  "0 \<le> n \<Longrightarrow> 2 \<le> b \<Longrightarrow> b \<le> 36 \<Longrightarrow>
     base_value b (rev (itoa_digits b n)) = n
     \<and> list_all (\<lambda>c. \<exists>r. 0 \<le> r \<and> r < b \<and> c = digit_char r) (itoa_digits b n)"
proof (induction "nat n" arbitrary: n rule: less_induct)
  case less
  show ?case
  proof (cases "n = 0")
    case True
    then show ?thesis by (simp add: base_value_def)
  next
    case False
    then have n: "0 < n" "n div b < n" "0 \<le> n div b" "0 \<le> n mod b" "n mod b < b"
      using less.prems int_div_less_self [of n b] by (simp_all add: pos_imp_zdiv_nonneg_iff)
    have "base_value b (rev (itoa_digits b (n div b))) = n div b
       \<and> list_all (\<lambda>c. \<exists>r. 0 \<le> r \<and> r < b \<and> c = digit_char r) (itoa_digits b (n div b))"
      using less.hyps [of "n div b"] n less.prems by simp
    moreover have "base_value b (xs @ [c]) = base_value b xs * b + digit_value c" for xs c
      by (simp add: base_value_def)
    moreover have "digit_value (digit_char (n mod b)) = n mod b"
      by (rule digit_value_char) (use n(4,5) less.prems in linarith)+
    moreover have "\<exists>r. 0 \<le> r \<and> r < b \<and> digit_char (n mod b) = digit_char r" using n(4,5) by blast
    moreover have "itoa_digits b n = digit_char (n mod b) # itoa_digits b (n div b)"
      using itoa_digits_pos n(1) less.prems(2) by blast
    ultimately show ?thesis by simp
  qed
qed

lemma itoa_digits_nonempty: "0 < n \<Longrightarrow> 2 \<le> b \<Longrightarrow> itoa_digits b n \<noteq> []"
  by (simp add: itoa_digits_pos)

lemma atoi_minus: "\<not> atoi_space 45"
  by (simp add: atoi_space_def)

text \<open>Reading back decimal digits.\<close>

lemma atoi_digits_append:
  "list_all (\<lambda>c. \<exists>r. 0 \<le> r \<and> r < 10 \<and> c = digit_char r) xs \<Longrightarrow>
     atoi_digits v (xs @ ys) = atoi_digits (atoi_digits v xs) ys"
  by (induction xs arbitrary: v) (auto simp: digit_char_sint)

lemma atoi_digits_value:
  "0 \<le> n \<Longrightarrow> n < 2 ^ 63 \<Longrightarrow> atoi_digits 0 (rev (itoa_digits 10 n)) = n"
proof (induction "nat n" arbitrary: n rule: less_induct)
  case less
  show ?case
  proof (cases "n = 0")
    case False
    then have n: "0 < n" "n div 10 < n" "0 \<le> n div 10" using less.prems by auto
    have "list_all (\<lambda>c. \<exists>r. 0 \<le> r \<and> r < 10 \<and> c = digit_char r) (rev (itoa_digits 10 (n div 10)))"
      using itoa_digits_value [of "n div 10" 10] n by simp
    then have "atoi_digits 0 (rev (itoa_digits 10 n)) = atoi_digits (n div 10) [digit_char (n mod 10)]"
      using less.hyps [of "n div 10"] n less.prems by (simp add: itoa_digits_pos atoi_digits_append)
    also have "\<dots> = wrap64 (n div 10 * 10 + n mod 10)"
      using digit_char_sint [of "n mod 10"] pos_mod_bound [of 10 n] by (auto simp del: pos_mod_bound)
    also have "\<dots> = n" using less.prems by (subst wrap64_id) auto
    finally show ?thesis .
  qed simp
qed

text \<open>
  C25. For every base from 2 to 36 and every 64-bit number but the smallest, \<open>itoa\<close> writes the
  digits of the absolute value, most significant first, preceded by a minus sign only for
  negative numbers in base 10: in every other base the sign is lost.  In base 10, \<open>atoi\<close> reads the
  number back.
\<close>

theorem itoa_represents:
  assumes "2 \<le> b" "b \<le> 36" "- (2 ^ 63) < n" "n < 2 ^ 63"
  shows "\<exists>ds. base_value b ds = \<bar>n\<bar> \<and> ds \<noteq> [] \<and> list_all (\<lambda>c. 0 \<le> digit_value c \<and> digit_value c < b) ds
     \<and> itoa n b = Some (if n < 0 \<and> b = 10 then ch (CHR ''-'') # ds else ds)
     \<and> (b = 10 \<longrightarrow> atoi (if n < 0 then ch (CHR ''-'') # ds else ds) = n)"
proof (cases "n = 0")
  case True
  have "base_value b [48] = 0" "digit_value 48 = 0" "atoi [48] = 0"
    by (simp_all add: base_value_def digit_value_def atoi_def atoi_space_def)
  then show ?thesis using True assms by (intro exI [of _ "[48]"]) (simp add: itoa_def)
next
  case False
  define ds where "ds = rev (itoa_digits b \<bar>n\<bar>)"
  have val: "base_value b ds = \<bar>n\<bar>" and dig: "list_all (\<lambda>c. \<exists>r. 0 \<le> r \<and> r < b \<and> c = digit_char r) ds"
    using itoa_digits_value [of "\<bar>n\<bar>" b] assms by (simp_all add: ds_def)
  have ne: "ds \<noteq> []" using itoa_digits_nonempty [of "\<bar>n\<bar>" b] False assms by (simp add: ds_def)
  have raw: "itoa_digits b n = rev ds" if "\<not> (n < 0 \<and> b = 10)"
    using itoa_digits_neg [of n b] assms that by (cases "n < 0") (simp_all add: ds_def)
  have hd: "rev ds ! 0 \<noteq> ch (CHR ''-'')"
  proof -
    have "rev ds ! 0 \<in> set ds" using ne by (metis length_greater_0_conv length_rev nth_mem set_rev)
    then obtain r where "0 \<le> r" "r < b" "rev ds ! 0 = digit_char r"
      using dig unfolding list_all_iff by blast
    then show ?thesis using digit_char_not_minus [of r] assms(2) by simp
  qed
  have itoa: "itoa n b = Some (if n < 0 \<and> b = 10 then ch (CHR ''-'') # ds else ds)"
  proof (cases "n < 0 \<and> b = 10")
    case True
    then have "wrap64 (- n) = \<bar>n\<bar>" using assms by simp
    then show ?thesis
      using True swap_ends_tail [of "[ch (CHR ''-'')]" "rev ds"] by (simp add: itoa_def ds_def Let_def)
  next
    case neg: False
    then show ?thesis
      using raw [OF neg] hd False assms swap_ends_tail [of "[]" "rev ds"] by (auto simp: itoa_def Let_def)
  qed
  have "atoi (if n < 0 then ch (CHR ''-'') # ds else ds) = n" if b: "b = 10"
  proof -
    have sg: "atoi_digits 0 ds = \<bar>n\<bar>" using atoi_digits_value [of "\<bar>n\<bar>"] assms by (simp add: ds_def b)
    obtain r cs where r: "0 \<le> r" "r < 10" and ds: "ds = digit_char r # cs"
      using dig ne b by (cases ds) auto
    have c: "\<not> atoi_space (digit_char r)" "digit_char r \<noteq> ch (CHR ''-'')" "digit_char r \<noteq> ch (CHR ''+'')"
    proof -
      have "48 \<le> sint (digit_char r)" using digit_char_sint [of r] r by simp
      then show "\<not> atoi_space (digit_char r)" "digit_char r \<noteq> ch (CHR ''-'')" "digit_char r \<noteq> ch (CHR ''+'')"
        unfolding atoi_space_def by (metis char_sints)+
    qed
    have "dropWhile atoi_space ds = ds" using c(1) by (simp add: ds)
    moreover have "wrap64 n = n" using assms by simp
    ultimately show ?thesis
      using sg c by (cases "n < 0") (simp_all add: atoi_def ds atoi_minus)
  qed
  moreover have "list_all (\<lambda>c. 0 \<le> digit_value c \<and> digit_value c < b) ds"
    using dig assms(2) by (auto simp: list_all_iff)
  ultimately show ?thesis using val ne itoa by blast
qed

theorem itoa_represents_witness:
  "\<exists>ds. base_value 10 ds = 1024 \<and> itoa (- 1024) 10 = Some (ch (CHR ''-'') # ds) \<and> atoi (ch (CHR ''-'') # ds) = - 1024"
  using itoa_represents [of 10 "- 1024"] by auto

section \<open>The random number generator\<close>

lemma rand_bound: "unat (snd (rand seed)) < 2 ^ 31"
proof -
  have "unat (drop_bit 1 (x :: u32)) < 2 ^ 31" for x
    using unat_lt_32 [of x] by (simp add: drop_bit_Suc unat_div)
  then show ?thesis unfolding rand_def Let_def snd_conv .
qed

end
