(* ===== verification/LibcStdio.thy ===== *)
theory LibcStdio
  imports LibcStdlib "HOL-Library.Monad_Syntax"
begin

text \<open>
  \<open>libc/stdio\<close>: \<open>printf\<close>, line input (\<open>gets_s\<close>) and \<open>sscanf\<close>, as the kernel build has them.  A C
  string is its bytes without the terminator; what goes to the terminal is the list of bytes
  handed to \<open>putchar\<close>; what \<open>getchar\<close> returns is the list of results it will return.  \<open>None\<close> stands
  for an argument of the wrong kind, an access outside a buffer, or waiting for input that
  does not come.
\<close>

section \<open>printf.c\<close>

text \<open>A variadic argument: a machine word, or a string.\<close>

datatype arg = Word u64 | Str "byte list"

definition INT_MAX :: nat where "INT_MAX = 2147483647"

text \<open>The code of the percent sign.\<close>

abbreviation percent :: byte where "percent \<equiv> 37"

text \<open>The conversion to binary: a \<open>do\<close> loop that runs while the shifted number is positive.\<close>

function bin_digits :: "int \<Rightarrow> byte list" where
  "bin_digits i = (if 0 < i div 2 then bin_digits (i div 2) else []) @ [if i mod 2 = 1 then ch (CHR ''1'') else ch (CHR ''0'')]"
  by auto
termination by (relation "measure nat") auto

declare bin_digits.simps [simp del]

text \<open>The text \<open>itoa\<close> leaves in a zeroed buffer.\<close>

definition itoa_text :: "int \<Rightarrow> int \<Rightarrow> byte list" where
  "itoa_text num base = (case itoa num base of None \<Rightarrow> [] | Some s \<Rightarrow> takeWhile (\<lambda>b. b \<noteq> 0) s)"

text \<open>
  What a conversion prints for its argument; the outer option is \<open>None\<close> for a conversion that is
  not supported.
\<close>

definition conversion :: "byte \<Rightarrow> arg \<Rightarrow> byte list option option" where
  "conversion c a =
     (let word = (\<lambda>f. Some (case a of Word w \<Rightarrow> Some (f w) | Str _ \<Rightarrow> None)) in
      if c = ch (CHR ''c'') then word (\<lambda>w. [ucast w])
      else if c = ch (CHR ''s'') then Some (case a of Word _ \<Rightarrow> None | Str s \<Rightarrow> Some s)
      else if c = ch (CHR ''d'') then word (\<lambda>w. itoa_text (sint (ucast w :: u32)) 10)
      else if c = ch (CHR ''u'') then word (\<lambda>w. itoa_text (uint (ucast w :: u32)) 10)
      else if c = ch (CHR ''x'') then word (\<lambda>w. itoa_text (sint w) 16)
      else if c = ch (CHR ''p'') then word (\<lambda>w. lit ''0x'' @ itoa_text (sint w) 16)
      else if c = ch (CHR ''b'') then word (\<lambda>w. lit ''0b'' @ bin_digits (sint w))
      else None)"

text \<open>The length of a run of literal text; the first character belongs to it whatever it is.\<close>

definition literal :: "byte list \<Rightarrow> nat" where
  "literal format = 1 + length (takeWhile (\<lambda>b. b \<noteq> percent) (tl format))"

text \<open>The loop of \<open>printf\<close>: the output so far, the count of characters written.\<close>

function printf_loop :: "byte list \<Rightarrow> arg list \<Rightarrow> byte list \<Rightarrow> nat \<Rightarrow> (byte list \<times> int) option" where
  "printf_loop format args out written =
     (if format = [] then Some (out, int written)
      else let maxrem = INT_MAX - written in
        if format ! 0 \<noteq> percent \<or> (1 < length format \<and> format ! 1 = percent) then
          (let format = (if format ! 0 = percent then tl format else format); amount = literal format in
           if maxrem < amount then Some (out, - 1)
           else printf_loop (drop amount format) args (out @ take amount format) (written + amount))
        else case (if length format = 1 then None
                   else conversion (format ! 1) (if args = [] then Str [] else hd args)) of
            None \<Rightarrow>
              if maxrem < length format then Some (out, - 1)
              else Some (out @ format, int (written + length format))
          | Some text \<Rightarrow>
              if args = [] then None
              else if format ! 1 \<noteq> ch (CHR ''s'') \<and> maxrem = 0 then Some (out, - 1)
              else do { text \<leftarrow> text;
                        if maxrem < length text then Some (out, - 1)
                        else printf_loop (drop 2 format) (tl args) (out @ text) (written + length text) })"
  by pat_completeness auto
termination by (relation "measure (\<lambda>(f, _). length f)") (auto simp: literal_def)

declare printf_loop.simps [simp del]

definition printf :: "byte list option \<Rightarrow> arg list \<Rightarrow> (byte list \<times> int) option" where
  "printf format args =
     (case format of
        None \<Rightarrow> Some (lit ''printf error: format is 0x0'' @ [10], - 1)
      | Some f \<Rightarrow> printf_loop f args [] 0)"

definition puts :: "byte list \<Rightarrow> (byte list \<times> int) option" where
  "puts str = printf (Some (lit ''%s'' @ [10])) [Str str]"

section \<open>scanf.c: line input\<close>

definition CAN :: int where "CAN = 0x18"
definition KEYCODES_EXT_START :: int where "KEYCODES_EXT_START = 0x100"

text \<open>The index of the terminator in a buffer.\<close>

definition strlen_buf :: "byte list \<Rightarrow> nat option" where
  "strlen_buf str = (let n = length (takeWhile (\<lambda>b. b \<noteq> 0) str) in if n < length str then Some n else None)"

text \<open>
  One round of the loop of \<open>gets_s\<close> for the character \<open>c\<close>: the buffer, the index, and what is
  echoed.
\<close>

definition gets_round :: "byte list \<Rightarrow> nat \<Rightarrow> u64 \<Rightarrow> int \<Rightarrow> (byte list \<times> nat \<times> byte list) option" where
  "gets_round str i sz c =
     (if c = CAN then
        do { n \<leftarrow> strlen_buf str; Some (replicate n 0 @ drop n str, 0, replicate n 8) }
      else if c \<ge> KEYCODES_EXT_START then Some (str, i, [])
      else if c = 0x1B then Some (str, i, [])
      else if c = 8 \<and> i = 0 \<and> str = [] then None
      else if c = 8 \<and> i = 0 \<and> str ! 0 = 0 then Some (str, i, [])
      else let (str, i) =
             (if c = 8 then if i > 0 then (str[i - 1 := 0], i - 1) else (str[0 := 0], 0) else (str, i))
        in if of_nat i \<ge> sz - 1 then Some (str, i, [])
           else if c \<noteq> 10 \<and> c \<noteq> - 1 \<and> c \<noteq> 0 \<and> c \<noteq> 8
             then if i < length str then Some (str[i := word_of_int c], i + 1, [word_of_int c]) else None
           else Some (str, i, [word_of_int c]))"

fun gets_loop :: "byte list \<Rightarrow> nat \<Rightarrow> u64 \<Rightarrow> int list \<Rightarrow> (byte list \<times> nat \<times> int \<times> byte list) option" where
  "gets_loop str i sz [] = None"
| "gets_loop str i sz (c # cs) =
     do { (str', i', echo) \<leftarrow> gets_round str i sz c;
          if c \<noteq> 10 \<and> c \<noteq> - 1 \<and> c \<noteq> 0
          then do { (str'', i'', c', echo') \<leftarrow> gets_loop str' i' sz cs; Some (str'', i'', c', echo @ echo') }
          else Some (str', i', c, echo) }"

text \<open>
  The result says whether the string or the null pointer is returned.  The cancel character
  \<open>stdin_clear\<close> puts into the key buffer is the first one \<open>getchar\<close> returns after those pending.
\<close>

definition gets_s :: "byte list \<Rightarrow> u64 \<Rightarrow> int list \<Rightarrow> (byte list \<times> bool \<times> byte list) option" where
  "gets_s str sz input =
     do { (str, i, c, echo) \<leftarrow> gets_loop str 0 sz input;
          if c = - 1 \<or> i = 0 then Some (str, False, echo)
          else if unat sz \<le> length str
            then Some (take i str @ replicate (unat sz - i) 0 @ drop (max i (unat sz)) str, True, echo)
          else None }"

definition fgets :: "byte list \<Rightarrow> int \<Rightarrow> int list \<Rightarrow> (byte list \<times> bool \<times> byte list) option" where
  "fgets str n input = gets_s str (word_of_int n) input"

definition gets :: "byte list \<Rightarrow> int list \<Rightarrow> (byte list \<times> bool \<times> byte list) option" where
  "gets str input = gets_s str 0x7FFFFFFF input"

section \<open>scanf.c: conversions\<close>

definition is_valid_char :: "byte \<Rightarrow> bool" where
  "is_valid_char c \<longleftrightarrow> 33 \<le> sint c \<and> sint c \<le> 126"

text \<open>Strings are read with their terminator here; reading behind it is \<open>None\<close>.\<close>

definition byte_at :: "byte list \<Rightarrow> nat \<Rightarrow> byte option" where
  "byte_at s i = (if i < length s then Some (s ! i) else if i = length s then Some 0 else None)"

text \<open>\<open>n\<close> is the number of characters still allowed.\<close>

fun next_valid :: "byte list \<Rightarrow> nat \<Rightarrow> nat \<Rightarrow> int option" where
  "next_valid str i 0 = Some (- 1)"
| "next_valid str i (Suc n) =
     do { c \<leftarrow> byte_at str i; if is_valid_char c then Some (int i) else next_valid str (i + 1) n }"

definition get_next_valid_char_idx :: "byte list \<Rightarrow> nat \<Rightarrow> int option" where
  "get_next_valid_char_idx str sz = next_valid str 0 sz"

text \<open>
  The copying loop of \<open>get_next_valid_string\<close>: the position in \<open>str\<close>, the index \<open>i\<close>, and the rounds
  left.
\<close>

fun copy_valid :: "byte list \<Rightarrow> nat \<Rightarrow> nat \<Rightarrow> nat \<Rightarrow> nat \<Rightarrow> byte list \<Rightarrow> (nat \<times> nat \<times> byte list) option" where
  "copy_valid str pos i len 0 dst = Some (pos, i, dst)"
| "copy_valid str pos i len (Suc n) dst =
     do { idx \<leftarrow> get_next_valid_char_idx (drop pos str) len;
          if idx = - 1 then Some (pos, i, dst)
          else do {
            c \<leftarrow> byte_at (drop pos str) (nat idx);
            d \<leftarrow> byte_at (drop pos str) (nat idx + 1);
            if i < length dst then
              (let dst = dst[i := c]; pos = pos + nat idx + 1 in
               if \<not> is_valid_char d then Some (pos, i, dst) else copy_valid str pos (i + 1) len n dst)
            else None } }"

definition get_next_valid_string :: "byte list \<Rightarrow> nat \<Rightarrow> byte list \<Rightarrow> (byte list \<times> int) option" where
  "get_next_valid_string str len dst =
     do { (pos, i, dst) \<leftarrow> copy_valid str 0 0 len len dst;
          let pos = pos + length (takeWhile is_valid_char (drop pos str));
          if i \<noteq> 0 \<and> len > 1
          then if i + 1 < length dst then Some (dst[i + 1 := 0], int pos) else None
          else Some (dst, int pos) }"

text \<open>The objects the arguments of \<open>sscanf\<close> point to.\<close>

datatype cell = CharCell byte | StrCell "byte list" | IntCell int

text \<open>
  The loop of \<open>sscanf_args\<close>: what is left of the input, the cells that are left and those already
  done (in reverse).  \<open>dst_str\<close> is a local array that \<open>itoa\<close> fills with the old value.
\<close>

definition BUFFER_BYTES :: nat where "BUFFER_BYTES = 0x100"

definition scan_int :: "byte list \<Rightarrow> int \<Rightarrow> (int \<times> int) option" where
  "scan_int str old =
     (let old_text = itoa_text old 10;
          dst = old_text @ replicate (BUFFER_BYTES - length old_text) 0
      in do { (dst, next_idx) \<leftarrow> get_next_valid_string str (length str) dst;
              Some (wrap32 (atoi (takeWhile (\<lambda>b. b \<noteq> 0) dst)), next_idx) })"

function sscanf_loop :: "byte list \<Rightarrow> byte list \<Rightarrow> cell list \<Rightarrow> cell list \<Rightarrow> nat \<Rightarrow> (cell list \<times> int) option" where
  "sscanf_loop str format args done_rev written =
     (if format = [] then Some (rev done_rev @ args, int written)
      else let maxrem = INT_MAX - written in
        if format ! 0 \<noteq> percent \<or> (1 < length format \<and> format ! 1 = percent) then
          (let format = (if format ! 0 = percent then tl format else format); amount = literal format in
           if maxrem < amount then Some (rev done_rev @ args, - 1)
           else sscanf_loop str (drop amount format) args done_rev written)
        else if length format = 1 then Some (rev done_rev @ args, int written)
        else let step = (\<lambda>cell next_idx. sscanf_loop (drop (nat next_idx) str) (drop 2 format) (tl args) (cell # done_rev)
                           (written + (if next_idx > 0 then 1 else 0)))
        in if format ! 1 = ch (CHR ''c'') then
             case args of
               CharCell c # _ \<Rightarrow>
                 if maxrem = 0 then Some (rev done_rev @ args, - 1)
                 else do { (dst, next_idx) \<leftarrow> get_next_valid_string str 1 [c]; step (CharCell (hd dst)) next_idx }
             | _ \<Rightarrow> None
           else if format ! 1 = ch (CHR ''s'') then
             case args of
               StrCell dst # _ \<Rightarrow>
                 do { len \<leftarrow> strlen_buf dst;
                      if maxrem < len then Some (rev done_rev @ args, - 1)
                      else do { (dst, next_idx) \<leftarrow> get_next_valid_string str (length str) dst; step (StrCell dst) next_idx } }
             | _ \<Rightarrow> None
           else if format ! 1 = ch (CHR ''d'') then
             case args of
               IntCell v # _ \<Rightarrow> do { (v, next_idx) \<leftarrow> scan_int str v; step (IntCell v) next_idx }
             | _ \<Rightarrow> None
           else sscanf_loop str (tl format) args done_rev written)"
  by pat_completeness auto
termination by (relation "measure (\<lambda>(_, f, _). length f)") (auto simp: literal_def)

declare sscanf_loop.simps [simp del]

definition sscanf :: "byte list \<Rightarrow> byte list \<Rightarrow> cell list \<Rightarrow> (cell list \<times> int) option" where
  "sscanf str format args = sscanf_loop str format args [] 0"

definition scanf :: "byte list \<Rightarrow> int list \<Rightarrow> byte list \<Rightarrow> cell list \<Rightarrow> (cell list \<times> int) option" where
  "scanf buf input format args =
     do { (buf, _, _) \<leftarrow> gets_s buf (of_nat BUFFER_BYTES) input;
          sscanf (takeWhile (\<lambda>b. b \<noteq> 0) buf) format args }"

section \<open>What printf prints\<close>

text \<open>A format string as a sequence of literal text, doubled percent signs and conversions.\<close>

datatype piece = Text "byte list" | Percent | Conv byte

fun format_of :: "piece list \<Rightarrow> byte list" where
  "format_of [] = []"
| "format_of (Text t # ps) = t @ format_of ps"
| "format_of (Percent # ps) = percent # percent # format_of ps"
| "format_of (Conv c # ps) = percent # c # format_of ps"

fun render :: "piece list \<Rightarrow> arg list \<Rightarrow> byte list option" where
  "render [] args = Some []"
| "render (Text t # ps) args = map_option ((@) t) (render ps args)"
| "render (Percent # ps) args = map_option ((#) percent) (render ps args)"
| "render (Conv c # ps) [] = None"
| "render (Conv c # ps) (a # args) =
     (case conversion c a of Some (Some t) \<Rightarrow> map_option ((@) t) (render ps args) | _ \<Rightarrow> None)"

fun plain_text :: "piece \<Rightarrow> bool" where
  "plain_text (Text t) = list_all (\<lambda>b. b \<noteq> percent) t"
| "plain_text _ = True"

lemma printf_skip_text:
  assumes "w + length (takeWhile (\<lambda>b. b \<noteq> percent) f) \<le> INT_MAX"
  shows "printf_loop f args out w =
    printf_loop (dropWhile (\<lambda>b. b \<noteq> percent) f) args (out @ takeWhile (\<lambda>b. b \<noteq> percent) f)
      (w + length (takeWhile (\<lambda>b. b \<noteq> percent) f))"
proof (cases "f \<noteq> [] \<and> hd f \<noteq> percent")
  case True
  then obtain c g where f: "f = c # g" "c \<noteq> percent" by (cases f) auto
  have n: "literal f = length (takeWhile (\<lambda>b. b \<noteq> percent) f)" using f by (simp add: literal_def)
  have "take (literal f) f = takeWhile (\<lambda>b. b \<noteq> percent) f" "drop (literal f) f = dropWhile (\<lambda>b. b \<noteq> percent) f"
    unfolding n by (simp_all add: takeWhile_eq_take [symmetric] dropWhile_eq_drop [symmetric])
  then show ?thesis
    using f n assms by (subst printf_loop.simps) (auto simp: Let_def)
next
  case False
  then show ?thesis by (cases f) auto
qed

lemma printf_text:
  assumes "list_all (\<lambda>b. b \<noteq> percent) t" "w + length t + length (takeWhile (\<lambda>b. b \<noteq> percent) f) \<le> INT_MAX"
  shows "printf_loop (t @ f) args out w = printf_loop f args (out @ t) (w + length t)"
proof -
  have t: "takeWhile (\<lambda>b. b \<noteq> percent) (t @ f) = t @ takeWhile (\<lambda>b. b \<noteq> percent) f"
    "dropWhile (\<lambda>b. b \<noteq> percent) (t @ f) = dropWhile (\<lambda>b. b \<noteq> percent) f"
    using assms(1) by (auto simp: list_all_iff takeWhile_append2 dropWhile_append2)
  show ?thesis
    using printf_skip_text [of w "t @ f" args out] printf_skip_text [of "w + length t" f args "out @ t"] assms(2)
    by (simp add: t add.assoc)
qed

lemma printf_percent:
  assumes "w + 1 + length (takeWhile (\<lambda>b. b \<noteq> percent) f) \<le> INT_MAX"
  shows "printf_loop (percent # percent # f) args out w = printf_loop f args (out @ [percent]) (w + 1)"
proof -
  let ?n = "length (takeWhile (\<lambda>b. b \<noteq> percent) f)"
  have "literal (percent # f) = Suc ?n" by (simp add: literal_def)
  then have "printf_loop (percent # percent # f) args out w =
      printf_loop (dropWhile (\<lambda>b. b \<noteq> percent) f) args (out @ percent # takeWhile (\<lambda>b. b \<noteq> percent) f) (w + Suc ?n)"
    using assms by (subst printf_loop.simps) (auto simp: Let_def takeWhile_eq_take [symmetric] dropWhile_eq_drop [symmetric])
  also have "\<dots> = printf_loop f args (out @ [percent]) (w + 1)"
    using assms by (subst (2) printf_skip_text) simp_all
  finally show ?thesis .
qed

lemma conversion_not_percent: "conversion c a = Some t \<Longrightarrow> c \<noteq> percent"
  by (auto simp: conversion_def)

lemma printf_conv:
  assumes "conversion c a = Some (Some t)" "w + length t < INT_MAX"
  shows "printf_loop (percent # c # f) (a # args) out w = printf_loop f args (out @ t) (w + length t)"
  using assms conversion_not_percent [OF assms(1)] by (subst printf_loop.simps) (auto simp: Let_def)

lemma render_bound:
  "render ps args = Some t \<Longrightarrow> list_all plain_text ps \<Longrightarrow>
     length (takeWhile (\<lambda>b. b \<noteq> percent) (format_of ps)) \<le> length t"
  by (induction ps args arbitrary: t rule: render.induct) (auto simp: list_all_iff takeWhile_append2)

lemma printf_loop_renders:
  "render ps args = Some t \<Longrightarrow> list_all plain_text ps \<Longrightarrow> w + length t < INT_MAX \<Longrightarrow>
     printf_loop (format_of ps) args out w = Some (out @ t, int (w + length t))"
proof (induction ps args arbitrary: t w out rule: render.induct)
  case (1 args)
  then show ?case by (simp add: printf_loop.simps)
next
  case (2 u ps args)
  then obtain r where r: "render ps args = Some r" "t = u @ r" by auto
  then show ?case
    using 2 render_bound [OF r(1)] printf_text [of u w "format_of ps"] by simp
next
  case (3 ps args)
  then obtain r where r: "render ps args = Some r" "t = percent # r" by auto
  then show ?case
    using 3 render_bound [OF r(1)] printf_percent [of w "format_of ps"] by simp
next
  case (5 c ps a args)
  then obtain u r where r: "conversion c a = Some (Some u)" "render ps args = Some r" "t = u @ r"
    by (auto split: option.splits)
  then show ?case
    using 5 printf_conv [OF r(1), of w "format_of ps"] by simp
qed simp

text \<open>
  C26. \<open>printf\<close> prints the literal text of the format, a percent sign for each doubled one, and for
  each conversion the text of the next argument, and returns the number of characters printed,
  as long as there are fewer than \<open>INT_MAX\<close> of them.
\<close>

theorem printf_renders:
  assumes "render ps args = Some t" "list_all plain_text ps" "length t < INT_MAX"
  shows "printf (Some (format_of ps)) args = Some (t, int (length t))"
  using printf_loop_renders [OF assms(1,2), of 0 "[]"] assms(3) by (simp add: printf_def)

theorem printf_renders_witness:
  "printf (Some (lit ''%d%% of %s'')) [Word 50, Str (lit ''disk'')] = Some (lit ''50% of disk'', 11)"
proof -
  have "itoa_text 50 10 = lit ''50''"
    by (simp add: itoa_text_def itoa_def itoa_digits.simps [of 10 50] itoa_digits.simps [of 10 5] swap_ends.simps
        sdiv_nonneg smod_nonneg digit_char_def Let_def)
  then have "render [Conv (ch (CHR ''d'')), Percent, Text (lit '' of ''), Conv (ch (CHR ''s''))] [Word 50, Str (lit ''disk'')]
      = Some (lit ''50% of disk'')"
    by (simp add: conversion_def)
  from printf_renders [OF this] show ?thesis by (simp add: INT_MAX_def)
qed

section \<open>Line editing\<close>

text \<open>
  The line a user means to type, with room for \<open>cap\<close> characters: a character is added while
  there is room, backspace takes the last one back, cancel clears the line, and escape and the
  cursor keys do nothing.
\<close>

definition edit_key :: "nat \<Rightarrow> byte list \<Rightarrow> int \<Rightarrow> byte list" where
  "edit_key cap l c =
     (if c = CAN then [] else if c \<ge> KEYCODES_EXT_START \<or> c = 0x1B then l
      else if c = 8 then butlast l
      else if length l < cap then l @ [word_of_int c] else l)"

definition typed :: "int \<Rightarrow> bool" where
  "typed c \<longleftrightarrow> 0 < c \<and> c \<noteq> 10"

definition line_state :: "nat \<Rightarrow> byte list \<Rightarrow> byte list \<Rightarrow> bool" where
  "line_state n l str \<longleftrightarrow> length str = n \<and> length l \<le> n - 1 \<and> take (length l) str = l \<and> str ! (n - 1) = 0
     \<and> (l = [] \<longrightarrow> str ! 0 = 0)"

lemma strlen_buf_terminated:
  assumes "length str = n" "0 < n" "str ! (n - 1) = 0"
  shows "\<exists>k. strlen_buf str = Some k \<and> k < n \<and> str ! k = 0"
proof -
  let ?k = "length (takeWhile (\<lambda>b. b \<noteq> 0) str)"
  have "0 \<in> set str" using assms by (metis diff_less nth_mem zero_less_one)
  then have k: "?k < length str" by (induction str) auto
  then have "str ! ?k = 0" using nth_length_takeWhile by blast
  then show ?thesis using k assms(1) by (auto simp: strlen_buf_def)
qed

lemma gets_round_edits:
  assumes inv: "line_state n l str" and n: "2 \<le> n" "n < 2 ^ 32" and c: "typed c"
  shows "\<exists>str' echo. gets_round str (length l) (of_nat n) c = Some (str', length (edit_key (n - 1) l c), echo)
           \<and> line_state n (edit_key (n - 1) l c) str'"
proof -
  have len: "length str = n" "length l \<le> n - 1" "take (length l) str = l" "str ! (n - 1) = 0"
    using inv by (auto simp: line_state_def)
  have limit: "(of_nat n - 1 \<le> (of_nat k :: u64)) = (n - 1 \<le> k)" if "k \<le> n" for k
  proof -
    have "(of_nat n - 1 :: u64) = of_nat (n - 1)" using n by (simp add: of_nat_diff)
    then show ?thesis
      using that n by (simp only: word_le_nat_alt) (simp add: unat_of_nat_lt del: of_nat_diff)
  qed
  consider "c = CAN" | "c \<noteq> CAN" "c \<ge> KEYCODES_EXT_START \<or> c = 0x1B" | "c = 8" "l = []" | "c = 8" "l \<noteq> []"
    | "c \<noteq> CAN" "c < KEYCODES_EXT_START" "c \<noteq> 0x1B" "c \<noteq> 8" by linarith
  then show ?thesis
  proof cases
    case 1
    obtain k where k: "strlen_buf str = Some k" "k < n" "str ! k = 0"
      using strlen_buf_terminated [OF len(1) _ len(4)] n by auto
    then show ?thesis using 1 n len by (auto simp: gets_round_def edit_key_def line_state_def nth_append)
  next
    case 2
    then show ?thesis using inv by (auto simp: gets_round_def edit_key_def)
  next
    case 3
    then have "str ! 0 = 0" "str \<noteq> []" using inv n by (auto simp: line_state_def)
    then show ?thesis using 3 inv by (simp add: gets_round_def edit_key_def CAN_def KEYCODES_EXT_START_def)
  next
    case 4
    let ?i = "length l - 1"
    have i: "?i < n - 1" "length l \<noteq> 0" using 4 len by (cases l; simp)+
    have bl: "take ?i str = butlast l" using len(3) by (metis butlast_conv_take butlast_take len(1,2) diff_le_self le_trans)
    have "line_state n (butlast l) (str[?i := 0])"
      using i len bl by (auto simp: line_state_def nth_list_update)
    moreover have "gets_round str (length l) (of_nat n) c = Some (str[?i := 0], length (butlast l), [word_of_int c])"
      using 4 i limit [of ?i] len by (simp add: gets_round_def CAN_def KEYCODES_EXT_START_def)
    ultimately show ?thesis using 4 by (simp add: edit_key_def CAN_def KEYCODES_EXT_START_def)
  next
    case 5
    show ?thesis
    proof (cases "length l < n - 1")
      case True
      have "line_state n (l @ [word_of_int c]) (str[length l := word_of_int c])"
        using len True by (auto simp: line_state_def take_Suc_conv_app_nth)
      then show ?thesis
        using 5 True limit [of "length l"] len c by (simp add: gets_round_def edit_key_def typed_def)
    next
      case False
      then show ?thesis
        using 5 limit [of "length l"] len inv by (simp add: gets_round_def edit_key_def)
    qed
  qed
qed

lemma gets_loop_edits:
  "line_state n l str \<Longrightarrow> 2 \<le> n \<Longrightarrow> n < 2 ^ 32 \<Longrightarrow> list_all typed keys \<Longrightarrow>
     \<exists>str' echo. gets_loop str (length l) (of_nat n) (keys @ [10]) = Some (str', length (foldl (edit_key (n - 1)) l keys), 10, echo)
       \<and> line_state n (foldl (edit_key (n - 1)) l keys) str'"
proof (induction keys arbitrary: l str)
  case Nil
  have "gets_round str (length l) (of_nat n) 10 = Some (str, length l, []) \<or>
        gets_round str (length l) (of_nat n) 10 = Some (str, length l, [10])"
    by (simp add: gets_round_def CAN_def KEYCODES_EXT_START_def)
  then show ?case using Nil by auto
next
  case (Cons c keys)
  obtain str1 echo1 where r: "gets_round str (length l) (of_nat n) c = Some (str1, length (edit_key (n - 1) l c), echo1)"
    "line_state n (edit_key (n - 1) l c) str1"
    using gets_round_edits [OF Cons.prems(1-3), of c] Cons.prems(4) by auto
  obtain str2 echo2 where r2: "gets_loop str1 (length (edit_key (n - 1) l c)) (of_nat n) (keys @ [10]) =
      Some (str2, length (foldl (edit_key (n - 1)) l (c # keys)), 10, echo2)"
    "line_state n (foldl (edit_key (n - 1)) l (c # keys)) str2"
    using Cons.IH [OF r(2)] Cons.prems by auto
  have "c \<noteq> 10 \<and> c \<noteq> - 1 \<and> c \<noteq> 0" using Cons.prems(4) by (simp add: typed_def)
  then show ?case using r r2 by auto
qed

text \<open>
  C27. \<open>gets_s\<close> edits a line: after the cancel that starts it, whatever is typed up to the
  newline leaves in the buffer, followed by zeros, the line that backspace, cancel and the size
  of the buffer make of it; the null pointer is returned exactly for an empty line.
\<close>

theorem gets_s_edits:
  assumes "length str = n" "2 \<le> n" "n < 2 ^ 32" "str ! (n - 1) = 0" "list_all typed keys"
    and "line = foldl (edit_key (n - 1)) [] keys"
  shows "\<exists>str' echo. gets_s str (of_nat n) (CAN # keys @ [10]) = Some (str', line \<noteq> [], echo)
           \<and> (line \<noteq> [] \<longrightarrow> str' = line @ replicate (n - length line) 0)"
proof -
  obtain k where k: "strlen_buf str = Some k" "k < n" "str ! k = 0"
    using strlen_buf_terminated [OF assms(1)] assms(2,4) by auto
  let ?str = "replicate k 0 @ drop k str"
  have r: "gets_round str 0 (of_nat n) CAN = Some (?str, 0, replicate k 8)"
    using k by (simp add: gets_round_def)
  have "line_state n [] ?str"
    using k assms by (auto simp: line_state_def nth_append)
  from gets_loop_edits [OF this assms(2,3,5)] obtain str' echo where
    l: "gets_loop ?str 0 (of_nat n) (keys @ [10]) = Some (str', length line, 10, echo)" "line_state n line str'"
    using assms(6) by auto
  have u: "unat (of_nat n :: u64) = n" using assms(3) by (simp add: unat_of_nat_lt)
  have ls: "length str' = n" "length line \<le> n" "take (length line) str' = line" using l(2) by (auto simp: line_state_def)
  have "gets_loop str 0 (of_nat n) (CAN # keys @ [10]) = Some (str', length line, 10, replicate k 8 @ echo)"
    using r l(1) by (simp add: CAN_def)
  then show ?thesis
    using ls u by (auto simp: gets_s_def)
qed

theorem gets_s_edits_witness:
  "\<exists>str' echo. gets_s (replicate 8 0) 8 [CAN, 108, 120, 8, 115, 10] = Some (str', True, echo)
     \<and> str' = lit ''ls'' @ replicate 6 0"
  using gets_s_edits [of "replicate 8 0" 8 "[108, 120, 8, 115]" "lit ''ls''"]
  by (auto simp: typed_def edit_key_def CAN_def KEYCODES_EXT_START_def)

section \<open>Reading a number\<close>

lemma next_valid_hit: "pos < length str \<Longrightarrow> is_valid_char (str ! pos) \<Longrightarrow> 0 < n \<Longrightarrow> next_valid (drop pos str) 0 n = Some 0"
  by (cases n) (simp_all add: byte_at_def)

lemma invalid_0 [simp]: "\<not> is_valid_char 0"
  by (simp add: is_valid_char_def)

lemma copy_valid_word:
  "list_all is_valid_char str \<Longrightarrow> i < length str \<Longrightarrow> length str \<le> length dst \<Longrightarrow> length str - i \<le> n \<Longrightarrow>
     copy_valid str i i (length str) n dst =
       Some (length str, length str - 1, take i dst @ drop i str @ drop (length str) dst)"
proof (induction n arbitrary: i dst)
  case (Suc n)
  have v: "is_valid_char (str ! i)" using Suc.prems by (simp add: list_all_length)
  have idx: "get_next_valid_char_idx (drop i str) (length str) = Some 0"
    unfolding get_next_valid_char_idx_def using v Suc.prems by (intro next_valid_hit) auto
  have c: "byte_at (drop i str) 0 = Some (str ! i)" using Suc.prems by (simp add: byte_at_def)
  have upd: "take i dst @ drop i str @ drop (length str) dst
      = take (i + 1) (dst[i := str ! i]) @ drop (i + 1) str @ drop (length str) (dst[i := str ! i])"
    using Suc.prems by (simp add: take_Suc_conv_app_nth Cons_nth_drop_Suc)
  show ?case
  proof (cases "i + 1 < length str")
    case True
    then have "byte_at (drop i str) 1 = Some (str ! (i + 1))" "is_valid_char (str ! (i + 1))"
      using Suc.prems by (simp_all add: byte_at_def list_all_length)
    then show ?thesis
      using Suc.IH [of "i + 1" "dst[i := str ! i]"] Suc.prems True idx c by (simp add: upd)
  next
    case False
    then have "byte_at (drop i str) 1 = Some 0" "i + 1 = length str"
      using Suc.prems by (simp_all add: byte_at_def)
    then show ?thesis
      using Suc.prems idx c append_take_drop_id [of "length str" "dst[i := str ! i]"]
      by (simp add: upd)
  qed
qed simp

lemma tl_all: "length str = Suc 0 \<Longrightarrow> tl str = []"
  by (cases str) auto

text \<open>A word of visible characters is copied; it is terminated from two characters on.\<close>

lemma get_next_valid_word:
  assumes "list_all is_valid_char str" "str \<noteq> []" "length str < length dst"
  shows "get_next_valid_string str (length str) dst =
    Some (if length str = 1 then str @ tl dst else (str @ drop (length str) dst)[length str := 0], int (length str))"
proof -
  have "copy_valid str 0 0 (length str) (length str) dst = Some (length str, length str - 1, str @ drop (length str) dst)"
    using copy_valid_word [of str 0 dst "length str"] assms by simp
  moreover have "length str - 1 = 0 \<longleftrightarrow> length str = 1" using assms(2) by (cases str) auto
  ultimately show ?thesis
    using assms by (cases "length str = 1") (simp_all add: get_next_valid_string_def drop_Suc tl_all del: copy_valid.simps)
qed

lemma takeWhile_terminated:
  "list_all (\<lambda>b. b \<noteq> 0) s \<Longrightarrow> takeWhile (\<lambda>b. b \<noteq> (0 :: byte)) (s @ 0 # t) = s"
  by (induction s) auto

lemma valid_nonzero: "list_all is_valid_char s \<Longrightarrow> list_all (\<lambda>b. b \<noteq> 0) s"
  by (induction s) (auto simp: is_valid_char_def)

text \<open>
  Reading a number with \<open>%d\<close> takes the whole word and stores its value when it has two
  characters or more; a word of one character is not terminated in the temporary string, so
  that the digits of the old value behind the first one are read along with it.
\<close>

lemma scan_int_reads:
  assumes "list_all is_valid_char str" "str \<noteq> []" "length str < BUFFER_BYTES" "itoa_text old 10 = ds" "ds \<noteq> []"
    and "length ds < BUFFER_BYTES"
  shows "scan_int str old = Some (wrap32 (atoi (if length str = 1 then str @ tl ds else str)), int (length str))"
proof -
  let ?dst = "ds @ replicate (BUFFER_BYTES - length ds) 0"
  have nz: "list_all (\<lambda>b. b \<noteq> 0) ds"
    using assms(4) by (auto simp: itoa_text_def list_all_iff dest: set_takeWhileD split: option.splits)
  have len: "length ?dst = BUFFER_BYTES" using assms(6) by simp
  show ?thesis
  proof (cases "length str = 1")
    case True
    then obtain c where c: "str = [c]" by (cases str) auto
    have "replicate (BUFFER_BYTES - length ds) 0 = 0 # replicate (BUFFER_BYTES - length ds - 1) (0 :: byte)"
      using assms(6) by (cases "BUFFER_BYTES - length ds") auto
    moreover have "list_all (\<lambda>b. b \<noteq> 0) (c # tl ds)"
      using nz assms(5) valid_nonzero [OF assms(1)] by (cases ds) (auto simp: c)
    ultimately have "takeWhile (\<lambda>b. b \<noteq> 0) (str @ tl ?dst) = str @ tl ds"
      using takeWhile_terminated [of "c # tl ds"] assms(5) by (simp add: c)
    then show ?thesis
      using get_next_valid_word [OF assms(1,2), of ?dst] assms(3,4) len True by (simp add: scan_int_def)
  next
    case False
    have "(str @ drop (length str) ?dst)[length str := 0] = str @ 0 # drop (length str + 1) ?dst"
    proof -
      have "drop (length str) ?dst \<noteq> []" using assms(3) len by (simp only: drop_eq_Nil not_le)
      then obtain x xs where "drop (length str) ?dst = x # xs" by (meson neq_Nil_conv)
      moreover from this have "xs = drop (length str + 1) ?dst"
        by (metis Suc_eq_plus1 drop_Suc list.sel(3) tl_drop)
      ultimately show ?thesis by (simp only: list_update_append) simp
    qed
    then show ?thesis
      using get_next_valid_word [OF assms(1,2), of ?dst] takeWhile_terminated [OF valid_nonzero [OF assms(1)]]
        assms(3,4) len False by (simp add: scan_int_def)
  qed
qed

lemma scan_int_reads_witness:
  "scan_int (lit ''7'') 50 = Some (70, 1)"
proof -
  have "itoa_text 50 10 = lit ''50''"
    by (simp add: itoa_text_def itoa_def itoa_digits.simps [of 10 50] itoa_digits.simps [of 10 5] swap_ends.simps
        sdiv_nonneg smod_nonneg digit_char_def Let_def)
  then have "scan_int (lit ''7'') 50 = Some (wrap32 (atoi (lit ''70'')), 1)"
    using scan_int_reads [of "lit ''7''" 50 "lit ''50''"] by (simp add: is_valid_char_def BUFFER_BYTES_def)
  then show ?thesis by (simp add: atoi_def atoi_space_def)
qed

end
