(* ===== verification/Process.thy ===== *)
theory Process
  imports LinkedList Paging
begin

text \<open>
  \<open>kernel/process/process.c\<close>, the list search of \<open>page.c\<close> and \<open>exec\<close>/\<open>exit\<close> of
  \<open>libc/proc/proc_op.c\<close>.  The kernel's state is the address spaces (\<open>mmu\<close>), the kernel heap with
  the nodes of the process list, and the process control blocks by address.  A control block is
  a record at an address \<open>malloc\<close> returned; its bytes are not laid out.
\<close>

section \<open>Process control blocks\<close>

record cpu_state =
  r15 :: u64  r14 :: u64  r13 :: u64  r12 :: u64  rbp :: u64  rbx :: u64
  r11 :: u64  r10 :: u64  r9 :: u64  r8 :: u64  rax :: u64  rcx :: u64  rdx :: u64  rsi :: u64  rdi :: u64
  eflags :: u64  rip :: u64  rsp :: u64

definition zero_cpu :: cpu_state where
  "zero_cpu = \<lparr>r15 = 0, r14 = 0, r13 = 0, r12 = 0, rbp = 0, rbx = 0, r11 = 0, r10 = 0, r9 = 0, r8 = 0, rax = 0, rcx = 0,
     rdx = 0, rsi = 0, rdi = 0, eflags = 0, rip = 0, rsp = 0\<rparr>"

datatype proc_state = READY | WAITING | ZOMBIE

record PCB =
  ppid :: u32
  pid :: u32
  pstate :: proc_state
  real_mem_addr :: u64
  entry :: u64
  pml4 :: u64
  old_pml4 :: u64
  stack :: u64
  pheap :: u64
  priority :: u32
  cpu_context :: cpu_state
  list_node :: u64

record kernel =
  mm :: mmu
  kheap :: heap_mem
  process_pid_bitmap :: u64
  process_mem_bitmap :: u64
  pcbs :: "u64 \<Rightarrow> PCB"
  pcb_list :: u64
  current_pcb :: u64
  kpcb :: PCB

definition sizeof_PCB :: u64 where "sizeof_PCB = 280"

definition set_pcb :: "kernel \<Rightarrow> u64 \<Rightarrow> PCB \<Rightarrow> kernel" where
  "set_pcb k p b = k\<lparr>pcbs := (pcbs k)(p := b)\<rparr>"

section \<open>Process ids and process memory\<close>

definition MAX_NUM_OF_PROCESS :: nat where "MAX_NUM_OF_PROCESS = 256"
definition KERNEL_PID :: nat where "KERNEL_PID = 1"

text \<open>
  \<open>1 << n\<close> is a shift of a 32-bit \<open>int\<close>: the compiled instruction takes the count modulo 32, and the
  result is sign-extended when it meets a 64-bit bitmap.
\<close>

definition BITMASK :: "nat \<Rightarrow> u64" where
  "BITMASK n = scast (push_bit (n mod 32) (1 :: u32))"

text \<open>The search from \<open>i\<close> on with \<open>n\<close> rounds left.\<close>

fun allocate_pid_from :: "u64 \<Rightarrow> nat \<Rightarrow> nat \<Rightarrow> u64 \<times> u64" where
  "allocate_pid_from bm i 0 = (bm, 0)"
| "allocate_pid_from bm i (Suc n) =
     (if bm AND BITMASK i = 0 \<and> i \<noteq> 0 \<and> i \<noteq> KERNEL_PID then (bm OR BITMASK i, of_nat i)
      else allocate_pid_from bm (i + 1) n)"

definition allocate_pid :: "u64 \<Rightarrow> u64 \<times> u64" where
  "allocate_pid bm = allocate_pid_from bm 0 MAX_NUM_OF_PROCESS"

definition deallocate_pid :: "u64 \<Rightarrow> u64 \<Rightarrow> u64" where
  "deallocate_pid bm p = bm AND NOT (BITMASK (unat p))"

definition PROC_MEM_SIZE :: u64 where "PROC_MEM_SIZE = PAGE_SIZE * 0x1000"
definition PROC_ALLOC_START :: u64 where "PROC_ALLOC_START = HARDWARE_MEM_START + 0x400 * PAGE_SIZE"

fun allocate_proc_mem_from :: "u64 \<Rightarrow> nat \<Rightarrow> nat \<Rightarrow> u64 \<times> u64" where
  "allocate_proc_mem_from bm i 0 = (bm, 0)"
| "allocate_proc_mem_from bm i (Suc n) =
     (if bm AND BITMASK i = 0 then (bm OR BITMASK i, PROC_ALLOC_START + of_nat i * PROC_MEM_SIZE)
      else allocate_proc_mem_from bm (i + 1) n)"

definition allocate_proc_mem :: "u64 \<Rightarrow> u64 \<times> u64" where
  "allocate_proc_mem bm = allocate_proc_mem_from bm 0 MAX_NUM_OF_PROCESS"

text \<open>
  The macros are not parenthesised: \<open>(addr - PROC_ALLOC_START) / PROC_MEM_SIZE\<close> subtracts only the
  first summand of the start, adds the second, and divides by the page size only.
\<close>

definition deallocate_proc_mem :: "u64 \<Rightarrow> u64 \<Rightarrow> u64" where
  "deallocate_proc_mem bm addr =
     bm AND NOT (BITMASK (unat ((addr - HARDWARE_MEM_START + 0x400 * PAGE_SIZE) div PAGE_SIZE * 0x1000)))"

section \<open>Processes\<close>

definition USER_LOAD_ADDR :: u64 where "USER_LOAD_ADDR = 0x4000000"
definition PROC_BIN_ADDR :: u64 where "PROC_BIN_ADDR = 0x4000000"
definition PROC_STACK_SIZE :: u64 where "PROC_STACK_SIZE = 0x10 * PAGE_SIZE"
definition PROC_SLOT_SIZE :: u64 where "PROC_SLOT_SIZE = PAGE_SIZE * 0x20"
definition PROC_KERNEL_ADDR :: u64 where "PROC_KERNEL_ADDR = PROC_MEM_SIZE div 2"
definition KERNEL_HEAP_START :: u64 where "KERNEL_HEAP_START = 0x20 * MB"
definition KERNEL_HEAP_SIZE_PAGES :: u64 where "KERNEL_HEAP_SIZE_PAGES = 0x400"

abbreviation proc_start :: u64 where "proc_start \<equiv> PROC_BIN_ADDR - PROC_STACK_SIZE"
abbreviation proc_end :: u64 where "proc_end \<equiv> proc_start + PROC_MEM_SIZE - 1"

text \<open>Mappings made for a process control block: the block gives the process id of the frames.\<close>

definition map_for :: "kernel \<Rightarrow> PCB \<Rightarrow> u64 \<Rightarrow> u64 \<Rightarrow> u64 \<Rightarrow> kernel option" where
  "map_for k b start e pa = do { s \<leftarrow> map_memory_range (mm k) (pid b) start e pa; Some (k\<lparr>mm := s\<rparr>) }"

definition unmap_proc :: "kernel \<Rightarrow> kernel option" where
  "unmap_proc k = do { s \<leftarrow> unmap_memory_range (mm k) proc_start proc_end False; Some (k\<lparr>mm := s\<rparr>) }"

text \<open>Pointing the recursive entry of the kernel's table to another table, or back.\<close>

definition set_recursive :: "kernel \<Rightarrow> u64 \<Rightarrow> kernel option" where
  "set_recursive k root =
     do { s \<leftarrow> vwrite (mm k) (pml4 (kpcb k)) (ucast PML4_RECURSIVE_ENTRY_NUM) (root OR PAGE_MAP_FLAGS);
          Some (k\<lparr>mm := flush_tlb s\<rparr>) }"

text \<open>The new block, before its page table is allocated.\<close>

definition new_pcb :: "kernel \<Rightarrow> u64 \<Rightarrow> u64 \<Rightarrow> PCB" where
  "new_pcb k p addr =
     \<lparr>ppid = 0, pid = ucast p, pstate = WAITING, real_mem_addr = addr, entry = 0, pml4 = 0, old_pml4 = pml4 (kpcb k),
      stack = USER_LOAD_ADDR - 0x16, pheap = 0, priority = 0,
      cpu_context = zero_cpu\<lparr>rsp := USER_LOAD_ADDR - 0x16, rip := USER_LOAD_ADDR\<rparr>, list_node = 0\<rparr>"

definition alloc_proc :: "kernel \<Rightarrow> (kernel \<times> u64) option" where
  "alloc_proc k =
     do { let k = k\<lparr>mm := (cli (mm k))\<lparr>interrupts_ready := False\<rparr>\<rparr>;
          (h, p) \<leftarrow> malloc (kheap k) sizeof_PCB;
          let (pbm, new_pid) = allocate_pid (process_pid_bitmap k);
          let (mbm, addr) = allocate_proc_mem (process_mem_bitmap k);
          let k = k\<lparr>kheap := h, process_pid_bitmap := pbm, process_mem_bitmap := mbm\<rparr>;
          let b = new_pcb k new_pid addr;
          let (al, root) = allocate_page (allocator (mm k)) (pid b);
          let b = b\<lparr>pml4 := root\<rparr>;
          let k = k\<lparr>mm := (mm k)\<lparr>allocator := al\<rparr>\<rparr>;
          k \<leftarrow> map_for k (kpcb k) root (root + PAGE_SIZE - 1) root;
          k \<leftarrow> map_for k (kpcb k) proc_start proc_end addr;
          s \<leftarrow> init_recursive_paging (mm k) root;
          k \<leftarrow> set_recursive (k\<lparr>mm := s\<rparr>) root;
          k \<leftarrow> map_for k b root (root + PAGE_SIZE - 1) root;
          k \<leftarrow> map_for k b proc_start proc_end addr;
          k \<leftarrow> map_for k b PROC_KERNEL_ADDR PAGE_FRAME_ALLOCATOR_END (KERNEL_VBASE - KERNEL_LOAD_ADDR);
          k \<leftarrow> map_for k b (PAGE_FRAME_ALLOCATOR_END + 1) (PAGE_FRAME_ALLOCATOR_END + PROC_SLOT_SIZE) 0;
          let b = b\<lparr>pheap := KERNEL_HEAP_START\<rparr>;
          k \<leftarrow> map_for k b (pheap b) (pheap b + KERNEL_HEAP_SIZE_PAGES * 512 - 1) (pheap b);
          k \<leftarrow> set_recursive k (pml4 (kpcb k));
          k \<leftarrow> unmap_proc k;
          (h, head) \<leftarrow> append_node (kheap k) (pcb_list k) p;
          let b = b\<lparr>list_node := head\<rparr>;
          let k = set_pcb (k\<lparr>kheap := h, pcb_list := head\<rparr>) p b;
          Some (k\<lparr>mm := sti ((mm k)\<lparr>interrupts_ready := True\<rparr>)\<rparr>, p) }"

text \<open>The search of \<open>page.c\<close> through the nodes of the process list; \<open>None\<close> is a cyclic list.\<close>

partial_function (option) find_pcb_from :: "kernel \<Rightarrow> u64 \<Rightarrow> u64 \<Rightarrow> u64 option" where
  "find_pcb_from k cur p =
     (if cur \<noteq> 0 then
        if ucast (pid (pcbs k (node_data (kheap k) cur))) = p then Some (node_data (kheap k) cur)
        else find_pcb_from k (node_next (kheap k) cur) p
      else Some 0)"

definition find_pcb_by_pid :: "kernel \<Rightarrow> u64 \<Rightarrow> u64 option" where
  "find_pcb_by_pid k p = find_pcb_from k (pcb_list k) p"

text \<open>
  \<open>run_proc\<close> ends in \<open>jump_usermode\<close>, which loads the registers of the block and returns to
  ring 3 with interrupts enabled; the second component is what it loads.  For a null pointer the
  behaviour is undefined.
\<close>

definition jump_usermode :: "cpu_state \<Rightarrow> cpu_state" where
  "jump_usermode c = c\<lparr>eflags := eflags c OR push_bit 9 1 OR 0x202\<rparr>"

definition run_proc :: "kernel \<Rightarrow> u64 \<Rightarrow> (kernel \<times> cpu_state) option" where
  "run_proc k p =
     (if p = 0 then None
      else let b = pcbs k p; k = k\<lparr>current_pcb := p\<rparr> in
        do { s \<leftarrow> map_memory_range_with_flags (mm k) (pid (kpcb k)) proc_start proc_end (real_mem_addr b) PAGE_MAP_FLAGS False;
             Some (k\<lparr>mm := set_pml4_address (flush_tlb s) (pml4 b)\<rparr>, jump_usermode (cpu_context b)) })"

text \<open>\<open>exit\<close>: the block is freed but stays on the list; \<open>unmap_page\<close> is called for the page of the table.\<close>

definition exit_proc :: "kernel \<Rightarrow> (kernel \<times> cpu_state) option" where
  "exit_proc k =
     (if current_pcb k = 0 then None
      else let b = pcbs k (current_pcb k);
               k = k\<lparr>process_mem_bitmap := deallocate_proc_mem (process_mem_bitmap k) (real_mem_addr b)\<rparr>
        in do { k \<leftarrow> unmap_proc k;
                s \<leftarrow> unmap_page (mm k) (pml4 b);
                h \<leftarrow> free (kheap k) (current_pcb k);
                let k = k\<lparr>mm := s, kheap := h\<rparr>;
                parent \<leftarrow> find_pcb_by_pid k (ucast (ppid b));
                run_proc k parent })"

text \<open>
  The kernel's own block.  The reload of the descriptor table register and of the task register
  at the end is not part of the state.
\<close>

definition init_kernel_process :: "kernel \<Rightarrow> kernel option" where
  "init_kernel_process k =
     (let b = \<lparr>ppid = of_nat KERNEL_PID, pid = of_nat KERNEL_PID, pstate = READY, real_mem_addr = 0,
               entry = KERNEL_VBASE - KERNEL_LOAD_ADDR, pml4 = PML4_KERNEL, old_pml4 = PML4_BOOT,
               stack = KERNEL_VBASE - 0x10, pheap = 0, priority = 0, cpu_context = zero_cpu, list_node = 0\<rparr>
      in do { s \<leftarrow> init_kernel_paging (mm k) (pid b) MEMORY_SIZE_PAGES;
              let (h, base) = init_heap (kheap k) KERNEL_HEAP_START (KERNEL_HEAP_SIZE_PAGES * PAGE_SIZE);
              let k = k\<lparr>mm := s, kheap := h, kpcb := b\<lparr>pheap := base\<rparr>\<rparr>;
              k \<leftarrow> map_for k b base (base + sizeof_malloc_state) base;
              k \<leftarrow> map_for k b KERNEL_HEAP_START (KERNEL_HEAP_START + heap_total_size (heap h)) KERNEL_HEAP_START;
              map_for k b (PAGE_FRAME_ALLOCATOR_END + 1) (PAGE_FRAME_ALLOCATOR_END + PROC_SLOT_SIZE) 0 })"

section \<open>The bitmaps\<close>

text \<open>
  A bitmap whose bits from 31 on agree, as the sign extension of the mask keeps them; slot \<open>i\<close>
  is bit \<open>i mod 32\<close>.
\<close>

definition bitmap_ok :: "u64 \<Rightarrow> bool" where
  "bitmap_ok bm \<longleftrightarrow> (\<forall>j < 64. bit bm j = bit bm (min 31 j))"

definition slot_used :: "u64 \<Rightarrow> nat \<Rightarrow> bool" where
  "slot_used bm i \<longleftrightarrow> bit bm (i mod 32)"

lemma bit_BITMASK: "bit (BITMASK n) j \<longleftrightarrow> j < 64 \<and> min 31 j = n mod 32"
  by (auto simp: BITMASK_def bit_signed_iff bit_exp_iff)

lemma bitmap_okD: "bitmap_ok bm \<Longrightarrow> j < 64 \<Longrightarrow> bit bm j = bit bm (min 31 j)"
  unfolding bitmap_ok_def by blast

lemma bitmap_okI: "(\<And>j. j < 64 \<Longrightarrow> bit bm j = bit bm (min 31 j)) \<Longrightarrow> bitmap_ok bm"
  unfolding bitmap_ok_def by blast

lemma mask_free_iff: "bitmap_ok bm \<Longrightarrow> bm AND BITMASK i = 0 \<longleftrightarrow> \<not> slot_used bm i"
proof
  assume ok: "bitmap_ok bm" and "bm AND BITMASK i = 0"
  then have "\<not> bit (bm AND BITMASK i) (i mod 32)" by simp
  moreover have "i mod 32 < 32" by simp
  then have "i mod 32 < 64 \<and> min 31 (i mod 32) = i mod 32" by linarith
  ultimately show "\<not> slot_used bm i" by (simp add: bit_and_iff bit_BITMASK slot_used_def)
next
  assume ok: "bitmap_ok bm" and "\<not> slot_used bm i"
  show "bm AND BITMASK i = 0"
  proof (rule bit_word_eqI)
    fix j assume "j < LENGTH(64)"
    then show "bit (bm AND BITMASK i) j = bit 0 j"
      using bitmap_okD [OF ok, of j] \<open>\<not> slot_used bm i\<close> by (auto simp: bit_and_iff bit_BITMASK slot_used_def)
  qed
qed

lemma bitmap_ok_set: "bitmap_ok bm \<Longrightarrow> bitmap_ok (bm OR BITMASK i)"
proof (rule bitmap_okI)
  fix j :: nat assume "bitmap_ok bm" "j < 64"
  then show "bit (bm OR BITMASK i) j = bit (bm OR BITMASK i) (min 31 j)"
    using bitmap_okD [of bm j] by (auto simp: bit_or_iff bit_BITMASK)
qed

lemma bitmap_ok_clear: "bitmap_ok bm \<Longrightarrow> bitmap_ok (bm AND NOT (BITMASK i))"
proof (rule bitmap_okI)
  fix j :: nat assume "bitmap_ok bm" "j < 64"
  then show "bit (bm AND NOT (BITMASK i)) j = bit (bm AND NOT (BITMASK i)) (min 31 j)"
    using bitmap_okD [of bm j] by (auto simp: bit_and_iff bit_not_iff bit_BITMASK)
qed

lemma slot_used_set: "slot_used (bm OR BITMASK i) j \<longleftrightarrow> slot_used bm j \<or> j mod 32 = i mod 32"
proof -
  have "j mod 32 < 32" by simp
  then have "j mod 32 < 64 \<and> min 31 (j mod 32) = j mod 32" by linarith
  then show ?thesis by (simp add: slot_used_def bit_or_iff bit_BITMASK)
qed

lemma slot_used_clear: "slot_used (bm AND NOT (BITMASK i)) j \<longleftrightarrow> slot_used bm j \<and> j mod 32 \<noteq> i mod 32"
proof -
  have "j mod 32 < 32" by simp
  then have "j mod 32 < 64 \<and> min 31 (j mod 32) = j mod 32" by linarith
  then show ?thesis by (simp add: slot_used_def bit_and_iff bit_not_iff bit_BITMASK)
qed

lemma clear_set: "bitmap_ok bm \<Longrightarrow> \<not> slot_used bm i \<Longrightarrow> (bm OR BITMASK i) AND NOT (BITMASK i) = bm"
proof (rule bit_word_eqI)
  fix j assume "bitmap_ok bm" "\<not> slot_used bm i" "j < LENGTH(64)"
  then show "bit ((bm OR BITMASK i) AND NOT (BITMASK i)) j = bit bm j"
    using bitmap_okD [of bm j] by (auto simp: bit_and_iff bit_or_iff bit_not_iff bit_BITMASK slot_used_def)
qed

lemma allocate_pid_from_eq:
  "bitmap_ok bm \<Longrightarrow>
   allocate_pid_from bm i n =
     (case find (\<lambda>p. \<not> slot_used bm p \<and> p \<noteq> 0 \<and> p \<noteq> 1) [i..<i + n] of
        None \<Rightarrow> (bm, 0) | Some p \<Rightarrow> (bm OR BITMASK p, of_nat p))"
  by (induction n arbitrary: i) (simp_all add: mask_free_iff upt_conv_Cons KERNEL_PID_def del: upt_Suc)

lemma allocate_proc_mem_from_eq:
  "bitmap_ok bm \<Longrightarrow>
   allocate_proc_mem_from bm i n =
     (case find (\<lambda>p. \<not> slot_used bm p) [i..<i + n] of
        None \<Rightarrow> (bm, 0) | Some p \<Rightarrow> (bm OR BITMASK p, PROC_ALLOC_START + of_nat p * PROC_MEM_SIZE))"
  by (induction n arbitrary: i) (simp_all add: mask_free_iff upt_conv_Cons del: upt_Suc)

lemma find_upt_None: "find P [a..<b] = None \<longleftrightarrow> (\<forall>p. a \<le> p \<and> p < b \<longrightarrow> \<not> P p)"
  by (auto simp: find_None_iff)

lemma find_upt_Some: "find P [a..<b] = Some p \<longleftrightarrow> a \<le> p \<and> p < b \<and> P p \<and> (\<forall>q. a \<le> q \<and> q < p \<longrightarrow> \<not> P q)"
proof
  assume "find P [a..<b] = Some p"
  then obtain i where i: "i < b - a" "P (a + i)" "p = a + i" "\<forall>j < i. \<not> P (a + j)"
    by (auto simp: find_Some_iff)
  have "\<not> P q" if "a \<le> q" "q < p" for q
    using i(4) [rule_format, of "q - a"] that i(3) by simp
  with i show "a \<le> p \<and> p < b \<and> P p \<and> (\<forall>q. a \<le> q \<and> q < p \<longrightarrow> \<not> P q)" by auto
next
  assume "a \<le> p \<and> p < b \<and> P p \<and> (\<forall>q. a \<le> q \<and> q < p \<longrightarrow> \<not> P q)"
  then show "find P [a..<b] = Some p" by (auto simp: find_Some_iff intro!: exI [of _ "p - a"])
qed

text \<open>The smallest free process id; the 32 slots are those of the ids 2 to 33.\<close>

definition first_free :: "u64 \<Rightarrow> nat option" where
  "first_free bm = find (\<lambda>p. \<not> slot_used bm p) [2..<34]"

text \<open>A pid in use blocks the pid 32 places on, so that the pids are 2 to 33.\<close>

lemma pid_search:
  "find (\<lambda>p. \<not> slot_used bm p \<and> p \<noteq> 0 \<and> p \<noteq> 1) [0..<0 + MAX_NUM_OF_PROCESS] = first_free bm"
proof (cases "first_free bm")
  case None
  then have used: "slot_used bm p" if "2 \<le> p" "p < 34" for p
    using that unfolding first_free_def find_upt_None by blast
  have "slot_used bm p" for p
  proof -
    let ?q = "if p mod 32 < 2 then p mod 32 + 32 else p mod 32"
    have "p mod 32 < 32" by simp
    then have "2 \<le> ?q" "?q < 34" by auto
    from used [OF this] show ?thesis by (simp add: slot_used_def split: if_splits)
  qed
  then show ?thesis unfolding None find_upt_None by blast
next
  case (Some p)
  then have "2 \<le> p" "p < 34" "\<not> slot_used bm p" "\<forall>q. 2 \<le> q \<and> q < p \<longrightarrow> slot_used bm q"
    unfolding first_free_def find_upt_Some by blast+
  moreover have "q = 0 \<or> q = 1 \<or> 2 \<le> q" for q :: nat by linarith
  ultimately show ?thesis
    unfolding Some find_upt_Some by (auto simp: MAX_NUM_OF_PROCESS_def)
qed

text \<open>
  C28. Process ids: \<open>allocate_pid\<close> gives the smallest free id from 2 to 33, marks it alone as used, and
  \<open>deallocate_pid\<close> takes it back; when these 32 ids are used it returns 0, although the code counts
  up to 256.
\<close>

theorem allocate_pid_first_free:
  assumes "bitmap_ok bm"
  shows "(case first_free bm of
            None \<Rightarrow> allocate_pid bm = (bm, 0)
          | Some p \<Rightarrow> \<exists>bm'. allocate_pid bm = (bm', of_nat p) \<and> bitmap_ok bm' \<and> deallocate_pid bm' (of_nat p) = bm
              \<and> (\<forall>q. slot_used bm' q = (slot_used bm q \<or> q mod 32 = p mod 32)))"
proof (cases "first_free bm")
  case None
  then show ?thesis
    unfolding allocate_pid_def allocate_pid_from_eq [OF assms] pid_search by simp
next
  case (Some p)
  then have p: "\<not> slot_used bm p" "p < 34" unfolding first_free_def find_upt_Some by blast+
  have u: "unat (of_nat p :: u64) = p" using p(2) by (intro unat_of_nat_lt) simp
  have "allocate_pid bm = (bm OR BITMASK p, of_nat p)"
    unfolding allocate_pid_def allocate_pid_from_eq [OF assms] pid_search Some by simp
  then show ?thesis
    using Some bitmap_ok_set [OF assms] clear_set [OF assms p(1)] by (simp add: deallocate_pid_def u slot_used_set)
qed

theorem allocate_pid_first_free_witness:
  "\<exists>bm'. allocate_pid 0 = (bm', 2) \<and> deallocate_pid bm' 2 = 0"
proof -
  have "bitmap_ok 0" by (simp add: bitmap_ok_def)
  moreover have "first_free 0 = Some 2"
    unfolding first_free_def find_upt_Some by (simp add: slot_used_def)
  ultimately show ?thesis using allocate_pid_first_free [of 0] by auto
qed

text \<open>
  C29. Giving back the memory of a process always frees slot 0: after a process in any other slot
  has exited, its own slot stays taken for ever and the next process is given the memory of
  slot 0, even if a process is running there.
\<close>

theorem exit_frees_slot_0:
  assumes "bitmap_ok bm" "i < 32" "slot_used bm i"
  shows "deallocate_proc_mem bm (PROC_ALLOC_START + of_nat i * PROC_MEM_SIZE) = bm AND NOT (BITMASK 0)
     \<and> (i \<noteq> 0 \<longrightarrow> slot_used (bm AND NOT (BITMASK 0)) i)
     \<and> snd (allocate_proc_mem (bm AND NOT (BITMASK 0))) = PROC_ALLOC_START"
proof -
  let ?addr = "PROC_ALLOC_START + of_nat i * PROC_MEM_SIZE"
  let ?bm = "bm AND NOT (BITMASK 0)"
  have "?addr - HARDWARE_MEM_START + 0x400 * PAGE_SIZE = of_nat (0x800000 + i * 0x1000000)"
    by (simp add: PROC_ALLOC_START_def PROC_MEM_SIZE_def HARDWARE_MEM_START_def)
  moreover have "unat (of_nat (0x800000 + i * 0x1000000) :: u64) = 0x800000 + i * 0x1000000"
    using assms(2) by (intro unat_of_nat_lt) simp
  moreover have "unat (x div PAGE_SIZE * 0x1000) = unat x div 4096 * 4096" for x :: u64
    using unat_lt_64 [of x] div_times_less_eq_dividend [of "unat x" 4096] by (simp add: unat_word_ariths unat_div)
  moreover have m: "0x800000 + i * 0x1000000 = (2048 + i * 4096) * 4096" by simp
  moreover have "(2048 + i * 4096) * 4096 div 4096 * 4096 = (2048 + i * 4096) * 4096" by simp
  ultimately have n: "unat ((?addr - HARDWARE_MEM_START + 0x400 * PAGE_SIZE) div PAGE_SIZE * 0x1000) = (2048 + i * 4096) * 4096"
    by (simp only:)
  have "(2048 + i * 4096) * 4096 = 32 * ((2048 + i * 4096) * 128)" by simp
  then have "((2048 + i * 4096) * 4096) mod 32 = 0" by (metis mod_mult_self1_is_0)
  then have "BITMASK ((2048 + i * 4096) * 4096) = BITMASK 0" unfolding BITMASK_def by (simp only: mod_0)
  then have dealloc: "deallocate_proc_mem bm ?addr = ?bm" unfolding deallocate_proc_mem_def n by (simp only:)
  have ok: "bitmap_ok ?bm" "\<not> slot_used ?bm 0"
    using bitmap_ok_clear [OF assms(1)] slot_used_clear [of bm 0 0] by simp_all
  then have "find (\<lambda>p. \<not> slot_used ?bm p) [0..<0 + MAX_NUM_OF_PROCESS] = Some 0"
    unfolding find_upt_Some by (simp add: MAX_NUM_OF_PROCESS_def)
  then have "snd (allocate_proc_mem ?bm) = PROC_ALLOC_START"
    unfolding allocate_proc_mem_def allocate_proc_mem_from_eq [OF ok(1)] by simp
  then show ?thesis using dealloc slot_used_clear [of bm 0 i] assms by auto
qed

theorem exit_frees_slot_0_witness:
  "deallocate_proc_mem 7 (PROC_ALLOC_START + 2 * PROC_MEM_SIZE) = 6 \<and> snd (allocate_proc_mem 6) = PROC_ALLOC_START"
proof -
  have "bitmap_ok 7" unfolding bitmap_ok_def
  proof (intro allI impI)
    fix j :: nat assume "j < 64"
    have "bit (7 :: u64) i = (i < 3)" for i
      using bit_mask_iff [of 3 i, where 'a = u64] by (auto simp: mask_eq_exp_minus_1)
    then have "bit (7 :: u64) j = (j < 3)" "bit (7 :: u64) (min 31 j) = (min 31 j < 3)" by blast+
    then show "bit (7 :: u64) j = bit (7 :: u64) (min 31 j)" by linarith
  qed
  moreover have "slot_used 7 2" by (simp add: slot_used_def bit_iff_odd drop_bit_eq_div)
  moreover have "7 AND NOT (BITMASK 0) = 6" by (simp add: BITMASK_def)
  ultimately show ?thesis using exit_frees_slot_0 [of 7 2] by simp
qed

end
