(* ===== verification/Pic.thy ===== *)
theory Pic
  imports Prelude
begin

text \<open>
  The interrupt controllers and the timer: \<open>kernel/arch/x86_64/interrupts/pic.c\<close> and
  \<open>pit.c\<close>.  The drivers are run against the documented behaviour of the two 8259 chips: a
  command with bit 4 starts an initialisation that clears the mask and takes the next three data
  bytes as vector base, cascade wiring and mode; otherwise a data byte is the interrupt mask.
\<close>

section \<open>The chips\<close>

record chip =
  imr :: byte
  vector :: byte
  cascade :: byte
  chip_mode :: byte
  init_step :: nat
  eois :: nat
  irr :: byte
  in_service :: byte
  read_isr :: bool

definition chip_command :: "chip \<Rightarrow> byte \<Rightarrow> chip" where
  "chip_command c v =
     (if v AND 0x10 \<noteq> 0 then c\<lparr>imr := 0, init_step := 1\<rparr>
      else if v = 0x20 then c\<lparr>eois := eois c + 1\<rparr>
      else c\<lparr>read_isr := (v = 0x0b)\<rparr>)"

definition chip_data :: "chip \<Rightarrow> byte \<Rightarrow> chip" where
  "chip_data c v =
     (if init_step c = 1 then c\<lparr>vector := v, init_step := 2\<rparr>
      else if init_step c = 2 then c\<lparr>cascade := v, init_step := 3\<rparr>
      else if init_step c = 3 then c\<lparr>chip_mode := v, init_step := 0\<rparr>
      else c\<lparr>imr := v\<rparr>)"

text \<open>The timer takes its divisor as two bytes, low byte first.\<close>

record ports =
  pic1 :: chip
  pic2 :: chip
  pit_low :: "byte option"
  pit_divisor :: u16

definition PIC1_COMMAND :: u16 where "PIC1_COMMAND = 0x20"
definition PIC1_DATA :: u16 where "PIC1_DATA = 0x21"
definition PIC2_COMMAND :: u16 where "PIC2_COMMAND = 0xA0"
definition PIC2_DATA :: u16 where "PIC2_DATA = 0xA1"
definition PIT_COMMAND_REGISTER :: u16 where "PIT_COMMAND_REGISTER = 0x43"
definition PIT_CHANNEL_0_DATA_REGISTER :: u16 where "PIT_CHANNEL_0_DATA_REGISTER = 0x40"

definition outb :: "ports \<Rightarrow> u16 \<Rightarrow> byte \<Rightarrow> ports" where
  "outb p port v =
     (if port = PIC1_COMMAND then p\<lparr>pic1 := chip_command (pic1 p) v\<rparr>
      else if port = PIC1_DATA then p\<lparr>pic1 := chip_data (pic1 p) v\<rparr>
      else if port = PIC2_COMMAND then p\<lparr>pic2 := chip_command (pic2 p) v\<rparr>
      else if port = PIC2_DATA then p\<lparr>pic2 := chip_data (pic2 p) v\<rparr>
      else if port = PIT_CHANNEL_0_DATA_REGISTER then
        (case pit_low p of
           None \<Rightarrow> p\<lparr>pit_low := Some v\<rparr>
         | Some l \<Rightarrow> p\<lparr>pit_low := None, pit_divisor := ucast l OR push_bit 8 (ucast v)\<rparr>)
      else p)"

definition inb :: "ports \<Rightarrow> u16 \<Rightarrow> byte" where
  "inb p port =
     (if port = PIC1_DATA then imr (pic1 p)
      else if port = PIC2_DATA then imr (pic2 p)
      else if port = PIC1_COMMAND then (if read_isr (pic1 p) then in_service (pic1 p) else irr (pic1 p))
      else if port = PIC2_COMMAND then (if read_isr (pic2 p) then in_service (pic2 p) else irr (pic2 p))
      else 0xFF)"

section \<open>pic.c\<close>

definition PIC_EOI :: byte where "PIC_EOI = 0x20"

definition pic_send_eoi :: "ports \<Rightarrow> byte \<Rightarrow> ports" where
  "pic_send_eoi p irq = outb (if 8 \<le> irq then outb p PIC2_COMMAND PIC_EOI else p) PIC1_COMMAND PIC_EOI"

definition set_pit_count :: "ports \<Rightarrow> u64 \<Rightarrow> ports" where
  "set_pit_count p count =
     outb (outb p PIT_CHANNEL_0_DATA_REGISTER (ucast (count AND 0xFF)))
       PIT_CHANNEL_0_DATA_REGISTER (ucast (drop_bit 8 (count AND 0xFF00)))"

definition PIT_FREQUENCY :: u64 where "PIT_FREQUENCY = 1193180"
definition PIT_TIMER_FREQ :: u64 where "PIT_TIMER_FREQ = 1000"

definition pit_init :: "ports \<Rightarrow> ports" where
  "pit_init p = set_pit_count p (PIT_FREQUENCY div PIT_TIMER_FREQ)"

definition pic_init :: "ports \<Rightarrow> int \<Rightarrow> int \<Rightarrow> ports" where
  "pic_init p offset1 offset2 =
     (let a1 = inb p PIC1_DATA; a2 = inb p PIC2_DATA;
          p = outb p PIC1_COMMAND (0x10 OR 0x01); p = outb p PIC2_COMMAND (0x10 OR 0x01);
          p = outb p PIC1_DATA (word_of_int offset1); p = outb p PIC2_DATA (word_of_int offset2);
          p = outb p PIC1_DATA 4; p = outb p PIC2_DATA 2;
          p = outb p PIC1_DATA 1; p = outb p PIC2_DATA 1;
          p = outb p PIC1_DATA a1; p = outb p PIC2_DATA a2
      in pit_init p)"

definition pic_disable :: "ports \<Rightarrow> ports" where
  "pic_disable p = outb (outb p PIC1_DATA 0xff) PIC2_DATA 0xff"

text \<open>The port and the line on it.\<close>

definition irq_port :: "byte \<Rightarrow> u16 \<times> byte" where
  "irq_port IRQline = (if IRQline < 8 then (PIC1_DATA, IRQline) else (PIC2_DATA, IRQline - 8))"

definition irq_set_mask :: "ports \<Rightarrow> byte \<Rightarrow> ports" where
  "irq_set_mask p IRQline =
     (let (port, line) = irq_port IRQline
      in outb p port (ucast (ucast (inb p port) OR push_bit (unat line) (1 :: u32))))"

definition irq_clear_mask :: "ports \<Rightarrow> byte \<Rightarrow> ports" where
  "irq_clear_mask p IRQline =
     (let (port, line) = irq_port IRQline
      in outb p port (ucast (ucast (inb p port) AND NOT (push_bit (unat line) (1 :: u32)))))"

definition pic_get_irq_reg :: "ports \<Rightarrow> byte \<Rightarrow> ports \<times> u16" where
  "pic_get_irq_reg p ocw3 =
     (let p = outb (outb p PIC1_COMMAND ocw3) PIC2_COMMAND ocw3
      in (p, push_bit 8 (ucast (inb p PIC2_COMMAND)) OR ucast (inb p PIC1_COMMAND)))"

definition pic_get_irr :: "ports \<Rightarrow> ports \<times> u16" where "pic_get_irr p = pic_get_irq_reg p 0x0a"
definition pic_get_isr :: "ports \<Rightarrow> ports \<times> u16" where "pic_get_isr p = pic_get_irq_reg p 0x0b"

section \<open>pit.c\<close>

text \<open>\<open>low\<close> and \<open>high\<close> are the two bytes the latched counter gives.\<close>

definition read_pit_count :: "byte \<Rightarrow> byte \<Rightarrow> u64" where
  "read_pit_count low high = ucast low OR push_bit 8 (ucast high)"

record pit_time =
  pit_tick_count :: u64
  pit_time_ms :: u64

definition TIME_DELTA_TICK_MS :: u64 where "TIME_DELTA_TICK_MS = 1000 div PIT_TIMER_FREQ"

definition pit_handler :: "pit_time \<Rightarrow> pit_time" where
  "pit_handler t = t\<lparr>pit_tick_count := pit_tick_count t + 1, pit_time_ms := pit_time_ms t + TIME_DELTA_TICK_MS\<rparr>"

text \<open>The wait of \<open>pit_sleep\<close>, with at most \<open>n\<close> timer interrupts arriving.\<close>

fun pit_wait :: "pit_time \<Rightarrow> u64 \<Rightarrow> nat \<Rightarrow> pit_time option" where
  "pit_wait t end_ticks 0 = (if pit_tick_count t < end_ticks then None else Some t)"
| "pit_wait t end_ticks (Suc n) = (if pit_tick_count t < end_ticks then pit_wait (pit_handler t) end_ticks n else Some t)"

definition pit_sleep :: "pit_time \<Rightarrow> u64 \<Rightarrow> nat \<Rightarrow> pit_time option" where
  "pit_sleep t milliseconds n = pit_wait t (pit_tick_count t + milliseconds) n"

section \<open>Correctness\<close>

lemmas port_defs = PIC1_COMMAND_def PIC1_DATA_def PIC2_COMMAND_def PIC2_DATA_def PIT_COMMAND_REGISTER_def
  PIT_CHANNEL_0_DATA_REGISTER_def

lemma outb_simps [simp]:
  "outb p PIC1_COMMAND v = p\<lparr>pic1 := chip_command (pic1 p) v\<rparr>"
  "outb p PIC1_DATA v = p\<lparr>pic1 := chip_data (pic1 p) v\<rparr>"
  "outb p PIC2_COMMAND v = p\<lparr>pic2 := chip_command (pic2 p) v\<rparr>"
  "outb p PIC2_DATA v = p\<lparr>pic2 := chip_data (pic2 p) v\<rparr>"
  "inb p PIC1_DATA = imr (pic1 p)" "inb p PIC2_DATA = imr (pic2 p)"
  by (simp_all add: outb_def inb_def port_defs)

lemma byte_masks:
  "(n :: u64) AND 0xFF = take_bit 8 n" "drop_bit 8 ((n :: u64) AND 0xFF00) = take_bit 8 (drop_bit 8 n)"
proof -
  show "n AND 0xFF = take_bit 8 n" for n :: u64 by (simp add: take_bit_eq_mask mask_eq_exp_minus_1)
  then have "take_bit 8 (drop_bit 8 n) = drop_bit 8 n AND 0xFF" by simp
  then show "drop_bit 8 (n AND 0xFF00) = take_bit 8 (drop_bit 8 n)" by (simp add: drop_bit_and)
qed

lemma ucast_split: "ucast (ucast (take_bit 8 n) :: byte) OR push_bit 8 (ucast (ucast (take_bit 8 (drop_bit 8 n)) :: byte)) = (ucast n :: u16)"
  for n :: u64
proof (rule bit_word_eqI)
  fix j assume "j < LENGTH(16)"
  then show "bit (ucast (ucast (take_bit 8 n) :: byte) OR push_bit 8 (ucast (ucast (take_bit 8 (drop_bit 8 n)) :: byte)) :: u16) j
      = bit (ucast n :: u16) j"
    by (cases "j < 8") (auto simp: bit_or_iff bit_push_bit_iff bit_ucast_iff bit_take_bit_iff bit_drop_bit_eq)
qed

lemma set_pit_count_divisor:
  "pit_low p = None \<Longrightarrow> set_pit_count p n = p\<lparr>pit_divisor := ucast n\<rparr>"
  by (simp only: set_pit_count_def byte_masks)
    (simp add: outb_def port_defs ucast_split [simplified])

lemma chip_command_init: "chip_command c 0x11 = c\<lparr>imr := 0, init_step := 1\<rparr>"
  by (simp add: chip_command_def)

text \<open>
  \<open>pic_init\<close> leaves both chips out of the initialisation with the given vector bases, wired to each
  other, in 8086 mode, with the masks they had before, and the timer at 1000 Hz.
\<close>

lemma pic_init_spec:
  assumes "pit_low p = None"
  shows "pic_init p o1 o2 =
    p\<lparr>pic1 := (pic1 p)\<lparr>vector := word_of_int o1, cascade := 4, chip_mode := 1, init_step := 0\<rparr>,
      pic2 := (pic2 p)\<lparr>vector := word_of_int o2, cascade := 2, chip_mode := 1, init_step := 0\<rparr>,
      pit_divisor := 1193\<rparr>"
proof -
  have seq: "chip_data (chip_data (chip_data (chip_data (chip_command c 0x11) v) w) 1) (imr c) =
      c\<lparr>vector := v, cascade := w, chip_mode := 1, init_step := 0\<rparr>" for c v w
    by (simp add: chip_command_init chip_data_def)
  have "pic_init p o1 o2 = pit_init (p\<lparr>
      pic1 := chip_data (chip_data (chip_data (chip_data (chip_command (pic1 p) 0x11) (word_of_int o1)) 4) 1) (imr (pic1 p)),
      pic2 := chip_data (chip_data (chip_data (chip_data (chip_command (pic2 p) 0x11) (word_of_int o2)) 2) 1) (imr (pic2 p))\<rparr>)"
    by (simp add: pic_init_def)
  then show ?thesis
    using assms by (simp add: seq pit_init_def set_pit_count_divisor PIT_FREQUENCY_def PIT_TIMER_FREQ_def)
qed

text \<open>Masking and unmasking a line changes the one bit of that line.\<close>

lemma irq_mask_bits:
  assumes "IRQline < 8" "init_step (pic1 p) = 0"
  shows "bit (imr (pic1 (irq_set_mask p IRQline))) j = (j < 8 \<and> (bit (imr (pic1 p)) j \<or> j = unat IRQline))"
    "bit (imr (pic1 (irq_clear_mask p IRQline))) j = (bit (imr (pic1 p)) j \<and> j \<noteq> unat IRQline)"
    "pic2 (irq_set_mask p IRQline) = pic2 p" "pic2 (irq_clear_mask p IRQline) = pic2 p"
proof -
  have "unat IRQline < 8" using assms(1) by (simp add: word_less_nat_alt)
  then show "bit (imr (pic1 (irq_set_mask p IRQline))) j = (j < 8 \<and> (bit (imr (pic1 p)) j \<or> j = unat IRQline))"
    "bit (imr (pic1 (irq_clear_mask p IRQline))) j = (bit (imr (pic1 p)) j \<and> j \<noteq> unat IRQline)"
    using assms bit_imp_le_length [of "imr (pic1 p)" j]
    by (auto simp: irq_set_mask_def irq_clear_mask_def irq_port_def chip_data_def bit_ucast_iff bit_or_iff bit_and_iff
        bit_not_iff bit_exp_iff)
  show "pic2 (irq_set_mask p IRQline) = pic2 p" "pic2 (irq_clear_mask p IRQline) = pic2 p"
    using assms(1) by (simp_all add: irq_set_mask_def irq_clear_mask_def irq_port_def)
qed

text \<open>Sleeping ends after as many timer interrupts as milliseconds, and not before.\<close>

lemma pit_wait_ticks:
  assumes "unat (pit_tick_count t) + m < 2 ^ 64"
  shows "m \<le> n \<Longrightarrow> pit_wait t (pit_tick_count t + of_nat m) n = Some ((pit_handler ^^ m) t)"
    "n < m \<Longrightarrow> pit_wait t (pit_tick_count t + of_nat m) n = None"
proof -
  have lt: "(pit_tick_count t < pit_tick_count t + of_nat m) = (0 < m)" if "unat (pit_tick_count t) + m < 2 ^ 64" for t m
    using unat_add_of_nat [OF that] by (simp add: word_less_nat_alt)
  have tick: "pit_tick_count t + of_nat (Suc m) = pit_tick_count (pit_handler t) + of_nat m" for t m
    by (simp add: pit_handler_def)
  have "unat (pit_tick_count t) + m < 2 ^ 64 \<Longrightarrow>
      (m \<le> n \<longrightarrow> pit_wait t (pit_tick_count t + of_nat m) n = Some ((pit_handler ^^ m) t))
      \<and> (n < m \<longrightarrow> pit_wait t (pit_tick_count t + of_nat m) n = None)" for t m n
  proof (induction n arbitrary: t m)
    case 0
    then show ?case using lt [of t m] by auto
  next
    case (Suc n)
    show ?case
    proof (cases m)
      case 0
      then show ?thesis by simp
    next
      case (Suc k)
      have "unat (pit_tick_count (pit_handler t)) + k < 2 ^ 64"
        using Suc.prems Suc unat_add_of_nat [of "pit_tick_count t" 1] by (simp add: pit_handler_def)
      from Suc.IH [OF this] show ?thesis
        using lt [OF Suc.prems] tick [of t k] Suc by (simp add: funpow_swap1 del: of_nat_Suc)
    qed
  qed
  then show "m \<le> n \<Longrightarrow> pit_wait t (pit_tick_count t + of_nat m) n = Some ((pit_handler ^^ m) t)"
    "n < m \<Longrightarrow> pit_wait t (pit_tick_count t + of_nat m) n = None" using assms by blast+
qed

end
