(* ===== verification/Sched.thy ===== *)
theory Sched
  imports Process Pic
begin

text \<open>
  The scheduler of \<open>kernel/process/sched.c\<close>: on a timer tick in user mode, when the running
  process has had its time, its registers are saved and the next process of the list is
  chosen.
\<close>

record registers = cpu_state +
  cr2 :: u64
  irq_number :: u64
  error_code :: u64
  cs :: u64
  ss :: u64

record sched =
  kn :: kernel
  last_context_switch_time :: u64
  pcb_to_run :: u64
  skipped :: bool
  sched_triggered :: bool
  pit :: pit_time

definition PROCESS_RUN_TIME :: u64 where "PROCESS_RUN_TIME = 50"
definition KERNEL_CS_SELECTOR_OFFSET_GDT :: u64 where "KERNEL_CS_SELECTOR_OFFSET_GDT = 8"

definition to_cpu_state_from_syscall :: "cpu_state \<Rightarrow> registers \<Rightarrow> cpu_state" where
  "to_cpu_state_from_syscall c g =
     c\<lparr>rdi := rdi g, rsi := rsi g, rdx := rdx g, rcx := rcx g, rbx := rbx g, rax := rax g,
       r15 := r15 g, r14 := r14 g, r13 := r13 g, r12 := r12 g, r11 := r11 g, r10 := r10 g, r9 := r9 g, r8 := r8 g,
       rbp := rbp g, rip := rip g, rsp := rsp g, eflags := eflags g\<rparr>"

definition run_next_proc :: "sched \<Rightarrow> (sched \<times> cpu_state) option" where
  "run_next_proc s =
     (let k = (kn s)\<lparr>mm := cli (mm (kn s))\<rparr> in
      do { (k, c) \<leftarrow> run_proc k (pcb_to_run s); Some (s\<lparr>kn := k\<rparr>, c) })"

text \<open>The process after the current one, or the first of the list.\<close>

definition next_proc :: "kernel \<Rightarrow> u64" where
  "next_proc k =
     (if current_pcb k = 0 \<or> list_node (pcbs k (current_pcb k)) = 0
         \<or> node_next (kheap k) (list_node (pcbs k (current_pcb k))) = 0
      then node_data (kheap k) (pcb_list k)
      else node_data (kheap k) (node_next (kheap k) (list_node (pcbs k (current_pcb k)))))"

definition save_current :: "kernel \<Rightarrow> registers \<Rightarrow> kernel" where
  "save_current k g =
     (if current_pcb k \<noteq> 0
      then let b = pcbs k (current_pcb k)
           in set_pcb k (current_pcb k) (b\<lparr>cpu_context := to_cpu_state_from_syscall (cpu_context b) g\<rparr>)
      else k)"

text \<open>\<open>rnp\<close> is the address of \<open>run_next_proc\<close>.\<close>

definition handle_sched_on_pit_tick :: "u64 \<Rightarrow> sched \<Rightarrow> registers \<Rightarrow> sched \<times> registers" where
  "handle_sched_on_pit_tick rnp s g =
     (if cs g AND 3 = 0 then (s, g)
      else if pcb_list (kn s) = 0 \<or> (pit_time_ms (pit s) - last_context_switch_time s < PROCESS_RUN_TIME \<and> \<not> skipped s) then (s, g)
      else let s = s\<lparr>last_context_switch_time := pit_time_ms (pit s), kn := save_current (kn s) g\<rparr>;
               p = next_proc (kn s);
               s = s\<lparr>pcb_to_run := p\<rparr>;
               b = pcbs (kn s) p
           in if pid b \<noteq> 0 \<and> pid b \<noteq> of_nat KERNEL_PID \<and> pstate b = READY
              then (s\<lparr>sched_triggered := True, skipped := False\<rparr>,
                    g\<lparr>rip := rnp, cs := KERNEL_CS_SELECTOR_OFFSET_GDT, ss := 0x10, rsp := stack (kpcb (kn s)),
                      eflags := eflags g AND NOT (push_bit 9 1)\<rparr>)
              else (s\<lparr>sched_triggered := False, skipped := True\<rparr>, g))"

section \<open>The choice of the next process\<close>

text \<open>
  The process list: the nodes of the heap in order with the addresses of their blocks, each of
  which knows its node.
\<close>

definition proc_list :: "kernel \<Rightarrow> (u64 \<times> u64) list \<Rightarrow> bool" where
  "proc_list k xs \<longleftrightarrow> llist (kheap k) (pcb_list k) xs \<and> distinct (map snd xs)
     \<and> (\<forall>(a, p) \<in> set xs. p \<noteq> 0 \<and> list_node (pcbs k p) = a)"

definition runnable :: "PCB \<Rightarrow> bool" where
  "runnable b \<longleftrightarrow> pid b \<noteq> 0 \<and> pid b \<noteq> of_nat KERNEL_PID \<and> pstate b = READY"

lemma llist_nth:
  "llist h q xs \<Longrightarrow> i < length xs \<Longrightarrow>
     node_data h (fst (xs ! i)) = snd (xs ! i) \<and> fst (xs ! i) \<noteq> 0
     \<and> node_next h (fst (xs ! i)) = (if i + 1 < length xs then fst (xs ! (i + 1)) else 0)"
proof (induction xs arbitrary: q i)
  case (Cons x xs)
  obtain a d where x: "x = (a, d)" by force
  have l: "node_data h a = d" "a \<noteq> 0" "llist h (node_next h a) xs" using Cons.prems(1) by (auto simp: x)
  show ?case
  proof (cases i)
    case 0
    have "node_next h a = (if xs = [] then 0 else fst (hd xs))" using l(3) by (cases xs) auto
    then show ?thesis using 0 l by (auto simp: x hd_conv_nth)
  next
    case (Suc j)
    then show ?thesis using Cons.IH [OF l(3), of j] Cons.prems(2) by simp
  qed
qed simp

lemma llist_head: "llist h q xs \<Longrightarrow> xs \<noteq> [] \<Longrightarrow> q = fst (xs ! 0) \<and> q \<noteq> 0 \<and> node_data h q = snd (xs ! 0)"
  by (cases xs) auto

text \<open>After the process at position \<open>i\<close> comes the one at \<open>i + 1\<close>, cyclically.\<close>

lemma next_proc_cyclic:
  assumes "proc_list k xs" "i < length xs" "current_pcb k = snd (xs ! i)"
  shows "next_proc k = snd (xs ! ((i + 1) mod length xs))"
proof -
  have l: "llist (kheap k) (pcb_list k) xs" using assms(1) by (simp add: proc_list_def)
  have "xs ! i \<in> set xs" using assms(2) by simp
  then have n: "current_pcb k \<noteq> 0" "list_node (pcbs k (current_pcb k)) = fst (xs ! i)"
    using assms(1,3) by (auto simp: proc_list_def case_prod_beta)
  note at = llist_nth [OF l assms(2)]
  show ?thesis
  proof (cases "i + 1 < length xs")
    case True
    then have "fst (xs ! (i + 1)) \<noteq> 0" "node_data (kheap k) (fst (xs ! (i + 1))) = snd (xs ! (i + 1))"
      using llist_nth [OF l True] by auto
    then show ?thesis using True at n by (simp add: next_proc_def)
  next
    case False
    then have "(i + 1) mod length xs = 0" using assms(2) by (metis Suc_eq_plus1 Suc_lessI mod_self)
    moreover have "xs \<noteq> []" using assms(2) by auto
    then have "node_data (kheap k) (pcb_list k) = snd (xs ! 0)" using llist_head [OF l] by blast
    ultimately show ?thesis using False at n by (simp add: next_proc_def)
  qed
qed

lemma save_current_simps [simp]:
  "kheap (save_current k g) = kheap k" "pcb_list (save_current k g) = pcb_list k" "mm (save_current k g) = mm k"
  "current_pcb (save_current k g) = current_pcb k" "kpcb (save_current k g) = kpcb k"
  by (simp_all add: save_current_def set_pcb_def Let_def)

lemma save_current_pcbs [simp]:
  "list_node (pcbs (save_current k g) p) = list_node (pcbs k p)" "pid (pcbs (save_current k g) p) = pid (pcbs k p)"
  "pstate (pcbs (save_current k g) p) = pstate (pcbs k p)" "pml4 (pcbs (save_current k g) p) = pml4 (pcbs k p)"
  "real_mem_addr (pcbs (save_current k g) p) = real_mem_addr (pcbs k p)"
  by (simp_all add: save_current_def set_pcb_def Let_def)

lemma proc_list_save [simp]: "proc_list (save_current k g) xs = proc_list k xs"
  by (simp add: proc_list_def)

lemma runnable_save [simp]: "runnable (pcbs (save_current k g) p) = runnable (pcbs k p)"
  by (simp add: runnable_def)

lemma next_proc_save [simp]: "next_proc (save_current k g) = next_proc k"
  by (simp add: next_proc_def)

text \<open>A tick of the timer in user mode, in the four cases of the code.\<close>

lemma sched_wait:
  "\<not> skipped s \<Longrightarrow> pit_time_ms (pit s) - last_context_switch_time s < PROCESS_RUN_TIME \<Longrightarrow>
     handle_sched_on_pit_tick rnp s g = (s, g)"
  by (simp add: handle_sched_on_pit_tick_def)

lemma sched_switch:
  assumes "cs g AND 3 \<noteq> 0" "pcb_list (kn s) \<noteq> 0"
    "\<not> (pit_time_ms (pit s) - last_context_switch_time s < PROCESS_RUN_TIME) \<or> skipped s" "runnable (pcbs (kn s) (next_proc (kn s)))"
  shows "\<exists>g'. handle_sched_on_pit_tick rnp s g =
    (s\<lparr>last_context_switch_time := pit_time_ms (pit s), kn := save_current (kn s) g, pcb_to_run := next_proc (kn s),
       sched_triggered := True, skipped := False\<rparr>, g') \<and> rip g' = rnp \<and> cs g' AND 3 = 0 \<and> \<not> bit (eflags g') 9"
  using assms by (auto simp: handle_sched_on_pit_tick_def runnable_def Let_def KERNEL_CS_SELECTOR_OFFSET_GDT_def bit_and_iff
      bit_not_iff bit_exp_iff)

lemma sched_skip:
  assumes "cs g AND 3 \<noteq> 0" "pcb_list (kn s) \<noteq> 0"
    "\<not> (pit_time_ms (pit s) - last_context_switch_time s < PROCESS_RUN_TIME) \<or> skipped s" "\<not> runnable (pcbs (kn s) (next_proc (kn s)))"
  shows "handle_sched_on_pit_tick rnp s g =
    (s\<lparr>last_context_switch_time := pit_time_ms (pit s), kn := save_current (kn s) g, pcb_to_run := next_proc (kn s),
       sched_triggered := False, skipped := True\<rparr>, g)"
  using assms by (auto simp: handle_sched_on_pit_tick_def runnable_def Let_def)

text \<open>
  The registers of the interrupted process are those it gets back.
\<close>

lemma saved_registers:
  assumes "current_pcb k \<noteq> 0"
  shows "cpu_context (pcbs (save_current k g) (current_pcb k)) = cpu_state.truncate g"
  using assms by (simp add: save_current_def set_pcb_def to_cpu_state_from_syscall_def cpu_state.truncate_def Let_def)

text \<open>Ticks that interrupt user code with the given registers, one after the other.\<close>

definition ticks :: "u64 \<Rightarrow> registers list \<Rightarrow> sched \<Rightarrow> sched" where
  "ticks rnp gs s = fold (\<lambda>g s. fst (handle_sched_on_pit_tick rnp s g)) gs s"

lemma save_current_other: "q \<noteq> current_pcb k \<Longrightarrow> pcbs (save_current k g) q = pcbs k q"
  by (simp add: save_current_def set_pcb_def Let_def)

text \<open>A process that is not ready stops the rotation: every later tick looks at it again.\<close>

lemma ticks_stuck:
  assumes "skipped s" "\<not> sched_triggered s" "pcb_to_run s = next_proc (kn s)" "pcb_list (kn s) \<noteq> 0"
    and "\<not> runnable (pcbs (kn s) (next_proc (kn s)))" "\<forall>g \<in> set gs. cs g AND 3 \<noteq> 0"
  shows "\<not> sched_triggered (ticks rnp gs s) \<and> pcb_to_run (ticks rnp gs s) = next_proc (kn s)"
  using assms
proof (induction gs arbitrary: s)
  case (Cons g gs)
  let ?s = "s\<lparr>last_context_switch_time := pit_time_ms (pit s), kn := save_current (kn s) g, pcb_to_run := next_proc (kn s),
      sched_triggered := False, skipped := True\<rparr>"
  have "handle_sched_on_pit_tick rnp s g = (?s, g)" using Cons.prems by (intro sched_skip) auto
  then have "ticks rnp (g # gs) s = ticks rnp gs ?s" by (simp add: ticks_def)
  moreover have "\<not> sched_triggered (ticks rnp gs ?s) \<and> pcb_to_run (ticks rnp gs ?s) = next_proc (kn ?s)"
    using Cons.prems by (intro Cons.IH) auto
  ultimately show ?case by simp
qed (simp add: ticks_def)

text \<open>
  C30. Round robin: when a tick interrupts user code of the process at position \<open>i\<close> of the process list and
  its time is over, the handler saves the interrupted registers in its block, changes no other
  block and no link of the list, and chooses the process at position \<open>i + 1\<close>, cyclically.  If that one
  is ready, the interrupt returns into \<open>run_next_proc\<close> in ring 0.  If it is not, the interrupted
  process goes on with its registers unchanged, and no later tick gets past the unready process.
\<close>

theorem sched_round_robin:
  assumes "proc_list (kn s) xs" "i < length xs" "current_pcb (kn s) = snd (xs ! i)" "cs g AND 3 \<noteq> 0"
    and "PROCESS_RUN_TIME \<le> pit_time_ms (pit s) - last_context_switch_time s"
    and "(s', g') = handle_sched_on_pit_tick rnp s g" "nxt = snd (xs ! ((i + 1) mod length xs))"
  shows "cpu_context (pcbs (kn s') (snd (xs ! i))) = cpu_state.truncate g
     \<and> (\<forall>q. q \<noteq> snd (xs ! i) \<longrightarrow> pcbs (kn s') q = pcbs (kn s) q) \<and> proc_list (kn s') xs \<and> pcb_to_run s' = nxt
     \<and> (if runnable (pcbs (kn s) nxt) then sched_triggered s' \<and> rip g' = rnp \<and> cs g' AND 3 = 0 \<and> \<not> bit (eflags g') 9
        else g' = g \<and> (\<forall>gs. (\<forall>g \<in> set gs. cs g AND 3 \<noteq> 0) \<longrightarrow>
               \<not> sched_triggered (ticks rnp gs s') \<and> pcb_to_run (ticks rnp gs s') = nxt))"
proof -
  have nxt: "next_proc (kn s) = nxt" using next_proc_cyclic [OF assms(1-3)] assms(7) by simp
  have ne: "xs \<noteq> []" using assms(2) by auto
  then have pl: "pcb_list (kn s) \<noteq> 0" using assms(1) llist_head unfolding proc_list_def by blast
  have cur: "current_pcb (kn s) \<noteq> 0"
    using assms(1-3) nth_mem [OF assms(2)] by (auto simp: proc_list_def case_prod_beta)
  have over: "\<not> (pit_time_ms (pit s) - last_context_switch_time s < PROCESS_RUN_TIME) \<or> skipped s" using leD [OF assms(5)] by simp
  show ?thesis
  proof (cases "runnable (pcbs (kn s) nxt)")
    case True
    then show ?thesis
      using sched_switch [OF assms(4) pl over, of rnp] True assms(1,3,6) saved_registers [OF cur, of g]
        save_current_other [of _ "kn s" g] by (auto simp: nxt)
  next
    case False
    then have s': "s' = s\<lparr>last_context_switch_time := pit_time_ms (pit s), kn := save_current (kn s) g, pcb_to_run := nxt,
        sched_triggered := False, skipped := True\<rparr>" "g' = g"
      using sched_skip [OF assms(4) pl over, of rnp] assms(6) by (auto simp: nxt)
    have "\<not> sched_triggered (ticks rnp gs s') \<and> pcb_to_run (ticks rnp gs s') = nxt" if "\<forall>g \<in> set gs. cs g AND 3 \<noteq> 0" for gs
      using ticks_stuck [of s' gs rnp] False that pl nxt by (simp add: s')
    then show ?thesis
      using False assms(1,3) saved_registers [OF cur, of g] save_current_other [of _ "kn s" g] by (auto simp: s')
  qed
qed

text \<open>Two processes; the first one is running.\<close>

definition proc_block :: "u32 \<Rightarrow> u64 \<Rightarrow> PCB" where
  "proc_block p node =
     \<lparr>ppid = 1, pid = p, pstate = READY, real_mem_addr = 0, entry = 0, pml4 = 0x2000, old_pml4 = 0, stack = 0, pheap = 0,
      priority = 0, cpu_context = zero_cpu, list_node = node\<rparr>"

definition two_procs :: kernel where
  "two_procs =
     \<lparr>mm = small_mmu, kheap = fresh_heap\<lparr>bytes := (\<lambda>_. 0)(0x101 := 0x10, 0x109 := 2, 0x201 := 0x20)\<rparr>,
      process_pid_bitmap = 12, process_mem_bitmap = 3,
      pcbs = (\<lambda>_. proc_block 0 0)(0x1000 := proc_block 3 0x100, 0x2000 := proc_block 2 0x200),
      pcb_list = 0x100, current_pcb = 0x1000, kpcb = proc_block 1 0\<rparr>"

definition after_slice :: sched where
  "after_slice = \<lparr>kn = two_procs, last_context_switch_time = 100, pcb_to_run = 0, skipped = False, sched_triggered = False,
     pit = \<lparr>pit_tick_count = 150, pit_time_ms = 150\<rparr>\<rparr>"

definition user_regs :: registers where
  "user_regs = cpu_state.extend (zero_cpu\<lparr>rax := 7, rip := 0x4000010\<rparr>)
     \<lparr>cr2 = 0, irq_number = 32, error_code = 0, cs = 0x1b, ss = 0x23\<rparr>"

theorem sched_round_robin_witness:
  "let (s', g') = handle_sched_on_pit_tick 0x3000 after_slice user_regs
   in cpu_context (pcbs (kn s') 0x1000) = zero_cpu\<lparr>rax := 7, rip := 0x4000010\<rparr> \<and> pcb_to_run s' = 0x2000
      \<and> sched_triggered s' \<and> rip g' = 0x3000"
proof -
  let ?xs = "[(0x100, 0x1000), (0x200, 0x2000)]"
  have "proc_list two_procs ?xs"
    by (simp add: proc_list_def two_procs_def proc_block_def node_data_def node_next_def read64_def bytes_at_def upt_conv_Cons of_le_def)
  moreover have "runnable (pcbs two_procs 0x2000)"
    by (simp add: runnable_def two_procs_def proc_block_def KERNEL_PID_def)
  moreover have "cpu_state.truncate user_regs = zero_cpu\<lparr>rax := 7, rip := 0x4000010\<rparr>"
    by (simp add: user_regs_def cpu_state.truncate_def cpu_state.extend_def zero_cpu_def)
  moreover have "cs user_regs AND 3 \<noteq> 0" "current_pcb two_procs = 0x1000"
    "PROCESS_RUN_TIME \<le> pit_time_ms (pit after_slice) - last_context_switch_time after_slice" "kn after_slice = two_procs"
    by (simp_all add: user_regs_def cpu_state.extend_def two_procs_def after_slice_def PROCESS_RUN_TIME_def)
  moreover obtain s' g' where e: "(s', g') = handle_sched_on_pit_tick 0x3000 after_slice user_regs" by (metis surj_pair)
  ultimately show ?thesis
    using sched_round_robin [of after_slice ?xs 0 user_regs, OF _ _ _ _ _ e refl] unfolding e [symmetric] by simp
qed

end
