(* ===== verification/Time.thy ===== *)
theory Time
  imports Prelude "HOL-Library.Monad_Syntax" "HOL-Library.Signed_Division"
begin

text \<open>
  \<open>libc/time/time.c\<close>: reading the real time clock, UNIX time and the day of the week.  \<open>None\<close> is an
  access outside an array, or a clock that never gives the same reading twice.
\<close>

section \<open>The clock\<close>

text \<open>One reading of the clock registers, and the decoded globals of the file.\<close>

record rtc =
  rsecond :: byte
  rminute :: byte
  rhour :: byte
  rday :: byte
  rmonth :: byte
  ryear :: byte

record date_time =
  second :: byte
  minute :: byte
  hour :: byte
  day :: byte
  month :: byte
  year :: u32

definition CURRENT_YEAR :: u32 where "CURRENT_YEAR = 2024"

text \<open>
  The loop of \<open>read_rtc\<close> reads until two consecutive readings agree; the list is what the clock
  shows on successive readings, each taken while no update is in progress.
\<close>

fun settle :: "rtc \<Rightarrow> rtc list \<Rightarrow> rtc option" where
  "settle prev [] = None"
| "settle prev (r # rs) = (if r = prev then Some r else settle r rs)"

definition bcd :: "byte \<Rightarrow> byte" where
  "bcd b = (b AND 0x0F) + (b div 16) * 10"

definition decode_rtc :: "byte \<Rightarrow> rtc \<Rightarrow> date_time" where
  "decode_rtc registerB r =
     (let t = \<lparr>second = rsecond r, minute = rminute r, hour = rhour r, day = rday r, month = rmonth r, year = ucast (ryear r)\<rparr>;
          t = (if registerB AND 4 = 0
               then t\<lparr>second := bcd (second t), minute := bcd (minute t),
                      hour := ((hour t AND 0x0F) + ((hour t AND 0x70) div 16) * 10) OR (hour t AND 0x80),
                      day := bcd (day t), month := bcd (month t),
                      year := (year t AND 0x0F) + (year t div 16) * 10\<rparr>
               else t);
          t = (if registerB AND 2 = 0 \<and> hour t AND 0x80 \<noteq> 0 then t\<lparr>hour := ((hour t AND 0x7F) + 12) mod 24\<rparr> else t);
          t = t\<lparr>year := year t + (CURRENT_YEAR div 100) * 100\<rparr>
      in if year t < CURRENT_YEAR then t\<lparr>year := year t + 100\<rparr> else t)"

definition read_rtc :: "byte \<Rightarrow> rtc list \<Rightarrow> date_time option" where
  "read_rtc registerB rs = (case rs of [] \<Rightarrow> None | r # rs \<Rightarrow> map_option (decode_rtc registerB) (settle r rs))"

section \<open>Dates\<close>

definition is_leap_year :: "nat \<Rightarrow> bool" where
  "is_leap_year y \<longleftrightarrow> (y mod 4 = 0 \<and> y mod 100 \<noteq> 0) \<or> y mod 400 = 0"

definition days_in_month :: "nat \<Rightarrow> nat \<Rightarrow> nat option" where
  "days_in_month m y =
     (let days = [31, 28, 31, 30, 31, 30, 31, 31, 30, 31, 30, 31] in
      if m = 2 \<and> is_leap_year y then Some 29
      else if 1 \<le> m \<and> m - 1 < length days then Some (days ! (m - 1)) else None)"

text \<open>The loops over the complete years from \<open>i\<close> and the complete months from \<open>i\<close>, with \<open>n\<close> to go.\<close>

fun year_days :: "nat \<Rightarrow> nat \<Rightarrow> nat" where
  "year_days i 0 = 0"
| "year_days i (Suc n) = (if is_leap_year i then 366 else 365) + year_days (i + 1) n"

fun month_days :: "nat \<Rightarrow> nat \<Rightarrow> nat \<Rightarrow> nat option" where
  "month_days i y 0 = Some 0"
| "month_days i y (Suc n) = do { d \<leftarrow> days_in_month i y; ds \<leftarrow> month_days (i + 1) y n; Some (d + ds) }"

text \<open>The sum is 64 bits wide; \<open>day - 1\<close> is an \<open>int\<close>.\<close>

definition unix_time :: "date_time \<Rightarrow> u64 option" where
  "unix_time t =
     do { ms \<leftarrow> month_days 1 (unat (year t)) (unat (month t) - 1);
          let days = of_nat (year_days 1970 (unat (year t) - 1970)) + of_nat ms + word_of_int (uint (day t) - 1);
          Some (days * 86400 + ucast (hour t) * 3600 + ucast (minute t) * 60 + ucast (second t)) }"

definition weekdays :: "string list" where
  "weekdays = [''Sun'', ''Mon'', ''Tue'', ''Wed'', ''Thu'', ''Fri'', ''Sat'']"

text \<open>Zeller's congruence; the division and remainder of \<open>int\<close> values truncate.\<close>

definition zeller :: "int \<Rightarrow> int \<Rightarrow> int \<Rightarrow> int" where
  "zeller d m y =
     (let (m, y) = (if m < 3 then (m + 12, y - 1) else (m, y))
      in (d + (13 * (m + 1)) sdiv 5 + y + y sdiv 4 - y sdiv 100 + y sdiv 400) smod 7)"

definition day_of_week :: "nat \<Rightarrow> nat \<Rightarrow> nat \<Rightarrow> string option" where
  "day_of_week d m y =
     (let h = zeller (int d) (int m) (int y)
      in if 0 \<le> h - 1 \<and> h - 1 < 7 then Some (weekdays ! nat (h - 1)) else None)"

definition time :: "byte \<Rightarrow> rtc list \<Rightarrow> u64 option" where
  "time registerB rs = do { t \<leftarrow> read_rtc registerB rs; unix_time t }"

definition monts :: "string list" where
  "monts = [''Jan'', ''Feb'', ''Mar'', ''Apr'', ''May'', ''Jun'', ''Jul'', ''Aug'', ''Sep'', ''Oct'', ''Nov'', ''Dec'']"

text \<open>What \<open>date\<close> prints: the weekday, the day, the month, the year and the time of day.\<close>

definition date :: "byte \<Rightarrow> rtc list \<Rightarrow> (string \<times> byte \<times> string \<times> u32 \<times> byte \<times> byte \<times> byte) option" where
  "date registerB rs =
     do { t \<leftarrow> read_rtc registerB rs;
          w \<leftarrow> day_of_week (unat (day t)) (unat (month t)) (unat (year t));
          if 1 \<le> unat (month t) \<and> unat (month t) \<le> 12
          then Some (w, day t, monts ! (unat (month t) - 1), year t, hour t, minute t, second t) else None }"

section \<open>The calendar\<close>

text \<open>Days since 1 January 1970.\<close>

definition epoch_days :: "nat \<Rightarrow> nat \<Rightarrow> nat \<Rightarrow> nat option" where
  "epoch_days d m y = do { ms \<leftarrow> month_days 1 y (m - 1); Some (year_days 1970 (y - 1970) + ms + (d - 1)) }"

definition valid_date :: "nat \<Rightarrow> nat \<Rightarrow> nat \<Rightarrow> bool" where
  "valid_date d m y \<longleftrightarrow> 1970 \<le> y \<and> 1 \<le> m \<and> m \<le> 12 \<and> 1 \<le> d \<and> (\<exists>n. days_in_month m y = Some n \<and> d \<le> n)"

lemma year_days_snoc: "year_days i (Suc n) = year_days i n + (if is_leap_year (i + n) then 366 else 365)"
  by (induction n arbitrary: i) auto

text \<open>The number of leap years up to a year, in closed form.\<close>

definition leaps :: "nat \<Rightarrow> int" where
  "leaps y = int (y div 4) - int (y div 100) + int (y div 400)"

lemma leaps_Suc: "leaps (Suc y) = leaps y + (if is_leap_year (Suc y) then 1 else 0)"
proof -
  have "Suc y mod 100 = 0 \<Longrightarrow> Suc y mod 4 = 0" "Suc y mod 400 = 0 \<Longrightarrow> Suc y mod 100 = 0"
    by (auto simp: mod_eq_0_iff_dvd intro: dvd_trans)
  then show ?thesis
    by (auto simp: leaps_def is_leap_year_def div_Suc split: if_splits)
qed

lemma year_days_closed: "int (year_days 1970 n) = 365 * int n + leaps (1969 + n) - 477"
proof (induction n)
  case 0
  then show ?case by (simp add: leaps_def)
next
  case (Suc n)
  show ?case
    using Suc leaps_Suc [of "1969 + n"] year_days_snoc [of 1970 n] by (simp split: if_splits)
qed

text \<open>Days before a month, without the leap day.\<close>

definition before_month :: "nat list" where
  "before_month = [0, 31, 59, 90, 120, 151, 181, 212, 243, 273, 304, 334]"

lemma month_cases:
  assumes "1 \<le> m" "m \<le> (12 :: nat)"
  shows "m = 1 \<or> m = 2 \<or> m = 3 \<or> m = 4 \<or> m = 5 \<or> m = 6 \<or> m = 7 \<or> m = 8 \<or> m = 9 \<or> m = 10 \<or> m = 11 \<or> m = 12"
  using assms by (auto simp: numeral_eq_Suc le_Suc_eq)

lemma month_days_snoc:
  "month_days i y (Suc n) = do { ds \<leftarrow> month_days i y n; d \<leftarrow> days_in_month (i + n) y; Some (ds + d) }"
proof (induction n arbitrary: i)
  case (Suc n)
  show ?case
    using Suc [of "i + 1"] by (cases "days_in_month i y"; cases "month_days (i + 1) y n") (auto simp: add.assoc)
qed (cases "days_in_month i y"; simp)

lemma days_before:
  assumes "1 \<le> m" "m < 12"
  shows "\<exists>d. days_in_month m y = Some d \<and>
    before_month ! m + (if 3 \<le> m + 1 \<and> is_leap_year y then 1 else 0) =
    before_month ! (m - 1) + (if 3 \<le> m \<and> is_leap_year y then 1 else 0) + d"
proof -
  have "m \<le> 12" using assms(2) by simp
  from month_cases [OF assms(1) this] assms(2) show ?thesis
    by (elim disjE) (simp_all add: days_in_month_def before_month_def)
qed

lemma month_days_sum:
  "1 \<le> m \<Longrightarrow> m \<le> 12 \<Longrightarrow>
     month_days 1 y (m - 1) = Some (before_month ! (m - 1) + (if 3 \<le> m \<and> is_leap_year y then 1 else 0))"
proof (induction m)
  case (Suc m)
  show ?case
  proof (cases "m = 0")
    case True
    then show ?thesis by (simp add: before_month_def)
  next
    case False
    then obtain n where n: "m = Suc n" by (cases m) auto
    obtain d where "days_in_month m y = Some d"
      "before_month ! m + (if 3 \<le> m + 1 \<and> is_leap_year y then 1 else 0) =
       before_month ! (m - 1) + (if 3 \<le> m \<and> is_leap_year y then 1 else 0) + d"
      using days_before [of m y] Suc.prems False by auto
    then show ?thesis
      using Suc.IH Suc.prems month_days_snoc [of 1 y n] by (simp add: n)
  qed
qed simp

lemma zeller_nonneg:
  assumes "0 \<le> y'" "0 \<le> m'" "0 \<le> d"
  shows "(d + (13 * (m' + 1)) sdiv 5 + y' + y' sdiv 4 - y' sdiv 100 + y' sdiv 400) smod 7
    = (d + (13 * (m' + 1)) div 5 + y' + y' div 4 - y' div 100 + y' div 400) mod (7 :: int)"
proof -
  have s: "a sdiv b = a div b" "a smod b = a mod b" if "0 \<le> a" "0 < b" for a b :: int
    using that by (cases "a = 0"; simp add: signed_divide_int_def signed_modulo_int_def)+
  have "0 \<le> (13 * (m' + 1)) div 5" "y' div 100 \<le> y'" "0 \<le> y' div 4" "0 \<le> y' div 400"
    using assms by (simp_all add: pos_imp_zdiv_nonneg_iff)
  then have "0 \<le> d + (13 * (m' + 1)) div 5 + y' + y' div 4 - y' div 100 + y' div 400" using assms by linarith
  then show ?thesis using assms by (simp add: s)
qed

lemma zeller_cases:
  "3 \<le> m \<Longrightarrow> zeller d (int m) y = (d + (13 * (int m + 1)) sdiv 5 + y + y sdiv 4 - y sdiv 100 + y sdiv 400) smod 7"
  "m < 3 \<Longrightarrow> zeller d (int m) y =
     (d + (13 * (int m + 12 + 1)) sdiv 5 + (y - 1) + (y - 1) sdiv 4 - (y - 1) sdiv 100 + (y - 1) sdiv 400) smod 7"
  by (simp_all add: zeller_def)

lemma zeller_days:
  assumes "1 \<le> m" "m \<le> 12" "1970 \<le> y" "1 \<le> d"
  shows "zeller (int d) (int m) (int y) =
    (int (year_days 1970 (y - 1970) + (before_month ! (m - 1) + (if 3 \<le> m \<and> is_leap_year y then 1 else 0)) + (d - 1)) + 5) mod 7"
proof -
  define L where "L = leaps (y - 1)"
  have Y: "int (year_days 1970 (y - 1970)) = 365 * (int y - 1970) + L - 477"
    using year_days_closed [of "y - 1970"] assms(3) by (simp add: L_def)
  have Ly: "leaps y = L + (if is_leap_year y then 1 else 0)"
    using leaps_Suc [of "y - 1"] assms(3) by (simp add: L_def)
  have div: "int y div 4 - int y div 100 + int y div 400 = leaps y"
    "(int y - 1) div 4 - (int y - 1) div 100 + (int y - 1) div 400 = L"
  proof -
    show "int y div 4 - int y div 100 + int y div 400 = leaps y" by (simp add: leaps_def zdiv_int)
    have "int y - 1 = int (y - 1)" using assms(3) by simp
    show "(int y - 1) div 4 - (int y - 1) div 100 + (int y - 1) div 400 = L"
      unfolding \<open>int y - 1 = int (y - 1)\<close> L_def leaps_def by (simp only: zdiv_int of_nat_numeral)
  qed
  have z3: "zeller (int d) (int m) (int y) = (int d + (13 * (int m + 1)) div 5 + int y + leaps y) mod 7" if "3 \<le> m"
  proof -
    have "zeller (int d) (int m) (int y) =
        (int d + (13 * (int m + 1)) div 5 + int y + int y div 4 - int y div 100 + int y div 400) mod 7"
      unfolding zeller_cases(1) [OF that] by (rule zeller_nonneg) simp_all
    also have "int d + (13 * (int m + 1)) div 5 + int y + int y div 4 - int y div 100 + int y div 400 =
        int d + (13 * (int m + 1)) div 5 + int y + leaps y"
      using div(1) by linarith
    finally show ?thesis .
  qed
  have z1: "zeller (int d) (int m) (int y) = (int d + (13 * (int m + 13)) div 5 + (int y - 1) + L) mod 7" if "m < 3"
  proof -
    have "zeller (int d) (int m) (int y) =
        (int d + (13 * (int m + 12 + 1)) div 5 + (int y - 1) + (int y - 1) div 4 - (int y - 1) div 100 + (int y - 1) div 400) mod 7"
      unfolding zeller_cases(2) [OF that] by (rule zeller_nonneg) (use assms(3) in simp_all)
    also have "int d + (13 * (int m + 12 + 1)) div 5 + (int y - 1) + (int y - 1) div 4 - (int y - 1) div 100 + (int y - 1) div 400 =
        int d + (13 * (int m + 13)) div 5 + (int y - 1) + L"
      using div(2) by simp
    finally show ?thesis .
  qed
  have cong: "a mod 7 = b mod 7" if "a = b + 7 * q" for a b q :: int using that by simp
  define B where "B = int (before_month ! (m - 1))"
  define N where "N = int (year_days 1970 (y - 1970) + (before_month ! (m - 1) + (if 3 \<le> m \<and> is_leap_year y then 1 else 0)) + (d - 1)) + 5"
  have N: "N = 365 * (int y - 1970) + L - 477 + B + (if 3 \<le> m \<and> is_leap_year y then 1 else 0) + int d + 4"
    using Y assms(4) unfolding N_def B_def by (simp add: of_nat_diff)
  have "zeller (int d) (int m) (int y) = N mod 7"
  proof (cases "3 \<le> m")
    case True
    define C where "C = (13 * (int m + 1)) div 5"
    have "m = 3 \<or> m = 4 \<or> m = 5 \<or> m = 6 \<or> m = 7 \<or> m = 8 \<or> m = 9 \<or> m = 10 \<or> m = 11 \<or> m = 12"
      using month_cases [OF assms(1,2)] True by linarith
    then have "(C - B + 719523) mod 7 = 0"
      unfolding C_def B_def by (elim disjE) (simp_all add: before_month_def)
    then obtain q where q: "C - B + 719523 = 7 * q" by (auto simp: mod_eq_0_iff_dvd elim: dvdE)
    have "int d + C + int y + (L + (if is_leap_year y then 1 else 0)) = N + 7 * (q - 52 * int y)"
      unfolding N using q True by (simp split: if_splits)
    then show ?thesis unfolding z3 [OF True] Ly C_def by (rule cong)
  next
    case False
    then have m3: "m < 3" by simp
    define C where "C = (13 * (int m + 13)) div 5"
    have "m = 1 \<or> m = 2" using assms(1) False by linarith
    then have "(C - B + 719522) mod 7 = 0"
      unfolding C_def B_def by (elim disjE) (simp_all add: before_month_def)
    then obtain q where q: "C - B + 719522 = 7 * q" by (auto simp: mod_eq_0_iff_dvd elim: dvdE)
    have "int d + C + (int y - 1) + L = N + 7 * (q - 52 * int y)"
      unfolding N using q False by simp
    then show ?thesis unfolding z1 [OF m3] C_def by (rule cong)
  qed
  then show ?thesis unfolding N_def .
qed



end
