(* ===== verification/NetProto.thy ===== *)
theory NetProto
  imports Prelude
begin

text \<open>
  Byte order (\<open>libc/endian/endian.c\<close>) and the packet formats: \<open>kernel/net/ethernet.c\<close>, \<open>ipv4.c\<close> and
  \<open>udp.c\<close>.  A packet is the list of bytes in the first \<open>packet_len\<close> places of a buffer of
  \<open>PACKET_MAX_SIZE\<close> bytes; \<open>None\<close> is a write behind the buffer.
\<close>

section \<open>endian.c\<close>

text \<open>The first byte of the number 1 in memory.\<close>

definition is_little_endian :: bool where
  "is_little_endian \<longleftrightarrow> hd (to_le 4 (1 :: u32)) = 1"

definition swap16 :: "u16 \<Rightarrow> u16" where
  "swap16 v = push_bit 8 v OR drop_bit 8 v"

definition swap32 :: "u32 \<Rightarrow> u32" where
  "swap32 v = (push_bit 24 v AND 0xFF000000) OR (push_bit 8 v AND 0x00FF0000) OR
     (drop_bit 8 v AND 0x0000FF00) OR (drop_bit 24 v AND 0x000000FF)"

definition swap64 :: "u64 \<Rightarrow> u64" where
  "swap64 v = (push_bit 56 v AND 0xFF00000000000000) OR (push_bit 40 v AND 0x00FF000000000000) OR
     (push_bit 24 v AND 0x0000FF0000000000) OR (push_bit 8 v AND 0x000000FF00000000) OR
     (drop_bit 8 v AND 0x00000000FF000000) OR (drop_bit 24 v AND 0x0000000000FF0000) OR
     (drop_bit 40 v AND 0x000000000000FF00) OR (drop_bit 56 v AND 0x00000000000000FF)"

definition htobe16 :: "u16 \<Rightarrow> u16" where "htobe16 v = (if is_little_endian then swap16 v else v)"
definition htobe32 :: "u32 \<Rightarrow> u32" where "htobe32 v = (if is_little_endian then swap32 v else v)"
definition htobe64 :: "u64 \<Rightarrow> u64" where "htobe64 v = (if is_little_endian then swap64 v else v)"
definition htole16 :: "u16 \<Rightarrow> u16" where "htole16 v = (if is_little_endian then v else swap16 v)"
definition htole32 :: "u32 \<Rightarrow> u32" where "htole32 v = (if is_little_endian then v else swap32 v)"
definition htole64 :: "u64 \<Rightarrow> u64" where "htole64 v = (if is_little_endian then v else swap64 v)"
definition be16toh :: "u16 \<Rightarrow> u16" where "be16toh v = htobe16 v"
definition be32toh :: "u32 \<Rightarrow> u32" where "be32toh v = htobe32 v"
definition be64toh :: "u64 \<Rightarrow> u64" where "be64toh v = htobe64 v"
definition le16toh :: "u16 \<Rightarrow> u16" where "le16toh v = htole16 v"
definition le32toh :: "u32 \<Rightarrow> u32" where "le32toh v = htole32 v"
definition le64toh :: "u64 \<Rightarrow> u64" where "le64toh v = htole64 v"

lemma little_endian [simp]: is_little_endian
  by (simp add: is_little_endian_def to_le_def upt_conv_Cons)

text \<open>The bytes of a 16-bit field of a structure.\<close>

abbreviation field16 :: "u16 \<Rightarrow> byte list" where "field16 v \<equiv> to_le 2 v"

lemma swap16_swap16 [simp]: "swap16 (swap16 v) = v"
proof (rule bit_word_eqI)
  fix j assume "j < LENGTH(16)"
  then show "bit (swap16 (swap16 v)) j = bit v j"
    using bit_imp_le_length [of v "8 + (8 + j)"]
    by (cases "j < 8") (auto simp: swap16_def bit_or_iff bit_push_bit_iff bit_drop_bit_eq)
qed

text \<open>A big-endian field holds its high byte first.\<close>

lemma field16_be: "field16 (htobe16 v) = [ucast (drop_bit 8 v), ucast v]"
proof -
  have "(ucast (swap16 v) :: byte) = ucast (drop_bit 8 v)"
  proof (rule bit_word_eqI)
    fix j assume "j < LENGTH(8)"
    then show "bit (ucast (swap16 v) :: byte) j = bit (ucast (drop_bit 8 v) :: byte) j"
      by (simp add: swap16_def bit_ucast_iff bit_or_iff bit_push_bit_iff bit_drop_bit_eq)
  qed
  moreover have "(ucast (drop_bit 8 (swap16 v)) :: byte) = ucast v"
  proof (rule bit_word_eqI)
    fix j assume "j < LENGTH(8)"
    then show "bit (ucast (drop_bit 8 (swap16 v)) :: byte) j = bit (ucast v :: byte) j"
      using bit_imp_le_length [of v "8 + (8 + j)"]
      by (auto simp: swap16_def bit_ucast_iff bit_or_iff bit_push_bit_iff bit_drop_bit_eq)
  qed
  ultimately show ?thesis by (simp add: htobe16_def to_le_def upt_conv_Cons)
qed

section \<open>ethernet.c\<close>

definition PACKET_MAX_SIZE :: nat where "PACKET_MAX_SIZE = 1500"
definition ETH_FRAME_MIN_SIZE :: nat where "ETH_FRAME_MIN_SIZE = 60"
definition MAC_ADDR_SIZE :: nat where "MAC_ADDR_SIZE = 6"
definition PTYPE_IPV4 :: u16 where "PTYPE_IPV4 = 0x0800"
definition PTYPE_ARP :: u16 where "PTYPE_ARP = 0x0806"

text \<open>The zeroed padding is always \<open>ETH_FRAME_MIN_SIZE\<close> bytes, wherever the frame ends.\<close>

definition encapsulate_ethernet :: "byte list \<Rightarrow> byte list \<Rightarrow> byte list \<Rightarrow> u16 \<Rightarrow> byte list option" where
  "encapsulate_ethernet packet hwdst hwsrc type =
     (let eth_header = take MAC_ADDR_SIZE hwdst @ take MAC_ADDR_SIZE hwsrc @ field16 (htobe16 type);
          frame = eth_header @ packet
      in if PACKET_MAX_SIZE < length frame + ETH_FRAME_MIN_SIZE then None
         else Some (frame @ replicate (ETH_FRAME_MIN_SIZE - length frame) 0))"

section \<open>ipv4.c\<close>

definition IPV4_ADDR_SIZE :: nat where "IPV4_ADDR_SIZE = 4"
definition IPV4_TTL_DEFAULT :: byte where "IPV4_TTL_DEFAULT = 0x40"
definition IPV4_PROTOCOL_UDP :: byte where "IPV4_PROTOCOL_UDP = 17"

definition fold_carry :: "u32 \<Rightarrow> u32" where
  "fold_carry acc = (if acc > 0xFFFF then (acc AND 0xFFFF) + drop_bit 16 acc else acc)"

text \<open>The sum over 16-bit words in memory order; a last odd byte is added alone.\<close>

fun checksum_from :: "u32 \<Rightarrow> byte list \<Rightarrow> u32" where
  "checksum_from acc [] = acc"
| "checksum_from acc [b] = fold_carry (acc + ucast b)"
| "checksum_from acc (a # b # r) = checksum_from (fold_carry (acc + ucast (of_le [a, b] :: u16))) r"

definition ipv4_checksum :: "byte list \<Rightarrow> u16" where
  "ipv4_checksum vdata = ucast (NOT (checksum_from 0 vdata))"

text \<open>The header with a given value in the checksum field.\<close>

definition ipv4_header :: "nat \<Rightarrow> byte \<Rightarrow> u16 \<Rightarrow> byte list \<Rightarrow> byte list \<Rightarrow> byte list" where
  "ipv4_header len protocol checksum src_ip dst_ip =
     [push_bit 4 4 OR 20 div 4, 0] @ field16 (htobe16 (of_nat (20 + len))) @ field16 (htobe16 0)
     @ field16 (htobe16 (push_bit 13 2)) @ [IPV4_TTL_DEFAULT, protocol] @ field16 checksum
     @ take IPV4_ADDR_SIZE src_ip @ take IPV4_ADDR_SIZE dst_ip"

definition encapsulate_ipv4 :: "byte list \<Rightarrow> byte \<Rightarrow> byte list \<Rightarrow> byte list \<Rightarrow> byte list option" where
  "encapsulate_ipv4 packet protocol src_ip dst_ip =
     (let header = ipv4_header (length packet) protocol (htobe16 0) src_ip dst_ip;
          header = ipv4_header (length packet) protocol (htobe16 (ipv4_checksum header)) src_ip dst_ip
      in if PACKET_MAX_SIZE < length header + length packet then None else Some (header @ packet))"

section \<open>udp.c\<close>

text \<open>The length is increased before the payload is moved, so that eight bytes too many are moved.\<close>

definition encapsulate_udp :: "byte list \<Rightarrow> u16 \<Rightarrow> u16 \<Rightarrow> byte list option" where
  "encapsulate_udp packet src_port dst_port =
     (let len = length packet + 8;
          udp_header = field16 (be16toh src_port) @ field16 (be16toh dst_port) @ field16 (be16toh (of_nat len)) @ field16 (be16toh 0)
      in if PACKET_MAX_SIZE < 8 + len then None else Some (udp_header @ packet))"

section \<open>The header checksum\<close>

text \<open>The words of a header as numbers.\<close>

fun words :: "byte list \<Rightarrow> nat list" where
  "words (a # b # r) = (unat a + 256 * unat b) # words r"
| "words _ = []"

text \<open>Addition with end-around carry.\<close>

definition oc_add :: "nat \<Rightarrow> nat \<Rightarrow> nat" where
  "oc_add s w = (if s + w > 65535 then s + w - 65535 else s + w)"

lemma unat_fold_carry:
  fixes s w :: u32
  assumes "unat s \<le> 65535" "unat w \<le> 65535"
  shows "unat (fold_carry (s + w)) = oc_add (unat s) (unat w)"
proof -
  let ?t = "unat s + unat w"
  have t: "unat (s + w) = ?t" using assms by (subst unat_word_ariths) simp
  show ?thesis
  proof (cases "?t > 65535")
    case True
    then have gt: "s + w > 0xFFFF" using t by (simp add: word_less_nat_alt)
    have a: "unat ((s + w) AND 0xFFFF) = ?t mod 65536"
    proof -
      have "(s + w) AND 0xFFFF = take_bit 16 (s + w)" by (simp add: take_bit_eq_mask mask_eq_exp_minus_1)
      then show ?thesis using t by (simp add: take_bit_eq_mod unat_mod)
    qed
    have d: "unat (drop_bit 16 (s + w)) = ?t div 65536"
      using t by (simp add: drop_bit_eq_div unat_div)
    have m: "?t mod 65536 = ?t - 65536" "?t div 65536 = 1"
      using True assms by (auto simp: mod_if div_if)
    have "unat (((s + w) AND 0xFFFF) + drop_bit 16 (s + w)) = ?t - 65536 + 1"
      unfolding unat_word_ariths a d m using assms by simp
    then show ?thesis using gt True by (simp add: fold_carry_def oc_add_def)
  next
    case False
    then have "\<not> s + w > 0xFFFF" using t by (simp add: word_less_nat_alt)
    then show ?thesis using False t by (simp add: fold_carry_def oc_add_def)
  qed
qed

lemma unat_word16: "unat (ucast (of_le [a, b] :: u16) :: u32) = unat a + 256 * unat b"
proof -
  have "unat (of_le [a, b] :: u16) = unat a + 256 * unat b"
  proof -
    have "(ucast a :: u16) AND push_bit 8 (ucast b) = 0"
      by (rule bit_word_eqI) (auto simp: bit_and_iff bit_push_bit_iff bit_ucast_iff dest: bit_imp_le_length)
    then have "(ucast a :: u16) OR push_bit 8 (ucast b) = ucast a + push_bit 8 (ucast b)"
      using word_plus_and_or [of "ucast a :: u16" "push_bit 8 (ucast b)"] by simp
    then have "(of_le [a, b] :: u16) = ucast a + push_bit 8 (ucast b)" by (simp add: of_le_def)
    moreover have "unat a < 256" "unat b < 256" using unsigned_less [of a] unsigned_less [of b] by simp_all
    ultimately show ?thesis
      by (simp add: push_bit_eq_mult unat_word_ariths unsigned_ucast_eq take_bit_nat_eq_self)
  qed
  moreover have "unat (of_le [a, b] :: u16) < 2 ^ 16" using unsigned_less [of "of_le [a, b] :: u16"] by simp
  ultimately show ?thesis by (simp add: unsigned_ucast_eq take_bit_nat_eq_self)
qed

lemma oc_add_le: "s \<le> 65535 \<Longrightarrow> w \<le> 65535 \<Longrightarrow> oc_add s w \<le> 65535"
  by (auto simp: oc_add_def)

lemma words_le: "w \<in> set (words bs) \<Longrightarrow> w \<le> 65535"
proof (induction bs rule: words.induct)
  case (1 a b r)
  have "unat a < 256" "unat b < 256" using unsigned_less [of a] unsigned_less [of b] by simp_all
  then show ?case using 1 by auto
qed simp_all

lemma checksum_from_oc:
  "even (length bs) \<Longrightarrow> unat s \<le> 65535 \<Longrightarrow> unat (checksum_from s bs) = foldl oc_add (unat s) (words bs)"
proof (induction s bs rule: checksum_from.induct)
  case (3 s a b r)
  let ?w = "ucast (of_le [a, b] :: u16) :: u32"
  have w: "unat ?w \<le> 65535"
    using words_le [of "unat a + 256 * unat b" "[a, b]"] unfolding unat_word16 by simp
  have "unat (fold_carry (s + ?w)) = oc_add (unat s) (unat ?w)" by (rule unat_fold_carry [OF 3(3) w])
  then show ?case using 3 oc_add_le [OF 3(3) w] by (simp add: unat_word16)
qed simp_all

lemma oc_sum:
  "s \<le> 65535 \<Longrightarrow> \<forall>w \<in> set ws. w \<le> 65535 \<Longrightarrow>
     foldl oc_add s ws \<le> 65535 \<and> foldl oc_add s ws mod 65535 = (s + sum_list ws) mod 65535
     \<and> (foldl oc_add s ws = 0 \<longleftrightarrow> s + sum_list ws = 0)"
proof (induction ws arbitrary: s)
  case (Cons w ws)
  have le: "oc_add s w \<le> 65535" using Cons.prems by (intro oc_add_le) auto
  have z: "oc_add s w = 0 \<longleftrightarrow> s + w = 0" by (auto simp: oc_add_def)
  have m: "oc_add s w mod 65535 = (s + w) mod 65535"
    by (cases "s + w > 65535") (simp_all add: oc_add_def le_mod_geq)
  have "(oc_add s w + sum_list ws) mod 65535 = (s + w + sum_list ws) mod 65535"
    by (metis m mod_add_left_eq)
  then show ?case using Cons.IH [OF le] Cons.prems z by (auto simp: add.assoc)
qed simp

lemma unat_checksum:
  assumes "even (length bs)"
  shows "unat (ipv4_checksum bs) = 65535 - foldl oc_add 0 (words bs)"
proof -
  let ?s = "checksum_from 0 bs"
  have s: "unat ?s = foldl oc_add 0 (words bs)" using checksum_from_oc [OF assms, of 0] by simp
  have le: "unat ?s \<le> 65535" using oc_sum [of 0 "words bs"] words_le by (auto simp: s)
  have n: "unat (NOT ?s) = 4294967295 - unat ?s"
  proof -
    have "?s \<le> 4294967295" using le by (simp add: word_le_nat_alt)
    then have "unat (4294967295 - ?s) = 4294967295 - unat ?s" by (subst unat_sub) simp_all
    moreover have "NOT ?s = 4294967295 - ?s" by (simp add: not_eq_complement)
    ultimately show ?thesis by simp
  qed
  have "unat (ipv4_checksum bs) = (4294967295 - unat ?s) mod 65536"
    unfolding ipv4_checksum_def unsigned_ucast_eq n [symmetric] by (simp add: take_bit_eq_mod)
  also have "4294967295 - unat ?s = 65535 - unat ?s + 65536 * 65535" using le by simp
  also have "\<dots> mod 65536 = 65535 - unat ?s" by (simp only: mod_mult_self2) simp
  finally show ?thesis unfolding s .
qed

lemma checksum_zero_iff:
  assumes "even (length bs)" "sum_list (words bs) \<noteq> 0"
  shows "ipv4_checksum bs = 0 \<longleftrightarrow> sum_list (words bs) mod 65535 = 0"
proof -
  let ?S = "foldl oc_add 0 (words bs)"
  have S: "?S \<le> 65535" "?S mod 65535 = sum_list (words bs) mod 65535" "?S \<noteq> 0"
    using oc_sum [of 0 "words bs"] words_le assms(2) by auto
  have "ipv4_checksum bs = 0 \<longleftrightarrow> ?S = 65535"
    using unat_checksum [OF assms(1)] S(1) by (simp add: word_unat_eq_iff)
  also have "\<dots> \<longleftrightarrow> ?S mod 65535 = 0" using S(1,3) by (cases "?S = 65535") auto
  finally show ?thesis using S(2) by simp
qed

lemma words_append: "even (length xs) \<Longrightarrow> words (xs @ ys) = words xs @ words ys"
  by (induction xs rule: words.induct) auto

lemma unat_lt_16: "unat (v :: u16) < 2 ^ 16"
  by (rule order_less_le_trans [OF unsigned_less]) simp

lemma words_field16: "words (field16 v) = [unat v]"
proof -
  have "(of_le (to_le 2 v) :: u16) = v" using of_le_to_le [of 2 v] by (simp add: take_bit_word_eq_self)
  moreover have f: "field16 v = [ucast v, ucast (drop_bit 8 v)]" by (simp add: to_le_def upt_conv_Cons)
  ultimately have "(of_le [ucast v, ucast (drop_bit 8 v)] :: u16) = v" by simp
  then have "unat (ucast v :: byte) + 256 * unat (ucast (drop_bit 8 v) :: byte) = unat (ucast v :: u32)"
    using unat_word16 [of "ucast v" "ucast (drop_bit 8 v)"] by simp
  also have "\<dots> = unat v" using unat_lt_16 [of v] by (simp add: unsigned_ucast_eq take_bit_nat_eq_self)
  finally show ?thesis by (simp add: f)
qed

text \<open>Exchanging the bytes of a number: the difference is a multiple of 255 of the difference of the bytes.\<close>

lemma unat_swap16:
  "unat v = unat (ucast v :: byte) + 256 * unat (ucast (drop_bit 8 v) :: byte)"
  "unat (htobe16 v) = unat (ucast (drop_bit 8 v) :: byte) + 256 * unat (ucast v :: byte)"
proof -
  show "unat v = unat (ucast v :: byte) + 256 * unat (ucast (drop_bit 8 v) :: byte)"
    using words_field16 [of v] by (simp add: to_le_def upt_conv_Cons)
  show "unat (htobe16 v) = unat (ucast (drop_bit 8 v) :: byte) + 256 * unat (ucast v :: byte)"
    using words_field16 [of "htobe16 v"] unfolding field16_be by simp
qed

lemma swapped_sum:
  fixes a b S :: nat
  assumes "a < 256" "b < 256" "S + (a + 256 * b) = 65535 * k"
  shows "(S + (b + 256 * a)) mod 65535 = 0 \<longleftrightarrow> a = b"
proof
  assume "(S + (b + 256 * a)) mod 65535 = 0"
  then obtain j where "S + (b + 256 * a) = 65535 * j" by (auto simp: mod_eq_0_iff_dvd elim: dvdE)
  then have "int (65535 * j) - int (65535 * k) = 255 * (int a - int b)" using assms(3) by (simp add: algebra_simps)
  then have "257 * (int j - int k) = int a - int b" by (simp add: algebra_simps)
  moreover have "\<bar>int a - int b\<bar> < 257" using assms(1,2) by simp
  ultimately show "a = b"
    by (cases "int j - int k = 0") (auto dest: zdvd_imp_le)
next
  assume "a = b"
  then show "(S + (b + 256 * a)) mod 65535 = 0" using assms(3) by simp
qed

text \<open>The header around the checksum field.\<close>

definition ipv4_front :: "nat \<Rightarrow> byte \<Rightarrow> byte list" where
  "ipv4_front len protocol =
     [push_bit 4 4 OR 20 div 4, 0] @ field16 (htobe16 (of_nat (20 + len))) @ field16 (htobe16 0)
     @ field16 (htobe16 (push_bit 13 2)) @ [IPV4_TTL_DEFAULT, protocol]"

lemma header_words:
  assumes "length src = 4" "length dst = 4"
  shows "sum_list (words (ipv4_header len protocol c src dst)) =
      sum_list (words (ipv4_front len protocol)) + sum_list (words (src @ dst)) + unat c"
    "length (ipv4_header len protocol c src dst) = 20" "sum_list (words (ipv4_front len protocol)) \<noteq> 0"
proof -
  have h: "ipv4_header len protocol c src dst = ipv4_front len protocol @ field16 c @ (src @ dst)"
    using assms by (simp add: ipv4_header_def ipv4_front_def IPV4_ADDR_SIZE_def)
  have len: "length (ipv4_front len protocol) = 10" by (simp add: ipv4_front_def)
  show "sum_list (words (ipv4_header len protocol c src dst)) =
      sum_list (words (ipv4_front len protocol)) + sum_list (words (src @ dst)) + unat c"
    unfolding h using len by (simp add: words_append words_field16)
  show "length (ipv4_header len protocol c src dst) = 20" unfolding h using len assms by simp
  show "sum_list (words (ipv4_front len protocol)) \<noteq> 0" by (simp add: ipv4_front_def)
qed



end
