(* ===== verification/Nic.thy ===== *)
theory Nic
  imports NetProto Pic Pci LibcHeap LibcString LibcStdlib
begin

text \<open>
  The network card driver \<open>kernel/net/rtl8139.c\<close>, address resolution \<open>arp.c\<close> and the name query
  \<open>dns.c\<close>.  The receive buffer is memory the card writes; the values the transmit status register
  will show are a list; the packets handed to the card are recorded with the transmit register
  used.  \<open>None\<close> is a write behind a packet buffer or a wait that does not end.
\<close>

section \<open>State\<close>

record arp_entry =
  aip :: "byte list"
  amac :: "byte list"
  timestamp :: u64

record nic =
  rx_buf :: u64
  ioaddr :: u16
  trrc :: nat
  mac :: "byte list"
  ipv4 :: "byte list"

record net =
  g_nic :: nic
  rx_mem :: mem
  rx_offset :: u32
  receive_cnt :: nat
  arp_cache :: "arp_entry list"
  clock :: u64
  transmit_status :: "u32 list"
  sent :: "(nat \<times> byte list) list"
  port_writes :: "(u16 \<times> u32) list"
  io :: ports

definition out_port :: "net \<Rightarrow> u16 \<Rightarrow> u32 \<Rightarrow> net" where
  "out_port n port v = n\<lparr>port_writes := port_writes n @ [(port, v)]\<rparr>"

section \<open>rtl8139.c: sending\<close>

fun wait_transmit_ok :: "u32 list \<Rightarrow> u32 list option" where
  "wait_transmit_ok [] = None"
| "wait_transmit_ok (s # ss) = (if s AND push_bit 15 1 \<noteq> 0 then Some ss else wait_transmit_ok ss)"

definition send_packet :: "net \<Rightarrow> byte list \<Rightarrow> net option" where
  "send_packet n packet =
     do { ss \<leftarrow> wait_transmit_ok (transmit_status n);
          Some (n\<lparr>transmit_status := ss, sent := sent n @ [(trrc (g_nic n), packet)],
                  g_nic := (g_nic n)\<lparr>trrc := (trrc (g_nic n) + 1) mod 4\<rparr>\<rparr>) }"

section \<open>arp.c\<close>

definition ARP_CACHE_SIZE :: nat where "ARP_CACHE_SIZE = 16"
definition ARP_CACHE_TTL :: u64 where "ARP_CACHE_TTL = 30000"
definition ARP_CACHE_CLEANUP_INTERVAL :: u64 where "ARP_CACHE_CLEANUP_INTERVAL = 10000"
definition ARP_OPER_REQUEST :: u16 where "ARP_OPER_REQUEST = 1"
definition ARP_OPER_REPLY :: u16 where "ARP_OPER_REPLY = 2"

definition no_entry :: arp_entry where
  "no_entry = \<lparr>aip = [0, 0, 0, 0], amac = [0, 0, 0, 0, 0, 0], timestamp = 0\<rparr>"

fun store_entry :: "arp_entry list \<Rightarrow> arp_entry \<Rightarrow> arp_entry list" where
  "store_entry [] x = []"
| "store_entry (e # es) x = (if aip e = aip x \<or> aip e ! 0 = 0 then x # es else e # store_entry es x)"

definition cache_arp_entry :: "net \<Rightarrow> byte list \<Rightarrow> byte list \<Rightarrow> net" where
  "cache_arp_entry n ip m =
     n\<lparr>arp_cache := store_entry (arp_cache n) \<lparr>aip = ip, amac = m, timestamp = clock n\<rparr>\<rparr>"

definition clear_arp_cache :: "net \<Rightarrow> net" where
  "clear_arp_cache n = n\<lparr>arp_cache := replicate ARP_CACHE_SIZE no_entry\<rparr>"

definition cleanup_arp_cache :: "net \<Rightarrow> net" where
  "cleanup_arp_cache n =
     n\<lparr>arp_cache := map (\<lambda>e. if aip e ! 0 \<noteq> 0 \<and> clock n - timestamp e > ARP_CACHE_TTL then no_entry else e) (arp_cache n)\<rparr>"

definition arp_cache_maintenance :: "net \<Rightarrow> u64 \<Rightarrow> net \<times> u64" where
  "arp_cache_maintenance n last_cleanup =
     (if clock n - last_cleanup > ARP_CACHE_CLEANUP_INTERVAL then (cleanup_arp_cache n, clock n) else (n, last_cleanup))"

fun find_mac :: "arp_entry list \<Rightarrow> byte list \<Rightarrow> byte list option" where
  "find_mac [] ip = None"
| "find_mac (e # es) ip = (if aip e = ip then Some (amac e) else find_mac es ip)"

definition find_mac_in_cache :: "net \<Rightarrow> byte list \<Rightarrow> byte list option" where
  "find_mac_in_cache n ip = find_mac (arp_cache n) ip"

text \<open>
  The wait looks at the cache every 10 ms until the time is over; \<open>arrive t\<close> is what interrupts do
  to the state before the look after \<open>t\<close> milliseconds.
\<close>

definition ARP_WAIT_TIMEOUT :: nat where "ARP_WAIT_TIMEOUT = 3000"
definition RTL8139_INTERRUPT_LINE :: byte where "RTL8139_INTERRUPT_LINE = 11"

function wait_looks :: "(nat \<Rightarrow> net \<Rightarrow> net) \<Rightarrow> net \<Rightarrow> nat \<Rightarrow> byte list \<Rightarrow> net \<times> byte list option" where
  "wait_looks arrive n elapsed_time ip =
     (if elapsed_time < ARP_WAIT_TIMEOUT
      then let n = arrive elapsed_time n; found = find_mac_in_cache n ip;
               n = n\<lparr>io := irq_clear_mask (io n) RTL8139_INTERRUPT_LINE\<rparr>
           in case found of
                Some m \<Rightarrow> (n, Some m)
              | None \<Rightarrow> wait_looks arrive n (elapsed_time + 10) ip
      else (n, None))"
  by pat_completeness auto
termination
  by (relation "measure (\<lambda>(_, _, t, _). ARP_WAIT_TIMEOUT - t)") auto

declare wait_looks.simps [simp del]

definition wait_for_arp_entry :: "(nat \<Rightarrow> net \<Rightarrow> net) \<Rightarrow> net \<Rightarrow> byte list \<Rightarrow> net \<times> byte list option" where
  "wait_for_arp_entry arrive n ip = wait_looks arrive n 0 ip"

definition arp_packet :: "u16 \<Rightarrow> byte list \<Rightarrow> byte list \<Rightarrow> byte list \<Rightarrow> byte list \<Rightarrow> byte list" where
  "arp_packet oper sha spa tha tpa =
     field16 (htobe16 1) @ field16 (htobe16 PTYPE_IPV4) @ [6, 4] @ field16 (htobe16 oper)
     @ take 6 sha @ take 4 spa @ take 6 tha @ take 4 tpa"

definition send_arp :: "net \<Rightarrow> u16 \<Rightarrow> byte list \<Rightarrow> byte list \<Rightarrow> byte list \<Rightarrow> byte list \<Rightarrow> net option" where
  "send_arp n oper sha spa tha tpa =
     (let packet = arp_packet oper sha spa tha tpa in
      do { packet \<leftarrow> (if oper = ARP_OPER_REQUEST then encapsulate_ethernet packet (replicate 6 0xff) sha PTYPE_ARP
                     else if oper = ARP_OPER_REPLY then encapsulate_ethernet packet tha sha PTYPE_ARP
                     else Some packet);
           send_packet n packet })"

definition get_mac :: "(nat \<Rightarrow> net \<Rightarrow> net) \<Rightarrow> net \<Rightarrow> byte list \<Rightarrow> (net \<times> byte list option) option" where
  "get_mac arrive n ip =
     do { n \<leftarrow> send_arp n ARP_OPER_REQUEST (mac (g_nic n)) (ipv4 (g_nic n)) (replicate 6 0) ip;
          Some (wait_for_arp_entry arrive n ip) }"

text \<open>
  The comparison with the card's address takes six bytes where an address has four: two bytes
  behind it in the packet, and the two bytes of padding at the end of \<open>g_nic\<close>, which are zero.
\<close>

definition addressed :: "net \<Rightarrow> u64 \<Rightarrow> bool" where
  "addressed n field \<longleftrightarrow> bytes_at (rx_mem n) field 6 = ipv4 (g_nic n) @ [0, 0]"

definition handle_packet_arp :: "net \<Rightarrow> u64 \<Rightarrow> net option" where
  "handle_packet_arp n dat =
     (let arp = dat + 14;
          oper = htobe16 (of_le (bytes_at (rx_mem n) (arp + 6) 2));
          sha = bytes_at (rx_mem n) (arp + 8) 6; spa = bytes_at (rx_mem n) (arp + 14) 4
      in if oper = ARP_OPER_REPLY then Some (cache_arp_entry n spa sha)
         else if oper = ARP_OPER_REQUEST then
           (if addressed n (arp + 24) \<or> addressed n (arp + 14)
            then send_arp n ARP_OPER_REPLY (mac (g_nic n)) (ipv4 (g_nic n)) sha spa else Some n)
         else Some n)"

section \<open>rtl8139.c: receiving\<close>

text \<open>The type field is converted in place.\<close>

definition handle_packet :: "net \<Rightarrow> u64 \<Rightarrow> int \<Rightarrow> net option" where
  "handle_packet n dat len =
     (if len \<le> 0 then Some n
      else let ptype = be16toh (of_le (bytes_at (rx_mem n) (dat + 12) 2));
               n = n\<lparr>rx_mem := put_bytes (rx_mem n) (dat + 12) (field16 ptype)\<rparr>
           in if ptype = PTYPE_ARP then handle_packet_arp n dat else Some n)"

definition RX_BUFFER_SIZE :: u32 where "RX_BUFFER_SIZE = 8 * 1024"

definition receive_packet :: "net \<Rightarrow> net option" where
  "receive_packet n =
     (let header = ucast (ucast (rx_buf (g_nic n)) + rx_offset n) :: u64;
          len = sint (of_le (bytes_at (rx_mem n) (header + 2) 2) - 4 :: u16);
          dat = header + 4
      in if len \<le> 4 then Some n
         else do { n \<leftarrow> handle_packet n dat len;
                   let off = (rx_offset n + word_of_int len + (8 + 3)) AND NOT 3;
                   let off = (if off \<ge> RX_BUFFER_SIZE then off - RX_BUFFER_SIZE else off);
                   Some (out_port (n\<lparr>rx_offset := off\<rparr>) (ioaddr (g_nic n) + 0x38) ((off - 16) AND 0xFFFF)) })"

definition ROK :: u16 where "ROK = 1"
definition RTL8139_ALLOW_ROK_TOK :: u32 where "RTL8139_ALLOW_ROK_TOK = 4 + 1"

definition rtl8139_handler :: "net \<Rightarrow> u16 \<Rightarrow> net option" where
  "rtl8139_handler n status =
     (let n = out_port n (ioaddr (g_nic n) + 0x3E) RTL8139_ALLOW_ROK_TOK
      in if status AND ROK \<noteq> 0 then receive_packet (n\<lparr>receive_cnt := receive_cnt n + 1\<rparr>) else Some n)"

text \<open>\<open>idr\<close> is what the card shows in its first six registers.\<close>

definition rtl8139_read_self_mac :: "net \<Rightarrow> (nat \<Rightarrow> byte) \<Rightarrow> net" where
  "rtl8139_read_self_mac n idr = n\<lparr>g_nic := (g_nic n)\<lparr>mac := map idr [0..<6]\<rparr>\<rparr>"

fun wait_reset :: "byte list \<Rightarrow> byte list option" where
  "wait_reset [] = None"
| "wait_reset (c # cs) = (if c AND 0x10 \<noteq> 0 then wait_reset cs else Some cs)"

definition RTL8139_DEVICE_ID :: u16 where "RTL8139_DEVICE_ID = 0x8139"
definition RX_BUFFER_LEN :: u64 where "RX_BUFFER_LEN = 8 * 1024 + 4 * 1516"

text \<open>\<open>cmds\<close> is what the command register shows while the card resets.\<close>

definition rtl8139_init ::
  "pci \<Rightarrow> heap_mem \<Rightarrow> net \<Rightarrow> (nat \<Rightarrow> byte) \<Rightarrow> byte list \<Rightarrow> (pci \<times> heap_mem \<times> net) option" where
  "rtl8139_init p h n idr cmds =
     (case filter (\<lambda>d. deviceId d = RTL8139_DEVICE_ID) (list_pci_devices p) of
        [] \<Rightarrow> Some (p, h, n)
      | ds \<Rightarrow>
        let d = last ds;
            (_, p) = run_state (pci_config_write_word (bus d) (pslot d) (pfunc d) 0x4 (pcommand d OR 4)) p;
            (bar0, p) = run_state (get_bar0 (bus d) (pslot d) (pfunc d)) p;
            port = (ucast bar0 :: u16);
            port = (if port AND 1 \<noteq> 0 then port - 1 else port);
            n = n\<lparr>g_nic := (g_nic n)\<lparr>ioaddr := port\<rparr>\<rparr>;
            n = out_port (out_port n (port + 0x52) 0) (port + 0x37) 0x10
        in do { _ \<leftarrow> wait_reset cmds;
                (h, buf) \<leftarrow> malloc h RX_BUFFER_LEN;
                let n = n\<lparr>g_nic := (g_nic n)\<lparr>rx_buf := buf\<rparr>\<rparr>;
                let n = out_port n (port + 0x30) (ucast buf);
                let n = out_port n (port + 0x3C) RTL8139_ALLOW_ROK_TOK;
                let (_, p) = run_state (pci_config_write_word (bus d) (pslot d) (pfunc d) 0x3C (push_bit 8 11 + 11)) p;
                let n = out_port n (port + 0x44) (0xf OR push_bit 7 1);
                let n = out_port n (port + 0x37) 0xC;
                let n = clear_arp_cache (rtl8139_read_self_mac n idr);
                Some (p, h, n\<lparr>io := irq_clear_mask (io n) RTL8139_INTERRUPT_LINE\<rparr>) })"

section \<open>dns.c\<close>

text \<open>The labels of the name as \<open>strtok\<close> cuts them, each behind its length.\<close>

partial_function (option) dns_labels :: "mem \<Rightarrow> u64 \<Rightarrow> u64 \<Rightarrow> u64 \<Rightarrow> byte list \<Rightarrow> (byte list \<times> mem \<times> u64) option" where
  "dns_labels m start str delim packet =
     do { (label, m', start') \<leftarrow> strtok m start str delim;
          if label = 0 then Some (packet, m', start')
          else do { len \<leftarrow> strlen m' label;
                    if PACKET_MAX_SIZE < length packet + 1 + unat len then None
                    else dns_labels m' start' 0 delim (packet @ ucast len # bytes_at m' label (unat len)) } }"

definition dns_query :: "u32 \<Rightarrow> mem \<Rightarrow> u64 \<Rightarrow> u64 \<Rightarrow> u64 \<Rightarrow> (byte list \<times> mem \<times> u64) option" where
  "dns_query random m start name delim =
     (let dns_header = field16 (htobe16 (ucast (random mod word_of_int (pow 2 16 - 1)))) @ field16 (htobe16 (push_bit 8 1))
            @ field16 (htobe16 1) @ field16 0 @ field16 0 @ field16 0
      in do { (packet, m, start) \<leftarrow> dns_labels m start name delim dns_header;
              let packet = packet @ [0] @ field16 (htobe16 1) @ field16 (htobe16 1);
              if PACKET_MAX_SIZE < length packet then None else Some (packet, m, start) })"

text \<open>
  The query goes to the address of the gateway with a fixed hardware address, whatever the
  address resolution finds.  \<open>arrive\<close> is what arrives during the wait for the reply.
\<close>

definition send_dns ::
  "net \<Rightarrow> u32 \<Rightarrow> mem \<Rightarrow> u64 \<Rightarrow> u64 \<Rightarrow> u64 \<Rightarrow> (nat \<Rightarrow> net \<Rightarrow> net) \<Rightarrow> (net \<times> u32 \<times> mem \<times> u64) option" where
  "send_dns n seed m start name delim arrive =
     do { let (seed, random) = rand seed;
          (packet, m, start) \<leftarrow> dns_query random m start name delim;
          packet \<leftarrow> encapsulate_udp packet 1234 53;
          let n = n\<lparr>g_nic := (g_nic n)\<lparr>ipv4 := [10, 0, 0, 24]\<rparr>\<rparr>;
          packet \<leftarrow> encapsulate_ipv4 packet IPV4_PROTOCOL_UDP (ipv4 (g_nic n)) [10, 0, 0, 138];
          (n, _) \<leftarrow> get_mac arrive n [10, 0, 0, 138];
          packet \<leftarrow> encapsulate_ethernet packet [0x00, 0xb8, 0xc2, 0xbe, 0x03, 0x6d] (mac (g_nic n)) PTYPE_IPV4;
          n \<leftarrow> send_packet n packet;
          Some (n, seed, m, start) }"

section \<open>The cache\<close>

lemma find_mac_store_same:
  "\<exists>e \<in> set es. aip e = aip x \<or> aip e ! 0 = 0 \<Longrightarrow> find_mac (store_entry es x) (aip x) = Some (amac x)"
  by (induction es) auto

lemma find_mac_store_other:
  "ip \<noteq> aip x \<Longrightarrow> ip ! 0 \<noteq> 0 \<Longrightarrow> find_mac (store_entry es x) ip = find_mac es ip"
  by (induction es) auto

lemma find_mac_empty: "ip ! 0 \<noteq> 0 \<Longrightarrow> find_mac (replicate n no_entry) ip = None"
  by (induction n) (auto simp: no_entry_def)

text \<open>When neither an entry of the address nor an empty one is left, the reply is dropped.\<close>

lemma store_entry_full:
  "\<forall>e \<in> set es. aip e \<noteq> aip x \<and> aip e ! 0 \<noteq> 0 \<Longrightarrow> store_entry es x = es"
  by (induction es) auto

text \<open>An entry is dropped when its age exceeds the limit; the others stay.\<close>

lemma cleanup_keeps:
  "ip ! 0 \<noteq> 0 \<Longrightarrow> \<forall>e \<in> set (arp_cache n). aip e = ip \<longrightarrow> clock n - timestamp e \<le> ARP_CACHE_TTL \<Longrightarrow>
     find_mac_in_cache (cleanup_arp_cache n) ip = find_mac_in_cache n ip"
proof -
  have "ip ! 0 \<noteq> 0 \<Longrightarrow> \<forall>e \<in> set es. aip e = ip \<longrightarrow> c - timestamp e \<le> ARP_CACHE_TTL \<Longrightarrow>
      find_mac (map (\<lambda>e. if aip e ! 0 \<noteq> 0 \<and> c - timestamp e > ARP_CACHE_TTL then no_entry else e) es) ip = find_mac es ip" for es c
    by (induction es) (auto simp: no_entry_def)
  then show "ip ! 0 \<noteq> 0 \<Longrightarrow> \<forall>e \<in> set (arp_cache n). aip e = ip \<longrightarrow> clock n - timestamp e \<le> ARP_CACHE_TTL \<Longrightarrow>
      find_mac_in_cache (cleanup_arp_cache n) ip = find_mac_in_cache n ip"
    by (simp add: find_mac_in_cache_def cleanup_arp_cache_def)
qed

section \<open>Address resolution between two hosts\<close>

text \<open>The frame of an address resolution packet, and where its fields are in memory.\<close>

definition arp_frame :: "u16 \<Rightarrow> byte list \<Rightarrow> byte list \<Rightarrow> byte list \<Rightarrow> byte list \<Rightarrow> byte list \<Rightarrow> byte list" where
  "arp_frame oper dst sha spa tha tpa =
     dst @ sha @ field16 (htobe16 PTYPE_ARP) @ arp_packet oper sha spa tha tpa @ replicate 18 0"

lemma length_arp_packet:
  "length sha = 6 \<Longrightarrow> length spa = 4 \<Longrightarrow> length tha = 6 \<Longrightarrow> length tpa = 4 \<Longrightarrow> length (arp_packet oper sha spa tha tpa) = 28"
  by (simp add: arp_packet_def)

lemma encapsulate_arp:
  assumes "length dst = 6" "length sha = 6" "length spa = 4" "length tha = 6" "length tpa = 4"
  shows "encapsulate_ethernet (arp_packet oper sha spa tha tpa) dst sha PTYPE_ARP = Some (arp_frame oper dst sha spa tha tpa)"
    "length (arp_frame oper dst sha spa tha tpa) = 60"
  using assms
  by (simp_all add: encapsulate_ethernet_def length_arp_packet arp_frame_def MAC_ADDR_SIZE_def PACKET_MAX_SIZE_def ETH_FRAME_MIN_SIZE_def)

lemma bytes_at_slice: "k + j \<le> n \<Longrightarrow> bytes_at m (p + of_nat k) j = take j (drop k (bytes_at m p n))"
  by (rule nth_equalityI) (auto simp: add.assoc)

lemma arp_frame_fields:
  assumes "length dst = 6" "length sha = 6" "length spa = 4" "length tha = 6" "length tpa = 4"
    and "bytes_at m p 60 = arp_frame oper dst sha spa tha tpa"
  shows "bytes_at m (p + 12) 2 = field16 (htobe16 PTYPE_ARP)" "bytes_at m (p + 20) 2 = field16 (htobe16 oper)"
    "bytes_at m (p + 22) 6 = sha" "bytes_at m (p + 28) 4 = spa" "bytes_at m (p + 38) 6 = tpa @ [0, 0]"
  using bytes_at_slice [of 12 2 60 m p] bytes_at_slice [of 20 2 60 m p] bytes_at_slice [of 22 6 60 m p]
    bytes_at_slice [of 28 4 60 m p] bytes_at_slice [of 38 6 60 m p] assms
  by (simp_all add: arp_frame_def arp_packet_def numeral_2_eq_2)

text \<open>A frame the card has stored at an address.\<close>

definition deliver :: "net \<Rightarrow> u64 \<Rightarrow> byte list \<Rightarrow> net" where
  "deliver n dat f = n\<lparr>rx_mem := put_bytes (rx_mem n) dat f\<rparr>"

lemma htobe16_htobe16 [simp]: "htobe16 (htobe16 v) = v"
  by (simp add: htobe16_def)

lemma of_le_field16 [simp]: "of_le (field16 v) = (v :: u16)"
  using of_le_to_le [of 2 v] by (simp add: take_bit_word_eq_self)

lemma unat_add_numeral: "unat (p :: u64) + 60 \<le> 2 ^ 64 \<Longrightarrow> k < 60 \<Longrightarrow> unat (p + of_nat k) = unat p + k"
  by (rule unat_add_of_nat) simp

text \<open>The conversion of the type field leaves the fields behind it alone.\<close>

lemma fields_behind_type:
  assumes "unat (p :: u64) + 60 \<le> 2 ^ 64" "14 \<le> k" "k + j \<le> 60"
  shows "bytes_at (put_bytes m (p + 12) (field16 v)) (p + of_nat k) j = bytes_at m (p + of_nat k) j"
proof (cases "j = 0")
  case False
  then have "unat (p + of_nat k) = unat p + k" using assms by (intro unat_add_numeral) auto
  moreover have "unat (p + 12) = unat p + 12" using unat_add_numeral [OF assms(1), of 12] by simp
  ultimately show ?thesis using assms by (intro bytes_at_put_other) simp_all
qed simp

lemma arp_opers: "ARP_OPER_REPLY \<noteq> ARP_OPER_REQUEST" "ARP_OPER_REQUEST \<noteq> ARP_OPER_REPLY"
  by (simp_all add: ARP_OPER_REPLY_def ARP_OPER_REQUEST_def)

lemma handle_arp_fields:
  assumes "bytes_at m (dat + 20) 2 = field16 (htobe16 oper)" "bytes_at m (dat + 22) 6 = sha"
    "bytes_at m (dat + 28) 4 = spa" "bytes_at m (dat + 38) 6 = tpa @ [0, 0]"
  shows "handle_packet_arp (n\<lparr>rx_mem := m\<rparr>) dat =
     (if oper = ARP_OPER_REPLY then Some (cache_arp_entry (n\<lparr>rx_mem := m\<rparr>) spa sha)
      else if oper = ARP_OPER_REQUEST \<and> (tpa = ipv4 (g_nic n) \<or> bytes_at m (dat + 28) 6 = ipv4 (g_nic n) @ [0, 0])
      then send_arp (n\<lparr>rx_mem := m\<rparr>) ARP_OPER_REPLY (mac (g_nic n)) (ipv4 (g_nic n)) sha spa
      else Some (n\<lparr>rx_mem := m\<rparr>))"
  using assms by (simp add: Let_def handle_packet_arp_def addressed_def add.assoc arp_opers)

lemma handle_packet_frame:
  assumes "length dst = 6" "length sha = 6" "length spa = 4" "length tha = 6" "length tpa = 4"
    and "unat dat + 60 \<le> 2 ^ 64" "0 < len"
  shows "\<exists>m. handle_packet (deliver n dat (arp_frame oper dst sha spa tha tpa)) dat len =
     (if oper = ARP_OPER_REPLY then Some (cache_arp_entry (n\<lparr>rx_mem := m\<rparr>) spa sha)
      else if oper = ARP_OPER_REQUEST \<and> (tpa = ipv4 (g_nic n) \<or> bytes_at m (dat + 28) 6 = ipv4 (g_nic n) @ [0, 0])
      then send_arp (n\<lparr>rx_mem := m\<rparr>) ARP_OPER_REPLY (mac (g_nic n)) (ipv4 (g_nic n)) sha spa
      else Some (n\<lparr>rx_mem := m\<rparr>))"
proof -
  let ?f = "arp_frame oper dst sha spa tha tpa"
  let ?m = "put_bytes (rx_mem n) dat ?f"
  let ?m' = "put_bytes ?m (dat + 12) (field16 PTYPE_ARP)"
  have "bytes_at ?m dat 60 = ?f"
    using bytes_at_put_bytes [of ?f "rx_mem n" dat] encapsulate_arp(2) [OF assms(1-5), of oper] by simp
  note f = arp_frame_fields [OF assms(1-5) this]
  have keep: "bytes_at ?m' (dat + of_nat k) j = bytes_at ?m (dat + of_nat k) j" if "14 \<le> k" "k + j \<le> 60" for k j
    by (rule fields_behind_type [OF assms(6) that])
  have g: "bytes_at ?m' (dat + 20) 2 = field16 (htobe16 oper)" "bytes_at ?m' (dat + 22) 6 = sha"
    "bytes_at ?m' (dat + 28) 4 = spa" "bytes_at ?m' (dat + 38) 6 = tpa @ [0, 0]"
    using keep [of 20 2] keep [of 22 6] keep [of 28 4] keep [of 38 6] f by simp_all
  have "handle_packet (deliver n dat ?f) dat len = handle_packet_arp (n\<lparr>rx_mem := ?m'\<rparr>) dat"
    using f(1) assms(7) by (simp add: handle_packet_def deliver_def be16toh_def Let_def)
  then show ?thesis using handle_arp_fields [OF g, of n] by auto
qed

lemma send_packet_sent:
  "wait_transmit_ok (transmit_status n) = Some ss \<Longrightarrow>
     send_packet n packet = Some (n\<lparr>transmit_status := ss, sent := sent n @ [(trrc (g_nic n), packet)],
       g_nic := (g_nic n)\<lparr>trrc := (trrc (g_nic n) + 1) mod 4\<rparr>\<rparr>)"
  by (simp add: send_packet_def)

text \<open>The wait finds an entry that arrives in time.\<close>

lemma wait_looks_finds:
  assumes "10 * k < ARP_WAIT_TIMEOUT" "j \<le> k" "find_mac (arp_cache n) ip = None"
    and "\<And>t n. t \<noteq> 10 * k \<Longrightarrow> arrive t n = n"
    and "\<And>i. find_mac_in_cache (arrive (10 * k) (n\<lparr>io := i\<rparr>)) ip = Some m"
    and "\<And>i. sent (arrive (10 * k) (n\<lparr>io := i\<rparr>)) = sent n"
  shows "\<exists>n'. wait_looks arrive n (10 * j) ip = (n', Some m) \<and> sent n' = sent n"
  using assms(2,3,5,6)
proof (induction "k - j" arbitrary: j n)
  case 0
  then have "j = k" by simp
  moreover have "find_mac_in_cache (arrive (10 * k) n) ip = Some m" "sent (arrive (10 * k) n) = sent n"
    using 0(4,5) [of "io n"] by simp_all
  ultimately show ?case using assms(1) by (subst wait_looks.simps) (simp add: Let_def)
next
  case (Suc d)
  let ?n = "n\<lparr>io := irq_clear_mask (io n) RTL8139_INTERRUPT_LINE\<rparr>"
  have "\<exists>n'. wait_looks arrive ?n (10 * Suc j) ip = (n', Some m) \<and> sent n' = sent ?n"
    using Suc.prems Suc.hyps(2) by (intro Suc.hyps(1)) auto
  moreover have lt: "10 * j < ARP_WAIT_TIMEOUT" using Suc.hyps(2) assms(1) by linarith
  have "wait_looks arrive n (10 * j) ip = wait_looks arrive ?n (10 * Suc j) ip"
    using lt Suc.hyps(2) Suc.prems(2) assms(4)
    by (subst wait_looks.simps) (simp add: Let_def find_mac_in_cache_def add.commute)
  ultimately show ?case by simp
qed

lemma send_arp_sent:
  assumes "length sha = 6" "length spa = 4" "length tha = 6" "length tpa = 4"
    and "wait_transmit_ok (transmit_status n) = Some ss" "oper = ARP_OPER_REQUEST \<or> oper = ARP_OPER_REPLY"
  shows "send_arp n oper sha spa tha tpa =
     Some (n\<lparr>transmit_status := ss,
       sent := sent n @ [(trrc (g_nic n), arp_frame oper (if oper = ARP_OPER_REQUEST then replicate 6 0xff else tha) sha spa tha tpa)],
       g_nic := (g_nic n)\<lparr>trrc := (trrc (g_nic n) + 1) mod 4\<rparr>\<rparr>)"
  using assms arp_opers
  by (auto simp: send_arp_def send_packet_sent Let_def encapsulate_arp)

text \<open>
  C33. Two hosts \<open>a\<close> and \<open>b\<close> run the driver.  When the frame \<open>get_mac\<close> sends on \<open>a\<close> for the address of
  \<open>b\<close> is delivered to \<open>b\<close>, \<open>b\<close> answers it, and when the answer is delivered to \<open>a\<close> at any look of
  the wait, \<open>get_mac\<close> returns the hardware address of \<open>b\<close>, provided the cache of \<open>a\<close> has a free entry
  and none for \<open>b\<close>.  The answer depends on the padding of the frame: the code compares two bytes
  more than an address has.
\<close>

theorem arp_resolution:
  assumes "length (mac (g_nic a)) = 6" "length (ipv4 (g_nic a)) = 4" "length (mac (g_nic b)) = 6" "length (ipv4 (g_nic b)) = 4"
    and "wait_transmit_ok (transmit_status a) = Some sa" "wait_transmit_ok (transmit_status b) = Some sb"
    and "unat da + 60 \<le> 2 ^ 64" "unat db + 60 \<le> 2 ^ 64"
    and "find_mac_in_cache a (ipv4 (g_nic b)) = None" "\<exists>e \<in> set (arp_cache a). aip e ! 0 = 0"
    and "10 * k < ARP_WAIT_TIMEOUT"
  shows "\<exists>a' request b' reply.
     sent a' = sent a @ [(trrc (g_nic a), request)]
     \<and> handle_packet (deliver b db request) db 60 = Some b' \<and> sent b' = sent b @ [(trrc (g_nic b), reply)]
     \<and> get_mac (\<lambda>t n. if t = 10 * k then the (handle_packet (deliver n da reply) da 60) else n) a (ipv4 (g_nic b))
       = Some (a', Some (mac (g_nic b)))"
proof -
  let ?A = "g_nic a" and ?B = "g_nic b"
  let ?request = "arp_frame ARP_OPER_REQUEST (replicate 6 0xff) (mac ?A) (ipv4 ?A) (replicate 6 0) (ipv4 ?B)"
  let ?reply = "arp_frame ARP_OPER_REPLY (mac ?A) (mac ?B) (ipv4 ?B) (mac ?A) (ipv4 ?A)"
  let ?arrive = "\<lambda>t n. if t = 10 * k then the (handle_packet (deliver n da ?reply) da 60) else n"
  obtain m where "handle_packet (deliver b db ?request) db 60 =
      send_arp (b\<lparr>rx_mem := m\<rparr>) ARP_OPER_REPLY (mac ?B) (ipv4 ?B) (mac ?A) (ipv4 ?A)"
    using handle_packet_frame [of "replicate 6 0xff" "mac ?A" "ipv4 ?A" "replicate 6 0" "ipv4 ?B" db 60 b ARP_OPER_REQUEST]
      assms arp_opers by auto
  then have "\<exists>b'. handle_packet (deliver b db ?request) db 60 = Some b' \<and> sent b' = sent b @ [(trrc ?B, ?reply)]"
    using send_arp_sent [of "mac ?B" "ipv4 ?B" "mac ?A" "ipv4 ?A" "b\<lparr>rx_mem := m\<rparr>" sb ARP_OPER_REPLY] assms arp_opers by auto
  moreover define a1 where "a1 = a\<lparr>transmit_status := sa, sent := sent a @ [(trrc ?A, ?request)],
      g_nic := ?A\<lparr>trrc := (trrc ?A + 1) mod 4\<rparr>\<rparr>"
  have "send_arp a ARP_OPER_REQUEST (mac ?A) (ipv4 ?A) (replicate 6 0) (ipv4 ?B) = Some a1"
    using send_arp_sent [of "mac ?A" "ipv4 ?A" "replicate 6 0" "ipv4 ?B" a sa ARP_OPER_REQUEST] assms by (simp add: a1_def)
  moreover have cached: "find_mac_in_cache (cache_arp_entry (a1\<lparr>io := i, rx_mem := m\<rparr>) (ipv4 ?B) (mac ?B)) (ipv4 ?B) = Some (mac ?B)
      \<and> sent (cache_arp_entry (a1\<lparr>io := i, rx_mem := m\<rparr>) (ipv4 ?B) (mac ?B)) = sent a1" for i m
    using find_mac_store_same [of "arp_cache a" "\<lparr>aip = ipv4 ?B, amac = mac ?B, timestamp = clock a\<rparr>"] assms(10)
    by (auto simp: find_mac_in_cache_def cache_arp_entry_def a1_def)
  have "find_mac_in_cache (?arrive (10 * k) (a1\<lparr>io := i\<rparr>)) (ipv4 ?B) = Some (mac ?B)
      \<and> sent (?arrive (10 * k) (a1\<lparr>io := i\<rparr>)) = sent a1" for i
  proof -
    obtain m where m: "?arrive (10 * k) (a1\<lparr>io := i\<rparr>) = cache_arp_entry (a1\<lparr>io := i, rx_mem := m\<rparr>) (ipv4 ?B) (mac ?B)"
      using handle_packet_frame [of "mac ?A" "mac ?B" "ipv4 ?B" "mac ?A" "ipv4 ?A" da 60 "a1\<lparr>io := i\<rparr>" ARP_OPER_REPLY]
        assms by auto
    show ?thesis unfolding m by (rule cached)
  qed
  then have "\<exists>a'. wait_looks ?arrive a1 (10 * 0) (ipv4 ?B) = (a', Some (mac ?B)) \<and> sent a' = sent a1"
    using assms(9,11) by (intro wait_looks_finds [where k = k]) (simp_all add: a1_def find_mac_in_cache_def)
  ultimately show ?thesis
    by (auto simp: get_mac_def wait_for_arp_entry_def a1_def)
qed

text \<open>Two hosts after the initialisation of the driver.\<close>

definition host :: "byte list \<Rightarrow> byte list \<Rightarrow> net" where
  "host m ip = \<lparr>g_nic = \<lparr>rx_buf = 0x20000, ioaddr = 0xc000, trrc = 0, mac = m, ipv4 = ip\<rparr>, rx_mem = (\<lambda>_. 0), rx_offset = 0,
     receive_cnt = 0, arp_cache = replicate ARP_CACHE_SIZE no_entry, clock = 0, transmit_status = [0, 0x8000], sent = [],
     port_writes = [], io = \<lparr>pic1 = \<lparr>imr = 0, vector = 0x20, cascade = 4, chip_mode = 1, init_step = 0, eois = 0, irr = 0,
       in_service = 0, read_isr = False\<rparr>, pic2 = \<lparr>imr = 0, vector = 0x28, cascade = 2, chip_mode = 1, init_step = 0, eois = 0,
       irr = 0, in_service = 0, read_isr = False\<rparr>, pit_low = None, pit_divisor = 1193\<rparr>\<rparr>"

theorem arp_resolution_witness:
  "\<exists>a' request b' reply.
     handle_packet (deliver (host [2, 0, 0, 0, 0, 2] [10, 0, 0, 138]) 0x20004 request) 0x20004 60 = Some b'
     \<and> sent b' = [(0, reply)]
     \<and> get_mac (\<lambda>t n. if t = 10 * 7 then the (handle_packet (deliver n 0x20004 reply) 0x20004 60) else n)
         (host [2, 0, 0, 0, 0, 1] [10, 0, 0, 24]) [10, 0, 0, 138] = Some (a', Some [2, 0, 0, 0, 0, 2])"
proof -
  have f: "find_mac (replicate ARP_CACHE_SIZE no_entry) [10, 0, 0, 138] = None" by (rule find_mac_empty) simp
  show ?thesis
    using arp_resolution [of "host [2, 0, 0, 0, 0, 1] [10, 0, 0, 24]" "host [2, 0, 0, 0, 0, 2] [10, 0, 0, 138]" "[]" "[]"
      "0x20004" "0x20004" 7] f
    by (fastforce simp: host_def find_mac_in_cache_def ARP_CACHE_SIZE_def no_entry_def ARP_WAIT_TIMEOUT_def)
qed

end
