(* ===== verification/Calculator.thy ===== *)
theory Calculator
  imports LibcString LibcStdio "HOL-Library.Signed_Division"
begin

text \<open>
  The calculator of the shell, \<open>user/shell/bc.c\<close>: a recursive descent evaluator over a line of
  input.  The pointer into the line is the rest of the string behind it; arithmetic is that of
  32-bit \<open>int\<close> values, which wrap.  \<open>None\<close> is the processor's exception for the one quotient that does
  not fit, or waiting for input that does not come.
\<close>

section \<open>bc.c\<close>

record expr_t =
  exp :: "byte list"
  err :: int

definition ERR_NONE :: int where "ERR_NONE = 0"
definition ERR_SYNTAX :: int where "ERR_SYNTAX = 1"
definition ERR_DIVISION_BY_ZERO :: int where "ERR_DIVISION_BY_ZERO = 2"

text \<open>The character the pointer points to: the terminator at the end.\<close>

definition peek :: "byte list \<Rightarrow> byte" where
  "peek s = (case s of [] \<Rightarrow> 0 | c # _ \<Rightarrow> c)"

fun hex_number :: "int \<Rightarrow> byte list \<Rightarrow> int \<times> byte list" where
  "hex_number n [] = (n, [])"
| "hex_number n (c # s) =
     (if isxdigit (sint c)
      then hex_number (wrap32 (wrap32 (n * 16) + (if sint c \<le> 57 then sint c - 48 else tolower (sint c) - 97 + 10))) s
      else (n, c # s))"

fun dec_number :: "int \<Rightarrow> byte list \<Rightarrow> int \<times> byte list" where
  "dec_number n [] = (n, [])"
| "dec_number n (c # s) =
     (if isdigit (sint c) then dec_number (wrap32 (wrap32 (n * 10) + (sint c - 48))) s else (n, c # s))"

definition number :: "expr_t \<Rightarrow> int \<times> expr_t" where
  "number e =
     (let neg = (peek (exp e) = ch (CHR ''-''));
          s = (if neg then tl (exp e) else exp e);
          (n, s) = (if peek s = ch (CHR ''0'') \<and> peek (tl s) = ch (CHR ''x'') then hex_number 0 (drop 2 s) else dec_number 0 s)
      in (if neg then wrap32 (- n) else n, e\<lparr>exp := s\<rparr>))"

definition skip :: "expr_t \<Rightarrow> expr_t" where
  "skip e = e\<lparr>exp := dropWhile (\<lambda>c. c = ch (CHR '' '')) (exp e)\<rparr>"

text \<open>The pointer past the current character.\<close>

definition advance :: "expr_t \<Rightarrow> expr_t" where
  "advance e = e\<lparr>exp := tl (exp e)\<rparr>"

text \<open>The loops of \<open>term\<close> and \<open>eval\<close> carry the result so far.\<close>

function factor :: "expr_t \<Rightarrow> (int \<times> expr_t) option"
  and term_c :: "expr_t \<Rightarrow> (int \<times> expr_t) option"
  and term_loop :: "int \<Rightarrow> expr_t \<Rightarrow> (int \<times> expr_t) option"
  and eval :: "expr_t \<Rightarrow> (int \<times> expr_t) option"
  and eval_loop :: "int \<Rightarrow> expr_t \<Rightarrow> (int \<times> expr_t) option" where
  "factor e =
     (let e = skip e in
      if peek (exp e) = ch (CHR ''('')
      then do { (result, e) \<leftarrow> eval (advance e);
                let e = skip e;
                Some (result, if peek (exp e) = ch (CHR '')'') then advance e else e\<lparr>err := 1\<rparr>) }
      else Some (number e))"
| "term_c e = do { (res, e) \<leftarrow> factor e; term_loop res (skip e) }"
| "term_loop res e =
     (let opr = peek (exp e) in
      if opr = ch (CHR ''*'') \<or> opr = ch (CHR ''/'')
      then do { (num, e) \<leftarrow> factor (advance e);
                if opr = ch (CHR ''*'') then term_loop (wrap32 (res * num)) (skip e)
                else if num = 0 then Some (0, e\<lparr>err := 2\<rparr>)
                else if res = - (2 ^ 31) \<and> num = - 1 then None
                else term_loop (res sdiv num) (skip e) }
      else Some (res, e))"
| "eval e = do { (res, e) \<leftarrow> term_c e; eval_loop res (skip e) }"
| "eval_loop res e =
     (let opr = peek (exp e) in
      if opr = ch (CHR ''+'') \<or> opr = ch (CHR ''-'')
      then do { (num, e) \<leftarrow> term_c (advance e);
                eval_loop (wrap32 (if opr = ch (CHR ''+'') then res + num else res - num)) (skip e) }
      else Some (res, e))"
  by pat_completeness auto


text \<open>No part of the evaluator moves the pointer back.\<close>

lemma hex_number_shorter: "length (snd (hex_number n s)) \<le> length s"
  by (induction n s rule: hex_number.induct) auto

lemma dec_number_shorter: "length (snd (dec_number n s)) \<le> length s"
  by (induction n s rule: dec_number.induct) auto

lemma number_shorter: "length (exp (snd (number e))) \<le> length (exp e)"
  using hex_number_shorter [of 0 "drop 2 (exp e)"] hex_number_shorter [of 0 "drop 2 (tl (exp e))"]
    dec_number_shorter [of 0 "exp e"] dec_number_shorter [of 0 "tl (exp e)"]
  by (auto simp: number_def Let_def split: prod.splits)

lemma skip_shorter: "length (exp (skip e)) \<le> length (exp e)"
  by (simp add: skip_def length_dropWhile_le)

lemma advance_shorter: "peek (exp e) \<noteq> 0 \<Longrightarrow> length (exp (advance e)) < length (exp e)"
  by (cases "exp e") (auto simp: peek_def advance_def)

definition no_longer :: "expr_t \<Rightarrow> (int \<times> expr_t) option \<Rightarrow> bool" where
  "no_longer e r \<longleftrightarrow> (\<forall>v e'. r = Some (v, e') \<longrightarrow> length (exp e') \<le> length (exp e))"

lemma no_longer_None [simp]: "no_longer e None"
  by (simp add: no_longer_def)

lemma no_longer_Some [simp]: "no_longer e (Some (v, e')) \<longleftrightarrow> length (exp e') \<le> length (exp e)"
  by (simp add: no_longer_def)

lemma no_longer_bind:
  assumes "no_longer e r" "\<And>v e'. r = Some (v, e') \<Longrightarrow> no_longer e' (f v e')"
  shows "no_longer e (do { (v, e') \<leftarrow> r; f v e' })"
  using assms by (cases r) (fastforce simp: no_longer_def)+

lemma no_longer_mono: "no_longer e r \<Longrightarrow> length (exp e) \<le> length (exp e') \<Longrightarrow> no_longer e' r"
  by (fastforce simp: no_longer_def)

lemma no_longer_skip: "no_longer (skip e) r \<Longrightarrow> no_longer e r"
  by (rule no_longer_mono [OF _ skip_shorter])

abbreviation parse_dom where "parse_dom \<equiv> factor_term_c_term_loop_eval_eval_loop_dom"

lemma parse_shorter:
  "parse_dom (Inl (Inl e)) \<Longrightarrow> no_longer e (factor e)"
  "parse_dom (Inl (Inr e)) \<Longrightarrow> no_longer e (term_c e)"
  "parse_dom (Inr (Inl (res, e))) \<Longrightarrow> no_longer e (term_loop res e)"
  "parse_dom (Inr (Inr (Inl e))) \<Longrightarrow> no_longer e (eval e)"
  "parse_dom (Inr (Inr (Inr (res, e)))) \<Longrightarrow> no_longer e (eval_loop res e)"
proof (induction e and e and res e and e and res e rule: factor_term_c_term_loop_eval_eval_loop.pinduct)
  case (1 e)
  show ?case
  proof (cases "peek (exp (skip e)) = ch (CHR ''('')")
    case True
    then have "no_longer e (eval (advance (skip e)))"
      using 1(2) [OF refl True] skip_shorter [of e] advance_shorter [of "skip e"] by (auto intro: no_longer_mono)
    moreover have "length (exp (if peek (exp (skip x)) = c then advance (skip x) else (skip x)\<lparr>err := 1\<rparr>)) \<le> length (exp x)" for x c
      using skip_shorter [of x] by (auto simp: advance_def)
    ultimately show ?thesis using True 1(1) by (auto simp: factor.psimps Let_def intro!: no_longer_bind)
  next
    case False
    have "length (exp (snd (number (skip e)))) \<le> length (exp e)"
      using number_shorter [of "skip e"] skip_shorter [of e] by linarith
    then show ?thesis using False 1(1) by (cases "number (skip e)") (simp add: factor.psimps Let_def)
  qed
next
  case (2 e)
  have "no_longer y (term_loop x (skip y))" if "factor e = Some (x, y)" for x y
    using 2(3) [OF that refl] by (rule no_longer_skip)
  then show ?case using no_longer_bind [OF 2(2), of "\<lambda>x y. term_loop x (skip y)"] 2(1) by (simp add: term_c.psimps)
next
  case (3 res e)
  show ?case
  proof (cases "peek (exp e) = ch (CHR ''*'') \<or> peek (exp e) = ch (CHR ''/'')")
    case True
    then have nz: "peek (exp e) \<noteq> 0" by auto
    let ?f = "\<lambda>n y. if peek (exp e) = ch (CHR ''*'') then term_loop (wrap32 (res * n)) (skip y)
      else if n = 0 then Some (0, y\<lparr>err := 2\<rparr>) else if res = - (2 ^ 31) \<and> n = - 1 then None else term_loop (res sdiv n) (skip y)"
    have "no_longer y (?f n y)" if "factor (advance e) = Some (n, y)" for n y
      using no_longer_skip [OF 3(3) [OF refl True that refl]] no_longer_skip [OF 3(4) [OF refl True that refl]] by auto
    then have "no_longer (advance e) (term_loop res e)"
      using no_longer_bind [OF 3(2) [OF refl True], of ?f] True 3(1) by (simp add: term_loop.psimps Let_def)
    then show ?thesis using advance_shorter [OF nz] by (auto intro: no_longer_mono)
  next
    case False
    then show ?thesis using 3(1) by (simp add: term_loop.psimps Let_def)
  qed
next
  case (4 e)
  have "no_longer y (eval_loop x (skip y))" if "term_c e = Some (x, y)" for x y
    using 4(3) [OF that refl] by (rule no_longer_skip)
  then show ?case using no_longer_bind [OF 4(2), of "\<lambda>x y. eval_loop x (skip y)"] 4(1) by (simp add: eval.psimps)
next
  case (5 res e)
  show ?case
  proof (cases "peek (exp e) = ch (CHR ''+'') \<or> peek (exp e) = ch (CHR ''-'')")
    case True
    then have nz: "peek (exp e) \<noteq> 0" by auto
    let ?f = "\<lambda>n y. eval_loop (wrap32 (if peek (exp e) = ch (CHR ''+'') then res + n else res - n)) (skip y)"
    have "no_longer y (?f n y)" if "term_c (advance e) = Some (n, y)" for n y
      using no_longer_skip [OF 5(3) [OF refl True that refl]] .
    then have "no_longer (advance e) (eval_loop res e)"
      using no_longer_bind [OF 5(2) [OF refl True], of ?f] True 5(1) by (simp add: eval_loop.psimps Let_def)
    then show ?thesis using advance_shorter [OF nz] by (auto intro: no_longer_mono)
  next
    case False
    then show ?thesis using 5(1) by (simp add: eval_loop.psimps Let_def)
  qed
qed

lemma parse_shorterD:
  "parse_dom (Inl (Inl e)) \<Longrightarrow> factor e = Some (v, e') \<Longrightarrow> length (exp (skip e')) \<le> length (exp e)"
  "parse_dom (Inl (Inr e)) \<Longrightarrow> term_c e = Some (v, e') \<Longrightarrow> length (exp (skip e')) \<le> length (exp e)"
  using parse_shorter(1) [of e] parse_shorter(2) [of e] skip_shorter [of e'] by auto

termination factor
proof (relation "measures [\<lambda>x. case x of
      Inl (Inl e) \<Rightarrow> length (exp e) | Inl (Inr e) \<Rightarrow> length (exp e) | Inr (Inl (_, e)) \<Rightarrow> length (exp e)
    | Inr (Inr (Inl e)) \<Rightarrow> length (exp e) | Inr (Inr (Inr (_, e))) \<Rightarrow> length (exp e),
    \<lambda>x. case x of Inl (Inl e) \<Rightarrow> 1 | Inl (Inr e) \<Rightarrow> 3 | Inr (Inl _) \<Rightarrow> 2 | Inr (Inr (Inl e)) \<Rightarrow> 5 | Inr (Inr (Inr _)) \<Rightarrow> (4 :: nat)]", goal_cases)
  case (2 e x)
  then show ?case using advance_shorter [of x] skip_shorter [of e] by auto
next
  case (4 e a x y)
  then show ?case using parse_shorterD(1) [of e x y] by auto
next
  case (5 res e x)
  then show ?case using advance_shorter [of e] by auto
next
  case (6 res e x a xa y)
  then show ?case using parse_shorterD(1) [of "advance e" xa y] advance_shorter [of e] by auto
next
  case (7 res e x a xa y)
  then show ?case using parse_shorterD(1) [of "advance e" xa y] advance_shorter [of e] by auto
next
  case (9 e a x y)
  then show ?case using parse_shorterD(2) [of e x y] by auto
next
  case (10 res e x)
  then show ?case using advance_shorter [of e] by auto
next
  case (11 res e x a xa y)
  then show ?case using parse_shorterD(2) [of "advance e" xa y] advance_shorter [of e] by auto
qed simp_all

declare factor.simps [simp del] term_c.simps [simp del] term_loop.simps [simp del] eval.simps [simp del] eval_loop.simps [simp del]

text \<open>
  The main loop over the characters typed for each line; what is typed is echoed by \<open>fgets\<close> and not
  part of the output here.
\<close>

definition bc_answer :: "int \<Rightarrow> int \<Rightarrow> (byte list \<times> int) option" where
  "bc_answer res e =
     (if e = ERR_NONE then printf (Some (lit ''%d'' @ [10])) [Word (word_of_int res)]
      else if e = ERR_SYNTAX then printf (Some (lit ''Syntax error'' @ [10])) []
      else if e = ERR_DIVISION_BY_ZERO then printf (Some (lit ''Division by zero'' @ [10])) []
      else Some ([], 0))"

fun bc_main :: "byte list \<Rightarrow> int list list \<Rightarrow> byte list option" where
  "bc_main buf [] = None"
| "bc_main buf (keys # lines) =
     do { (buf, ok, _) \<leftarrow> fgets buf (int (length buf)) keys;
          let line = takeWhile (\<lambda>b. b \<noteq> 0) buf;
          if \<not> ok \<or> line = lit ''exit'' \<or> line = lit ''quit'' then Some (lit ''> '')
          else do { (res, e) \<leftarrow> eval \<lparr>exp = line, err = ERR_NONE\<rparr>;
                    (answer, _) \<leftarrow> bc_answer res (err e);
                    rest \<leftarrow> bc_main buf lines;
                    Some (lit ''> '' @ answer @ rest) } }"

section \<open>Expressions\<close>

text \<open>
  The expressions a line stands for: literals with an optional sign, the four operations, blanks
  before an operand, before an operator and before a closing parenthesis.
\<close>

datatype bop = Add | Sub | Mul | Div

datatype expr =
    Dec bool "nat list"
  | Hex bool "nat list"
  | Bin bop nat expr expr
  | Par expr nat
  | Blank nat expr

fun digit :: "nat \<Rightarrow> byte" where
  "digit d = (if d < 10 then of_nat (48 + d) else of_nat (87 + d))"

fun opc :: "bop \<Rightarrow> byte" where
  "opc Add = ch (CHR ''+'')" | "opc Sub = ch (CHR ''-'')" | "opc Mul = ch (CHR ''*'')" | "opc Div = ch (CHR ''/'')"

fun lev :: "bop \<Rightarrow> nat" where
  "lev Add = 0" | "lev Sub = 0" | "lev Mul = 1" | "lev Div = 1"

abbreviation spaces :: "nat \<Rightarrow> byte list" where "spaces k \<equiv> replicate k (ch (CHR '' ''))"

text \<open>The text at a level: a sum (0), a product (1), a factor (2).\<close>

fun show_at :: "nat \<Rightarrow> expr \<Rightarrow> byte list" where
  "show_at p (Dec neg ds) = (if neg then [ch (CHR ''-'')] else []) @ map digit ds"
| "show_at p (Hex neg ds) = (if neg then [ch (CHR ''-'')] else []) @ lit ''0x'' @ map digit ds"
| "show_at p (Bin b k x y) =
     (let body = show_at (lev b) x @ spaces k @ [opc b] @ show_at (lev b + 1) y
      in if lev b < p then [ch (CHR ''('')] @ body @ [ch (CHR '')'')] else body)"
| "show_at p (Par x k) = [ch (CHR ''('')] @ show_at 0 x @ spaces k @ [ch (CHR '')'')]"
| "show_at p (Blank k x) = spaces k @ show_at p x"

fun wf_expr :: "expr \<Rightarrow> bool" where
  "wf_expr (Dec neg ds) \<longleftrightarrow> ds \<noteq> [] \<and> (\<forall>d \<in> set ds. d < 10)"
| "wf_expr (Hex neg ds) \<longleftrightarrow> (\<forall>d \<in> set ds. d < 16)"
| "wf_expr (Bin b k x y) \<longleftrightarrow> wf_expr x \<and> wf_expr y"
| "wf_expr (Par x k) \<longleftrightarrow> wf_expr x"
| "wf_expr (Blank k x) \<longleftrightarrow> wf_expr x"

text \<open>The value; \<open>None\<close> when a division by zero or the quotient that does not fit is met.\<close>

definition numeral_value :: "int \<Rightarrow> bool \<Rightarrow> nat list \<Rightarrow> int" where
  "numeral_value base neg ds = wrap32 ((if neg then - 1 else 1) * foldl (\<lambda>n d. n * base + int d) 0 ds)"

fun apply_op :: "bop \<Rightarrow> int \<Rightarrow> int \<Rightarrow> int option" where
  "apply_op Add x y = Some (wrap32 (x + y))"
| "apply_op Sub x y = Some (wrap32 (x - y))"
| "apply_op Mul x y = Some (wrap32 (x * y))"
| "apply_op Div x y = (if y = 0 \<or> (x = - (2 ^ 31) \<and> y = - 1) then None else Some (x sdiv y))"

fun value_of :: "expr \<Rightarrow> int option" where
  "value_of (Dec neg ds) = Some (numeral_value 10 neg ds)"
| "value_of (Hex neg ds) = Some (numeral_value 16 neg ds)"
| "value_of (Bin b k x y) = do { u \<leftarrow> value_of x; v \<leftarrow> value_of y; apply_op b u v }"
| "value_of (Par x k) = value_of x"
| "value_of (Blank k x) = value_of x"

section \<open>Literals\<close>

text \<open>What may follow a literal.\<close>

definition sep :: "byte list \<Rightarrow> bool" where
  "sep s \<longleftrightarrow> s = [] \<or> hd s \<in> {ch (CHR '' ''), ch (CHR ''+''), ch (CHR ''-''), ch (CHR ''*''), ch (CHR ''/''), ch (CHR '')'')}"

lemma wrap32_wrap32_add: "wrap32 (wrap32 x + y) = wrap32 (x + y)" "wrap32 (wrap32 x * y) = wrap32 (x * y)"
  "wrap32 (- wrap32 x) = wrap32 (- x)" "wrap32 (wrap32 x) = wrap32 x"
  by (simp_all add: wrap32_def)

lemma sint_digit: "d < 16 \<Longrightarrow> sint (digit d) = (if d < 10 then 48 + int d else 87 + int d)"
  by (auto simp: less_Suc_eq numeral_eq_Suc)

lemma hex_digit_value:
  assumes "d < 16"
  shows "isxdigit (sint (digit d))"
    "(if sint (digit d) \<le> 57 then sint (digit d) - 48 else tolower (sint (digit d)) - 97 + 10) = int d"
  using assms by (auto simp: sint_digit isxdigit_def tolower_def simp del: digit.simps)

lemma dec_digit_value:
  assumes "d < 10"
  shows "isdigit (sint (digit d))" "sint (digit d) - 48 = int d"
  using assms by (auto simp: sint_digit isdigit_def simp del: digit.simps)

lemma sep_stops: "sep s \<Longrightarrow> dec_number n s = (n, s)" "sep s \<Longrightarrow> hex_number n s = (n, s)"
  by (cases s; auto simp: sep_def isdigit_def isxdigit_def)+

lemma dec_number_digits:
  "\<forall>d \<in> set ds. d < 10 \<Longrightarrow> sep s \<Longrightarrow>
     dec_number (wrap32 n) (map digit ds @ s) = (wrap32 (foldl (\<lambda>n d. n * 10 + int d) n ds), s)"
  by (induction ds arbitrary: n) (simp_all add: sep_stops dec_digit_value wrap32_wrap32_add del: digit.simps)

lemma hex_number_digits:
  "\<forall>d \<in> set ds. d < 16 \<Longrightarrow> sep s \<Longrightarrow>
     hex_number (wrap32 n) (map digit ds @ s) = (wrap32 (foldl (\<lambda>n d. n * 16 + int d) n ds), s)"
  by (induction ds arbitrary: n)
    (simp_all add: sep_stops hex_digit_value wrap32_wrap32_add del: digit.simps if_image_distrib split del: if_split)

lemma sep_not_x: "sep s \<Longrightarrow> peek s \<noteq> ch (CHR ''x'')"
  by (auto simp: sep_def peek_def split: list.splits)

lemma digit_chars: "d < 10 \<Longrightarrow> digit d \<notin> {ch (CHR ''-''), ch (CHR ''x''), ch (CHR '' ''), ch (CHR ''('')}"
  using sint_digit [of d] by (auto simp del: digit.simps)

lemma number_dec:
  assumes "wf_expr (Dec neg ds)" "sep s"
  shows "number \<lparr>exp = show_at p (Dec neg ds) @ s, err = er\<rparr> = (numeral_value 10 neg ds, \<lparr>exp = s, err = er\<rparr>)"
proof -
  obtain d es where ds: "ds = d # es" using assms(1) by (cases ds) auto
  have d: "d < 10" "\<forall>d \<in> set es. d < 10" using assms(1) ds by auto
  have nox: "peek (map digit es @ s) \<noteq> ch (CHR ''x'')"
    using d(2) assms(2) sep_not_x digit_chars by (cases es) (auto simp: peek_def simp del: digit.simps)
  have dec: "dec_number 0 (map digit ds @ s) = (wrap32 (foldl (\<lambda>n d. n * 10 + int d) 0 ds), s)"
    using dec_number_digits [of ds s 0] assms by simp
  show ?thesis
    using d nox dec digit_chars [OF d(1)]
    by (auto simp: number_def numeral_value_def ds peek_def wrap32_wrap32_add simp del: digit.simps dec_number.simps split: list.splits)
qed

lemma number_hex:
  assumes "wf_expr (Hex neg ds)" "sep s"
  shows "number \<lparr>exp = show_at p (Hex neg ds) @ s, err = er\<rparr> = (numeral_value 16 neg ds, \<lparr>exp = s, err = er\<rparr>)"
proof -
  have "hex_number 0 (map digit ds @ s) = (wrap32 (foldl (\<lambda>n d. n * 16 + int d) 0 ds), s)"
    using hex_number_digits [of ds s 0] assms by simp
  then show ?thesis
    by (simp add: number_def numeral_value_def peek_def wrap32_wrap32_add)
qed

section \<open>The evaluator computes the value\<close>

text \<open>A result that reports an error, or none at all.\<close>

definition poisoned :: "(int \<times> expr_t) option \<Rightarrow> bool" where
  "poisoned r \<longleftrightarrow> (\<forall>v e. r = Some (v, e) \<longrightarrow> err e \<noteq> 0)"

lemma poisoned_simps [simp]: "poisoned None" "poisoned (Some (v, e)) \<longleftrightarrow> err e \<noteq> 0"
  by (simp_all add: poisoned_def)

lemma poisoned_bind:
  assumes "poisoned r" "\<And>v e. r = Some (v, e) \<Longrightarrow> err e \<noteq> 0 \<Longrightarrow> poisoned (f v e)"
  shows "poisoned (do { (v, e) \<leftarrow> r; f v e })"
  using assms by (cases r) auto

lemma err_simps [simp]: "err (skip e) = err e" "err (advance e) = err e" "err (snd (number e)) = err e"
  by (simp_all add: skip_def advance_def number_def Let_def split: prod.splits)

text \<open>An error once reported stays.\<close>

lemma err_stays:
  "err e \<noteq> 0 \<Longrightarrow> poisoned (factor e)" "err e \<noteq> 0 \<Longrightarrow> poisoned (term_c e)" "err e \<noteq> 0 \<Longrightarrow> poisoned (term_loop res e)"
  "err e \<noteq> 0 \<Longrightarrow> poisoned (eval e)" "err e \<noteq> 0 \<Longrightarrow> poisoned (eval_loop res e)"
proof (induction e and e and res e and e and res e rule: factor_term_c_term_loop_eval_eval_loop.induct)
  case (1 e)
  have "poisoned (Some (number (skip e)))" using 1(2) by (cases "number (skip e)") (metis err_simps poisoned_simps(2) snd_conv)
  then show ?case using 1 by (subst factor.simps) (auto simp: Let_def intro!: poisoned_bind)
next
  case (2 e)
  then show ?case by (subst term_c.simps) (auto intro!: poisoned_bind)
next
  case (3 res e)
  then show ?case by (subst term_loop.simps) (auto simp: Let_def intro!: poisoned_bind)
next
  case (4 e)
  then show ?case by (subst eval.simps) (auto intro!: poisoned_bind)
next
  case (5 res e)
  then show ?case by (subst eval_loop.simps) (auto simp: Let_def intro!: poisoned_bind)
qed

definition yields :: "(int \<times> expr_t) option \<Rightarrow> int option \<Rightarrow> (int \<Rightarrow> (int \<times> expr_t) option) \<Rightarrow> bool" where
  "yields r v k \<longleftrightarrow> (case v of Some v \<Rightarrow> r = k v | None \<Rightarrow> poisoned r)"

lemma skip_spaces: "skip \<lparr>exp = spaces k @ s, err = er\<rparr> = skip \<lparr>exp = s, err = er\<rparr>"
  by (simp add: skip_def dropWhile_append)

lemma parse_spaces:
  "factor \<lparr>exp = spaces k @ s, err = er\<rparr> = factor \<lparr>exp = s, err = er\<rparr>"
  "term_c \<lparr>exp = spaces k @ s, err = er\<rparr> = term_c \<lparr>exp = s, err = er\<rparr>"
  "eval \<lparr>exp = spaces k @ s, err = er\<rparr> = eval \<lparr>exp = s, err = er\<rparr>"
proof -
  show f: "factor \<lparr>exp = spaces k @ s, err = er\<rparr> = factor \<lparr>exp = s, err = er\<rparr>"
    by (simp only: factor.simps skip_spaces)
  then show t: "term_c \<lparr>exp = spaces k @ s, err = er\<rparr> = term_c \<lparr>exp = s, err = er\<rparr>" by (simp only: term_c.simps)
  then show "eval \<lparr>exp = spaces k @ s, err = er\<rparr> = eval \<lparr>exp = s, err = er\<rparr>" by (simp only: eval.simps)
qed

lemma factor_literal:
  assumes "wf_expr x" "sep s" "x = Dec neg ds \<or> x = Hex neg ds"
  shows "factor \<lparr>exp = show_at p x @ s, err = er\<rparr> = Some (the (value_of x), \<lparr>exp = s, err = er\<rparr>)"
proof -
  have "show_at p x \<noteq> [] \<and> hd (show_at p x) \<noteq> ch (CHR '' '') \<and> hd (show_at p x) \<noteq> ch (CHR ''('')"
    using assms(1,3) digit_chars by (cases ds; cases neg) (auto simp del: digit.simps)
  then have "skip \<lparr>exp = show_at p x @ s, err = er\<rparr> = \<lparr>exp = show_at p x @ s, err = er\<rparr>"
    "peek (show_at p x @ s) \<noteq> ch (CHR ''('')"
    by (cases "show_at p x"; simp add: skip_def peek_def)+
  then show ?thesis using assms number_dec number_hex by (subst factor.simps) (auto simp: Let_def)
qed

text \<open>A factor in parentheses.\<close>

lemma factor_paren:
  assumes "yields (eval \<lparr>exp = t @ spaces k @ ch (CHR '')'') # s, err = er\<rparr>) v
      (\<lambda>v. eval_loop v (skip \<lparr>exp = spaces k @ ch (CHR '')'') # s, err = er\<rparr>))"
  shows "yields (factor \<lparr>exp = ch (CHR ''('') # t @ spaces k @ ch (CHR '')'') # s, err = er\<rparr>) v (\<lambda>v. Some (v, \<lparr>exp = s, err = er\<rparr>))"
proof -
  let ?e = "\<lparr>exp = ch (CHR ''('') # t @ spaces k @ ch (CHR '')'') # s, err = er\<rparr>"
  have sk: "skip ?e = ?e" "advance ?e = \<lparr>exp = t @ spaces k @ ch (CHR '')'') # s, err = er\<rparr>" "peek (exp ?e) = ch (CHR ''('')"
    by (simp_all add: skip_def advance_def peek_def)
  have close: "skip \<lparr>exp = spaces k @ ch (CHR '')'') # s, err = er\<rparr> = \<lparr>exp = ch (CHR '')'') # s, err = er\<rparr>"
    unfolding skip_spaces by (simp add: skip_def)
  show ?thesis
  proof (cases v)
    case None
    then show ?thesis using assms sk
      by (subst factor.simps) (auto simp: yields_def Let_def intro!: poisoned_bind)
  next
    case (Some u)
    have "eval_loop u \<lparr>exp = ch (CHR '')'') # s, err = er\<rparr> = Some (u, \<lparr>exp = ch (CHR '')'') # s, err = er\<rparr>)"
      by (subst eval_loop.simps) (simp add: peek_def)
    then have "eval (advance ?e) = Some (u, \<lparr>exp = ch (CHR '')'') # s, err = er\<rparr>)"
      using assms Some close sk by (simp add: yields_def)
    then show ?thesis
      using Some sk by (subst factor.simps) (simp add: yields_def Let_def, simp add: skip_def advance_def peek_def)
  qed
qed

text \<open>From a factor to a product, and from a product to a sum.\<close>

lemma term_of_factor:
  assumes "yields (factor e) v (\<lambda>v. Some (v, e'))"
  shows "yields (term_c e) v (\<lambda>v. term_loop v (skip e'))"
  using assms by (subst term_c.simps) (auto simp: yields_def split: option.splits intro!: poisoned_bind err_stays)

definition no_mul :: "byte list \<Rightarrow> bool" where
  "no_mul s \<longleftrightarrow> peek (exp (skip \<lparr>exp = s, err = 0\<rparr>)) \<notin> {ch (CHR ''*''), ch (CHR ''/'')}"

lemma term_loop_stops:
  "no_mul s \<Longrightarrow> term_loop v (skip \<lparr>exp = s, err = er\<rparr>) = Some (v, skip \<lparr>exp = s, err = er\<rparr>)"
  by (subst term_loop.simps) (simp add: no_mul_def skip_def Let_def)

lemma skip_skip [simp]: "skip (skip e) = skip e"
  by (simp add: skip_def)

lemma eval_of_term:
  assumes "yields (term_c e) v (\<lambda>v. term_loop v (skip \<lparr>exp = s, err = er\<rparr>))" "no_mul s"
  shows "yields (eval e) v (\<lambda>v. eval_loop v (skip \<lparr>exp = s, err = er\<rparr>))"
  using assms by (subst eval.simps) (auto simp: yields_def term_loop_stops split: option.splits intro!: poisoned_bind err_stays)

text \<open>One step of the loops.\<close>

lemma eval_loop_step:
  assumes "b = Add \<or> b = Sub" "yields (term_c \<lparr>exp = t, err = er\<rparr>) v (\<lambda>v. Some (v, e'))"
  shows "yields (eval_loop u \<lparr>exp = opc b # t, err = er\<rparr>) (do { v \<leftarrow> v; apply_op b u v }) (\<lambda>v. eval_loop v (skip e'))"
  using assms by (subst eval_loop.simps)
    (auto simp: yields_def peek_def advance_def split: option.splits intro!: poisoned_bind err_stays)

lemma term_loop_step:
  assumes "b = Mul \<or> b = Div" "yields (factor \<lparr>exp = t, err = er\<rparr>) v (\<lambda>v. Some (v, e'))"
  shows "yields (term_loop u \<lparr>exp = opc b # t, err = er\<rparr>) (do { v \<leftarrow> v; apply_op b u v }) (\<lambda>v. term_loop v (skip e'))"
  using assms by (subst term_loop.simps)
    (auto simp: yields_def peek_def advance_def split: option.splits intro!: poisoned_bind err_stays)

lemma yields_bind:
  "yields r v k \<Longrightarrow> (\<And>u. v = Some u \<Longrightarrow> yields (k u) (f u) k') \<Longrightarrow> yields r (do { u \<leftarrow> v; f u }) k'"
  by (auto simp: yields_def split: option.splits)

text \<open>The text of an expression is evaluated to its value at each level.\<close>

definition eval_ok :: "expr \<Rightarrow> bool" where
  "eval_ok x \<longleftrightarrow> (\<forall>s er. sep s \<longrightarrow> no_mul s \<longrightarrow>
     yields (eval \<lparr>exp = show_at 0 x @ s, err = er\<rparr>) (value_of x) (\<lambda>v. eval_loop v (skip \<lparr>exp = s, err = er\<rparr>)))"

definition term_ok :: "expr \<Rightarrow> bool" where
  "term_ok x \<longleftrightarrow> (\<forall>s er. sep s \<longrightarrow>
     yields (term_c \<lparr>exp = show_at 1 x @ s, err = er\<rparr>) (value_of x) (\<lambda>v. term_loop v (skip \<lparr>exp = s, err = er\<rparr>)))"

definition factor_ok :: "expr \<Rightarrow> bool" where
  "factor_ok x \<longleftrightarrow> (\<forall>s er. sep s \<longrightarrow>
     yields (factor \<lparr>exp = show_at 2 x @ s, err = er\<rparr>) (value_of x) (\<lambda>v. Some (v, \<lparr>exp = s, err = er\<rparr>)))"

lemma term_okI: "factor_ok x \<Longrightarrow> show_at 1 x = show_at 2 x \<Longrightarrow> term_ok x"
  by (auto simp: factor_ok_def term_ok_def intro: term_of_factor)

lemma eval_okI: "term_ok x \<Longrightarrow> show_at 0 x = show_at 1 x \<Longrightarrow> eval_ok x"
  by (auto simp: eval_ok_def term_ok_def intro: eval_of_term)

lemma close_follows: "sep (spaces k @ ch (CHR '')'') # s)" "no_mul (spaces k @ ch (CHR '')'') # s)"
proof -
  show "sep (spaces k @ ch (CHR '')'') # s)" by (cases k) (simp_all add: sep_def)
  show "no_mul (spaces k @ ch (CHR '')'') # s)" unfolding no_mul_def skip_spaces by (simp add: skip_def peek_def)
qed

lemma op_follows: "sep (spaces k @ opc b # s)" "lev b = 0 \<Longrightarrow> no_mul (spaces k @ opc b # s)"
  "skip \<lparr>exp = spaces k @ opc b # s, err = er\<rparr> = \<lparr>exp = opc b # s, err = er\<rparr>"
proof -
  show "sep (spaces k @ opc b # s)" by (cases k; cases b) (simp_all add: sep_def)
  show "lev b = 0 \<Longrightarrow> no_mul (spaces k @ opc b # s)" unfolding no_mul_def skip_spaces by (cases b) (simp_all add: skip_def peek_def)
  show "skip \<lparr>exp = spaces k @ opc b # s, err = er\<rparr> = \<lparr>exp = opc b # s, err = er\<rparr>"
    unfolding skip_spaces by (cases b) (simp_all add: skip_def)
qed

lemma factor_ok_paren:
  assumes "eval_ok x" "value_of y = value_of x" "show_at 2 y = ch (CHR ''('') # show_at 0 x @ spaces k @ [ch (CHR '')'')]"
  shows "factor_ok y"
  unfolding factor_ok_def assms(2,3)
  using assms(1) close_follows by (auto simp: eval_ok_def intro!: factor_paren [simplified])

lemma eval_ok_bin:
  assumes "eval_ok x" "term_ok y" "lev b = 0"
  shows "eval_ok (Bin b k x y)"
  unfolding eval_ok_def
proof (intro allI impI)
  fix s er assume s: "sep s" "no_mul s"
  have b: "b = Add \<or> b = Sub" using assms(3) by (cases b) auto
  let ?t = "show_at 1 y @ s"
  have "yields (eval \<lparr>exp = show_at 0 x @ spaces k @ opc b # ?t, err = er\<rparr>) (value_of x) (\<lambda>v. eval_loop v \<lparr>exp = opc b # ?t, err = er\<rparr>)"
    using assms(1) op_follows(1) [of k b ?t] op_follows(2) [OF assms(3), of k ?t] op_follows(3) [of k b ?t er]
    unfolding eval_ok_def by metis
  moreover have "yields (term_c \<lparr>exp = ?t, err = er\<rparr>) (value_of y) (\<lambda>v. Some (v, skip \<lparr>exp = s, err = er\<rparr>))"
    using assms(2) s term_loop_stops by (auto simp: term_ok_def)
  from eval_loop_step [OF b this]
  have "yields (eval_loop u \<lparr>exp = opc b # ?t, err = er\<rparr>) (do { v \<leftarrow> value_of y; apply_op b u v })
      (\<lambda>v. eval_loop v (skip \<lparr>exp = s, err = er\<rparr>))" for u by simp
  ultimately show "yields (eval \<lparr>exp = show_at 0 (Bin b k x y) @ s, err = er\<rparr>) (value_of (Bin b k x y))
      (\<lambda>v. eval_loop v (skip \<lparr>exp = s, err = er\<rparr>))"
    using assms(3) by (auto simp: Let_def intro: yields_bind)
qed

lemma term_ok_bin:
  assumes "term_ok x" "factor_ok y" "lev b = 1"
  shows "term_ok (Bin b k x y)"
  unfolding term_ok_def
proof (intro allI impI)
  fix s er assume s: "sep s"
  have b: "b = Mul \<or> b = Div" using assms(3) by (cases b) auto
  let ?t = "show_at 2 y @ s"
  have "yields (term_c \<lparr>exp = show_at 1 x @ spaces k @ opc b # ?t, err = er\<rparr>) (value_of x) (\<lambda>v. term_loop v \<lparr>exp = opc b # ?t, err = er\<rparr>)"
    using assms(1) op_follows(1) [of k b ?t] op_follows(3) [of k b ?t er] unfolding term_ok_def by metis
  moreover have "yields (factor \<lparr>exp = ?t, err = er\<rparr>) (value_of y) (\<lambda>v. Some (v, \<lparr>exp = s, err = er\<rparr>))"
    using assms(2) s by (auto simp: factor_ok_def)
  from term_loop_step [OF b this]
  have "yields (term_loop u \<lparr>exp = opc b # ?t, err = er\<rparr>) (do { v \<leftarrow> value_of y; apply_op b u v })
      (\<lambda>v. term_loop v (skip \<lparr>exp = s, err = er\<rparr>))" for u by simp
  ultimately show "yields (term_c \<lparr>exp = show_at 1 (Bin b k x y) @ s, err = er\<rparr>) (value_of (Bin b k x y))
      (\<lambda>v. term_loop v (skip \<lparr>exp = s, err = er\<rparr>))"
    using assms(3) by (auto simp: Let_def numeral_2_eq_2 intro: yields_bind)
qed

lemma parse_ok: "wf_expr x \<Longrightarrow> factor_ok x \<and> term_ok x \<and> eval_ok x"
proof (induction x)
  case (Dec neg ds)
  then have "factor_ok (Dec neg ds)" using factor_literal [of "Dec neg ds" _ neg ds 2] by (auto simp: factor_ok_def yields_def)
  then show ?case using term_okI eval_okI by simp
next
  case (Hex neg ds)
  then have "factor_ok (Hex neg ds)" using factor_literal [of "Hex neg ds" _ neg ds 2] by (auto simp: factor_ok_def yields_def)
  then show ?case using term_okI eval_okI by simp
next
  case (Par x k)
  then have "factor_ok (Par x k)" using factor_ok_paren [of x "Par x k" k] by simp
  then show ?case using term_okI eval_okI by simp
next
  case (Blank k x)
  then show ?case by (simp add: factor_ok_def term_ok_def eval_ok_def parse_spaces [simplified])
next
  case (Bin b k x y)
  then have ih: "factor_ok x" "term_ok x" "eval_ok x" "factor_ok y" "term_ok y" by simp_all
  consider "lev b = 0" | "lev b = 1" by (cases b) auto
  then show ?case
  proof cases
    case 1
    then have e: "eval_ok (Bin b k x y)" using ih by (intro eval_ok_bin)
    then have "factor_ok (Bin b k x y)" using factor_ok_paren [OF e, of "Bin b k x y" 0] 1 by (simp add: Let_def)
    then show ?thesis using e term_okI 1 by (simp add: Let_def)
  next
    case 2
    then have t: "term_ok (Bin b k x y)" using ih by (intro term_ok_bin)
    then have e: "eval_ok (Bin b k x y)" using eval_okI 2 by (simp add: Let_def)
    then have "factor_ok (Bin b k x y)" using factor_ok_paren [OF e, of "Bin b k x y" 0] 2 by (simp add: Let_def)
    then show ?thesis using e t by simp
  qed
qed

text \<open>
  C35. For every expression, written with any blanks and with parentheses wherever its structure needs
  them, \<open>eval\<close> reads the whole line and returns the value of the expression in 32-bit arithmetic,
  with products before sums and operators of one level from left to right.  When the expression
  divides by zero, or divides the smallest number by minus one, no result is returned without an
  error.
\<close>

theorem eval_computes_value:
  assumes "wf_expr x"
  shows "case value_of x of
      Some v \<Rightarrow> eval \<lparr>exp = show_at 0 x @ spaces k, err = 0\<rparr> = Some (v, \<lparr>exp = [], err = 0\<rparr>)
    | None \<Rightarrow> (\<forall>r e. eval \<lparr>exp = show_at 0 x @ spaces k, err = 0\<rparr> = Some (r, e) \<longrightarrow> err e \<noteq> 0)"
proof -
  have e: "skip \<lparr>exp = spaces k, err = 0\<rparr> = \<lparr>exp = [], err = 0\<rparr>" by (simp add: skip_def)
  have "sep (spaces k)" "no_mul (spaces k)" by (cases k; simp add: sep_def no_mul_def skip_def peek_def)+
  then have "yields (eval \<lparr>exp = show_at 0 x @ spaces k, err = 0\<rparr>) (value_of x) (\<lambda>v. eval_loop v \<lparr>exp = [], err = 0\<rparr>)"
    using parse_ok [OF assms] e unfolding eval_ok_def by metis
  moreover have "eval_loop v \<lparr>exp = [], err = 0\<rparr> = Some (v, \<lparr>exp = [], err = 0\<rparr>)" for v
    by (subst eval_loop.simps) (simp add: peek_def)
  ultimately show ?thesis by (auto simp: yields_def poisoned_def split: option.splits)
qed

theorem eval_computes_value_witness:
  "eval \<lparr>exp = lit ''7 - 2*(0x1f+-4)'', err = 0\<rparr> = Some (- 47, \<lparr>exp = [], err = 0\<rparr>)
   \<and> (\<nexists>r e. eval \<lparr>exp = lit ''(1/0*2)+3 '', err = 0\<rparr> = Some (r, e) \<and> err e = 0)"
proof -
  let ?x = "Bin Sub 1 (Dec False [7]) (Blank 1 (Bin Mul 0 (Dec False [2]) (Bin Add 0 (Hex False [1, 15]) (Dec True [4]))))"
  let ?y = "Bin Add 0 (Par (Bin Mul 0 (Bin Div 0 (Dec False [1]) (Dec False [0])) (Dec False [2])) 0) (Dec False [3])"
  have "show_at 0 ?x @ spaces 0 = lit ''7 - 2*(0x1f+-4)''" "value_of ?x = Some (- 47)"
    "show_at 0 ?y @ spaces 1 = lit ''(1/0*2)+3 ''" "value_of ?y = None"
    by (simp_all add: numeral_value_def)
  then show ?thesis
    using eval_computes_value [of ?x 0] eval_computes_value [of ?y 1] by simp
qed

end
