(* ===== verification/Terminal.thy ===== *)
theory Terminal
  imports Prelude "HOL-Library.Monad_Syntax"
begin

text \<open>
  The text terminal: \<open>kernel/arch/x86_64/tty.c\<close>, the entries of \<open>vga.h\<close> and \<open>putchar\<close>.  The screen is
  the list of its 80 times 25 cells; the cursor is in two registers of the display controller,
  reached through an index port and a data port.  \<open>None\<close> is a write outside the screen.
\<close>

section \<open>State\<close>

definition VGA_WIDTH :: int where "VGA_WIDTH = 80"
definition VGA_HEIGHT :: int where "VGA_HEIGHT = 25"
definition VGA_EXTENT :: int where "VGA_EXTENT = 80 * 25"

record terminal =
  terminal_row :: int
  terminal_column :: int
  terminal_color :: byte
  terminal_buffer :: "u16 list"
  crtc_index :: byte
  crtc_reg :: "byte \<Rightarrow> byte"

definition out_command :: "terminal \<Rightarrow> byte \<Rightarrow> terminal" where
  "out_command t v = t\<lparr>crtc_index := v\<rparr>"

definition out_data :: "terminal \<Rightarrow> byte \<Rightarrow> terminal" where
  "out_data t v = t\<lparr>crtc_reg := (crtc_reg t)(crtc_index t := v)\<rparr>"

definition in_data :: "terminal \<Rightarrow> byte" where
  "in_data t = crtc_reg t (crtc_index t)"

section \<open>vga.h\<close>

definition VGA_COLOR_BLACK :: byte where "VGA_COLOR_BLACK = 0"
definition VGA_COLOR_LIGHT_GREEN :: byte where "VGA_COLOR_LIGHT_GREEN = 10"

definition vga_entry_color :: "byte \<Rightarrow> byte \<Rightarrow> byte" where
  "vga_entry_color fg bg = fg OR push_bit 4 bg"

definition vga_entry :: "byte \<Rightarrow> byte \<Rightarrow> u16" where
  "vga_entry uc color = ucast uc OR push_bit 8 (ucast color)"

section \<open>tty.c: the cursor\<close>

definition enable_cursor :: "terminal \<Rightarrow> byte \<Rightarrow> byte \<Rightarrow> terminal" where
  "enable_cursor t cursor_start cursor_end =
     (let t = out_command t 0x0A; t = out_data t ((in_data t AND 0xC0) OR cursor_start);
          t = out_command t 0x0B
      in out_data t ((in_data t AND 0xE0) OR cursor_end))"

definition disable_cursor :: "terminal \<Rightarrow> terminal" where
  "disable_cursor t = out_data (out_command t 0x0A) 0x20"

definition update_cursor :: "terminal \<Rightarrow> int \<Rightarrow> int \<Rightarrow> terminal" where
  "update_cursor t x y =
     (let pos = word_of_int ((y + 1) * VGA_WIDTH + x) :: u16;
          t = out_data (out_command t 0x0F) (ucast (pos AND 0xFF));
          t = out_data (out_command t 0x0E) (ucast (drop_bit 8 pos AND 0xFF))
      in t\<lparr>terminal_row := y, terminal_column := x\<rparr>)"

definition update_cursor_absolute :: "terminal \<Rightarrow> u16 \<Rightarrow> terminal" where
  "update_cursor_absolute t pos =
     (let t = t\<lparr>terminal_row := uint pos div VGA_WIDTH, terminal_column := uint pos mod VGA_WIDTH\<rparr>
      in update_cursor t (terminal_column t) (terminal_row t))"

definition get_cursor_position :: "terminal \<Rightarrow> terminal \<times> u16" where
  "get_cursor_position t =
     (let t = out_command t 0x0F; pos = ucast (in_data t) :: u16;
          t = out_command t 0x0E; pos = pos OR push_bit 8 (ucast (in_data t))
      in (t, pos - word_of_int VGA_WIDTH))"

definition reverse_cursor :: "terminal \<Rightarrow> terminal" where
  "reverse_cursor t = (let (t, pos) = get_cursor_position t in update_cursor_absolute t (pos - 1))"

section \<open>tty.c: the screen\<close>

definition terminal_clear :: "terminal \<Rightarrow> terminal" where
  "terminal_clear t =
     (let color = vga_entry_color VGA_COLOR_LIGHT_GREEN VGA_COLOR_BLACK
      in t\<lparr>terminal_row := 0, terminal_column := 0, terminal_color := color,
           terminal_buffer := fold (\<lambda>y b. fold (\<lambda>x b. b[y * 80 + x := vga_entry (ch (CHR '' '')) color]) [0..<80] b) [0..<25]
             (terminal_buffer t)\<rparr>)"

text \<open>The mapping of the screen's page, which comes first, is that of \<open>map_memory_range\<close>.\<close>

definition terminal_initialize :: "terminal \<Rightarrow> terminal" where
  "terminal_initialize t = terminal_clear (enable_cursor t 0 0)"

definition terminal_setcolor :: "terminal \<Rightarrow> byte \<Rightarrow> terminal" where
  "terminal_setcolor t color = t\<lparr>terminal_color := color\<rparr>"

definition terminal_putentryat :: "terminal \<Rightarrow> byte \<Rightarrow> byte \<Rightarrow> int \<Rightarrow> int \<Rightarrow> terminal option" where
  "terminal_putentryat t c color x y =
     (let index = unat (word_of_int (y * VGA_WIDTH + x) :: u64) in
      if index < length (terminal_buffer t) then Some (t\<lparr>terminal_buffer := (terminal_buffer t)[index := vga_entry c color]\<rparr>)
      else None)"

definition terminal_scroll_line_down :: "terminal \<Rightarrow> terminal" where
  "terminal_scroll_line_down t =
     (let b = fold (\<lambda>i b. fold (\<lambda>j b. b[j + (i - 1) * 80 := b ! (j + i * 80)]) [0..<80] b) [1..<25] (terminal_buffer t);
          b = fold (\<lambda>j b. b[j + 24 * 80 := vga_entry (ch (CHR '' '')) (terminal_color t)]) [0..<80] b
      in update_cursor (t\<lparr>terminal_buffer := b\<rparr>) 0 (VGA_HEIGHT - 2))"

definition advance_cursor :: "terminal \<Rightarrow> terminal" where
  "advance_cursor t =
     (let (t, pos) = get_cursor_position t; pos = pos + 1;
          t = (if VGA_EXTENT \<le> uint pos then terminal_scroll_line_down t else t)
      in update_cursor_absolute t pos)"

text \<open>The column after a character, with the wrap to the next row.\<close>

definition next_column :: "terminal \<Rightarrow> terminal" where
  "next_column t =
     (let t = t\<lparr>terminal_column := terminal_column t + 1\<rparr> in
      if terminal_column t = VGA_WIDTH then
        (let t = t\<lparr>terminal_column := 0, terminal_row := terminal_row t + 1\<rparr>
         in if terminal_row t = VGA_HEIGHT - 1 then terminal_scroll_line_down t else t)
      else t)"

function terminal_putchar :: "terminal \<Rightarrow> byte \<Rightarrow> terminal option"
  and write_loop :: "terminal \<Rightarrow> byte list \<Rightarrow> terminal option" where
  "terminal_putchar t uc =
     (let (t, position) = get_cursor_position t;
          current_row = ucast (word_of_int (uint position div VGA_WIDTH) :: u16) :: byte
      in do { t \<leftarrow>
               (if uc = 10 then
                  (if VGA_HEIGHT - 1 \<le> uint (current_row + 1)
                   then Some ((terminal_scroll_line_down t)\<lparr>terminal_column := - 1\<rparr>)
                   else Some (update_cursor t (- 1) (uint (current_row + 1))))
                else if uc = 8 then
                  (let t = reverse_cursor t in
                   do { t \<leftarrow> terminal_putentryat t (ch (CHR '' '')) (terminal_color t) (terminal_column t) (terminal_row t);
                        Some (reverse_cursor t) })
                else if uc = 13 then Some (update_cursor t (- 1) (uint current_row))
                else if uc = 9 then
                  do { t \<leftarrow> write_loop t (replicate 4 (ch (CHR '' ''))); Some (update_cursor t (terminal_column t) (terminal_row t)) }
                else terminal_putentryat t uc (terminal_color t) (terminal_column t) (terminal_row t));
              Some (next_column t) })"
| "write_loop t [] = Some t"
| "write_loop t (c # cs) = do { t \<leftarrow> terminal_putchar t c; write_loop t cs }"
  by pat_completeness auto
termination
  by (relation "measure (\<lambda>x. case x of Inl (_, c) \<Rightarrow> if c = 9 then 20 else 1
       | Inr (_, cs) \<Rightarrow> sum_list (map (\<lambda>c. if c = 9 then 22 else 3) cs))")
    (auto simp: sum_list_replicate)

declare terminal_putchar.simps [simp del]

definition terminal_write :: "terminal \<Rightarrow> byte list \<Rightarrow> terminal option" where
  "terminal_write t cs = do { t \<leftarrow> write_loop t cs; Some (update_cursor t (terminal_column t) (terminal_row t)) }"

definition terminal_writestring :: "terminal \<Rightarrow> byte list \<Rightarrow> terminal option" where
  "terminal_writestring t s = terminal_write t s"

definition putchar :: "terminal \<Rightarrow> byte \<Rightarrow> terminal option" where
  "putchar t c = terminal_write t [c]"

section \<open>Scrolling\<close>

lemma fold_move_row:
  assumes "n \<le> 80" "v = w + 80" "w + 160 \<le> 2000" "length b = 2000"
  shows "length (fold (\<lambda>j b. b[j + w := b ! (j + v)]) [0..<n] b) = 2000
    \<and> (\<forall>q < 2000. fold (\<lambda>j b. b[j + w := b ! (j + v)]) [0..<n] b ! q = (if w \<le> q \<and> q < w + n then b ! (q + 80) else b ! q))"
  using assms
proof (induction n)
  case (Suc n)
  let ?r = "fold (\<lambda>j b. b[j + w := b ! (j + v)]) [0..<n] b"
  have r: "length ?r = 2000" "\<And>q. q < 2000 \<Longrightarrow> ?r ! q = (if w \<le> q \<and> q < w + n then b ! (q + 80) else b ! q)"
    using Suc by auto
  have "?r ! (n + v) = b ! (n + w + 80)" using r(2) [of "n + v"] Suc.prems by (simp add: add.assoc)
  then show ?case using r by (auto simp: nth_list_update less_Suc_eq add.commute)
qed auto

lemma fold_move_rows:
  assumes "1 \<le> k" "k \<le> 25" "length b = 2000"
  shows "length (fold (\<lambda>i b. fold (\<lambda>j b. b[j + (i - 1) * 80 := b ! (j + i * 80)]) [0..<80] b) [1..<k] b) = 2000
    \<and> (\<forall>q < 2000. fold (\<lambda>i b. fold (\<lambda>j b. b[j + (i - 1) * 80 := b ! (j + i * 80)]) [0..<80] b) [1..<k] b ! q
         = (if q < (k - 1) * 80 then b ! (q + 80) else b ! q))"
  using assms
proof (induction k rule: dec_induct)
  case (step k)
  let ?r = "fold (\<lambda>i b. fold (\<lambda>j b. b[j + (i - 1) * 80 := b ! (j + i * 80)]) [0..<80] b) [1..<k] b"
  have r: "length ?r = 2000" "\<And>q. q < 2000 \<Longrightarrow> ?r ! q = (if q < (k - 1) * 80 then b ! (q + 80) else b ! q)"
    using step by auto
  have m: "[1..<Suc k] = [1..<k] @ [k]" using step.hyps by simp
  have k: "(Suc k - 1) * 80 = (k - 1) * 80 + 80" "(k - 1) * 80 + 160 \<le> 2000" using step by (auto simp: algebra_simps)
  have v: "k * 80 = (k - 1) * 80 + 80" using step.hyps by (simp add: algebra_simps)
  show ?case unfolding m fold_append using fold_move_row [OF le_refl v, of ?r] step.prems r k by auto
qed simp

lemma fold_fill:
  "n \<le> 80 \<Longrightarrow> length b = 2000 \<Longrightarrow> fold (\<lambda>j b. b[j + 24 * 80 := c]) [0..<n] b = take 1920 b @ replicate n c @ drop (1920 + n) b"
proof (induction n)
  case (Suc n)
  then have "drop (1920 + n) b \<noteq> []" by simp
  then obtain x xs where x: "drop (1920 + n) b = x # xs" by (cases "drop (1920 + n) b") auto
  then have "drop (1920 + Suc n) b = xs" by (metis add_Suc_right drop_Suc list.sel(3) tl_drop)
  then show ?case using Suc x by (simp add: list_update_append replicate_append_same [symmetric] add.commute)
qed simp

definition blank_cell :: "byte \<Rightarrow> u16" where "blank_cell color = vga_entry (ch (CHR '' '')) color"

lemma scroll_buffer:
  assumes "length (terminal_buffer t) = 2000"
  shows "terminal_scroll_line_down t =
    update_cursor (t\<lparr>terminal_buffer := drop 80 (terminal_buffer t) @ replicate 80 (blank_cell (terminal_color t))\<rparr>) 0 23"
proof -
  let ?b = "terminal_buffer t"
  let ?r = "fold (\<lambda>i b. fold (\<lambda>j b. b[j + (i - 1) * 80 := b ! (j + i * 80)]) [0..<80] b) [1..<25] ?b"
  have r: "length ?r = 2000" "\<And>q. q < 2000 \<Longrightarrow> ?r ! q = (if q < 24 * 80 then ?b ! (q + 80) else ?b ! q)"
    using fold_move_rows [of 25 ?b] assms by auto
  have "take 1920 ?r = drop 80 ?b"
    using r assms by (intro nth_equalityI) (auto simp: add.commute)
  then have "fold (\<lambda>j b. b[j + 24 * 80 := blank_cell (terminal_color t)]) [0..<80] ?r = drop 80 ?b @ replicate 80 (blank_cell (terminal_color t))"
    using fold_fill [of 80 ?r "blank_cell (terminal_color t)"] r(1) by simp
  then show ?thesis by (simp only: terminal_scroll_line_down_def blank_cell_def Let_def VGA_HEIGHT_def) simp
qed

section \<open>The cursor registers\<close>

definition cursor_reg :: "terminal \<Rightarrow> u16" where
  "cursor_reg t = ucast (crtc_reg t 0x0F) OR push_bit 8 (ucast (crtc_reg t 0x0E))"

lemma low_high: "ucast (ucast (p AND 0xFF) :: byte) OR push_bit 8 (ucast (ucast (drop_bit 8 p AND 0xFF) :: byte)) = (p :: u16)"
proof (rule bit_word_eqI)
  have m: "(0xFF :: u16) = mask 8" by (simp add: mask_eq_exp_minus_1)
  fix j assume "j < LENGTH(16)"
  then show "bit (ucast (ucast (p AND 0xFF) :: byte) OR push_bit 8 (ucast (ucast (drop_bit 8 p AND 0xFF) :: byte)) :: u16) j = bit p j"
    unfolding m by (cases "j < 8") (auto simp: bit_or_iff bit_push_bit_iff bit_ucast_iff bit_and_iff bit_mask_iff bit_drop_bit_eq)
qed

lemma update_cursor_simps [simp]:
  "cursor_reg (update_cursor t x y) = word_of_int ((y + 1) * 80 + x)"
  "terminal_row (update_cursor t x y) = y" "terminal_column (update_cursor t x y) = x"
  "terminal_buffer (update_cursor t x y) = terminal_buffer t" "terminal_color (update_cursor t x y) = terminal_color t"
  by (simp_all only: update_cursor_def cursor_reg_def out_data_def out_command_def VGA_WIDTH_def Let_def)
    (simp_all add: low_high)

lemma cursor_reg_simps [simp]:
  "cursor_reg (t\<lparr>crtc_index := i\<rparr>) = cursor_reg t" "cursor_reg (t\<lparr>terminal_buffer := b\<rparr>) = cursor_reg t"
  by (simp_all add: cursor_reg_def)

lemma get_cursor_position_eq: "get_cursor_position t = (t\<lparr>crtc_index := 0x0E\<rparr>, cursor_reg t - 80)"
  by (simp add: get_cursor_position_def out_command_def in_data_def cursor_reg_def VGA_WIDTH_def)

section \<open>The screen as a run of cells\<close>

text \<open>
  Abstractly the terminal is its cells and one position in the first 24 rows; a position behind
  them scrolls the cells up by a row.
\<close>

type_synonym screen = "u16 list \<times> nat"

definition scrolled :: "byte \<Rightarrow> screen \<Rightarrow> screen" where
  "scrolled color s = (if snd s = 1920 then (drop 80 (fst s) @ replicate 80 (blank_cell color), 1840) else s)"

definition put_plain :: "byte \<Rightarrow> screen \<Rightarrow> byte \<Rightarrow> screen" where
  "put_plain color s c = scrolled color ((fst s)[snd s := vga_entry c color], snd s + 1)"

definition screen_put :: "byte \<Rightarrow> screen \<Rightarrow> byte \<Rightarrow> screen" where
  "screen_put color s c =
     (if c = 10 then scrolled color (fst s, (snd s div 80 + 1) * 80)
      else if c = 8 then ((fst s)[snd s - 1 := blank_cell color], snd s - 1)
      else if c = 13 then (fst s, snd s div 80 * 80)
      else if c = 9 then (let s = foldl (put_plain color) s (replicate 4 (ch (CHR '' ''))) in scrolled color (fst s, snd s + 1))
      else put_plain color s c)"

definition screen_of :: "terminal \<Rightarrow> screen" where
  "screen_of t = (terminal_buffer t, nat (terminal_row t * 80 + terminal_column t))"

text \<open>The invariant; between the characters of one write the cursor registers may lag behind.\<close>

definition in_screen :: "terminal \<Rightarrow> bool" where
  "in_screen t \<longleftrightarrow> length (terminal_buffer t) = 2000 \<and> 0 \<le> terminal_row t \<and> terminal_row t \<le> 23
     \<and> 0 \<le> terminal_column t \<and> terminal_column t \<le> 79"

definition terminal_ok :: "terminal \<Rightarrow> bool" where
  "terminal_ok t \<longleftrightarrow> in_screen t \<and> cursor_reg t = word_of_int ((terminal_row t + 1) * 80 + terminal_column t)"

lemma screen_of_update [simp]: "screen_of (update_cursor t (terminal_column t) (terminal_row t)) = screen_of t"
  by (simp add: screen_of_def)

lemma terminal_ok_update: "in_screen t \<Longrightarrow> terminal_ok (update_cursor t (terminal_column t) (terminal_row t))"
  by (simp add: terminal_ok_def in_screen_def)

lemma scrolled_other: "snd s \<noteq> 1920 \<Longrightarrow> scrolled color s = s"
  by (simp add: scrolled_def)

lemma next_column_ok:
  assumes "length (terminal_buffer t) = 2000" "0 \<le> terminal_row t" "terminal_row t \<le> 23" "- 1 \<le> terminal_column t" "terminal_column t \<le> 79"
  shows "in_screen (next_column t) \<and> terminal_color (next_column t) = terminal_color t
    \<and> screen_of (next_column t) = scrolled (terminal_color t) (terminal_buffer t, nat (terminal_row t * 80 + terminal_column t + 1))"
proof -
  consider "terminal_column t < 79" | "terminal_column t = 79" "terminal_row t < 23" | "terminal_column t = 79" "terminal_row t = 23"
    using assms by linarith
  then show ?thesis
  proof cases
    case 1
    then have "next_column t = t\<lparr>terminal_column := terminal_column t + 1\<rparr>" by (simp add: next_column_def VGA_WIDTH_def)
    moreover have "nat (terminal_row t * 80 + terminal_column t + 1) \<noteq> 1920" using 1 assms by linarith
    ultimately show ?thesis using 1 assms by (simp add: in_screen_def screen_of_def scrolled_other add.assoc)
  next
    case 2
    then have "next_column t = t\<lparr>terminal_column := 0, terminal_row := terminal_row t + 1\<rparr>"
      by (simp add: next_column_def VGA_WIDTH_def VGA_HEIGHT_def)
    moreover have "nat (terminal_row t * 80 + 80) \<noteq> 1920" using 2 assms by linarith
    ultimately show ?thesis using 2 assms by (simp add: in_screen_def screen_of_def scrolled_other algebra_simps)
  next
    case 3
    then have "next_column t = terminal_scroll_line_down (t\<lparr>terminal_column := 0, terminal_row := 24\<rparr>)"
      by (simp add: next_column_def VGA_WIDTH_def VGA_HEIGHT_def)
    then show ?thesis using 3 assms(1) by (simp add: scroll_buffer in_screen_def screen_of_def scrolled_def)
  qed
qed

lemma putentryat_ok:
  assumes "in_screen t"
  shows "terminal_putentryat t c color (terminal_column t) (terminal_row t) =
    Some (t\<lparr>terminal_buffer := (terminal_buffer t)[snd (screen_of t) := vga_entry c color]\<rparr>)"
proof -
  let ?i = "terminal_row t * 80 + terminal_column t"
  have i: "0 \<le> ?i" "?i < 2000" using assms by (auto simp: in_screen_def)
  then have "(word_of_int ?i :: u64) = of_nat (nat ?i)" "nat ?i < 2 ^ 64" by simp_all
  then have "unat (word_of_int ?i :: u64) = nat ?i" using unat_of_nat_lt [of "nat ?i", where 'a = 64] by simp
  moreover have "nat ?i < 2000" using i by simp
  ultimately show ?thesis using assms by (simp add: terminal_putentryat_def VGA_WIDTH_def in_screen_def screen_of_def Let_def)
qed

text \<open>One character other than the control characters, whatever the cursor registers hold.\<close>

lemma putchar_plain:
  assumes "in_screen t" "c \<notin> {8, 9, 10, 13}"
  shows "\<exists>t'. terminal_putchar t c = Some t' \<and> in_screen t' \<and> terminal_color t' = terminal_color t
     \<and> screen_of t' = put_plain (terminal_color t) (screen_of t) c"
proof -
  let ?t = "t\<lparr>crtc_index := 0x0E\<rparr>"
  let ?u = "?t\<lparr>terminal_buffer := (terminal_buffer t)[snd (screen_of t) := vga_entry c (terminal_color t)]\<rparr>"
  have "in_screen ?t" "screen_of ?t = screen_of t" using assms(1) by (simp_all add: in_screen_def screen_of_def)
  from putentryat_ok [OF this(1), of c "terminal_color t"] this(2)
  have "terminal_putchar t c = Some (next_column ?u)"
    using assms(2) by (simp add: terminal_putchar.simps get_cursor_position_eq)
  moreover have "nat (terminal_row t * 80 + terminal_column t + 1) = snd (screen_of t) + 1"
    using assms(1) by (simp add: screen_of_def in_screen_def nat_add_distrib)
  ultimately show ?thesis
    using next_column_ok [of ?u] assms(1) by (auto simp: in_screen_def put_plain_def screen_of_def)
qed

lemma write_plain:
  "in_screen t \<Longrightarrow> \<forall>c \<in> set cs. c \<notin> {8, 9, 10, 13} \<Longrightarrow>
     \<exists>t'. write_loop t cs = Some t' \<and> in_screen t' \<and> terminal_color t' = terminal_color t
       \<and> screen_of t' = foldl (put_plain (terminal_color t)) (screen_of t) cs"
proof (induction cs arbitrary: t)
  case (Cons c cs)
  then obtain t1 where t1: "terminal_putchar t c = Some t1" "in_screen t1" "terminal_color t1 = terminal_color t"
    "screen_of t1 = put_plain (terminal_color t) (screen_of t) c" using putchar_plain [of t c] by auto
  from Cons.IH [OF t1(2)] Cons.prems(2) t1 show ?case by auto
qed simp

text \<open>The position the cursor registers give, and moving it back.\<close>

definition at_position :: "terminal \<Rightarrow> nat \<Rightarrow> bool" where
  "at_position t p \<longleftrightarrow> p < 1920 \<and> terminal_row t = int (p div 80) \<and> terminal_column t = int (p mod 80)
     \<and> cursor_reg t - 80 = of_nat p \<and> length (terminal_buffer t) = 2000"

lemma pos_split: "(of_nat p :: u16) = of_nat (p div 80) * 80 + of_nat (p mod 80)"
  by (metis div_mult_mod_eq of_nat_add of_nat_mult of_nat_numeral)

lemma terminal_ok_position: "terminal_ok t \<longleftrightarrow> at_position t (snd (screen_of t))"
proof
  assume ok: "terminal_ok t"
  then obtain r c where rc: "terminal_row t = int r" "terminal_column t = int c" "r \<le> 23" "c \<le> 79"
    by (metis in_screen_def nonneg_int_cases of_nat_le_iff of_nat_numeral terminal_ok_def)
  then have "snd (screen_of t) = r * 80 + c" by (simp add: screen_of_def nat_add_distrib nat_mult_distrib)
  then show "at_position t (snd (screen_of t))"
    using ok rc by (auto simp: at_position_def terminal_ok_def in_screen_def algebra_simps)
next
  assume at: "at_position t (snd (screen_of t))"
  then have "snd (screen_of t) div 80 \<le> 23" by (auto simp: at_position_def)
  moreover have "cursor_reg t = of_nat (snd (screen_of t)) + 80" using at by (metis at_position_def diff_add_cancel)
  ultimately show "terminal_ok t"
    using at pos_split [of "snd (screen_of t)"] by (auto simp: at_position_def terminal_ok_def in_screen_def algebra_simps)
qed

lemma at_position_screen: "at_position t p \<Longrightarrow> screen_of t = (terminal_buffer t, p)"
  using div_mult_mod_eq [of p 80] by (simp add: at_position_def screen_of_def nat_add_distrib nat_mult_distrib)

lemma uint_nonneg_pos: "p < 1920 \<Longrightarrow> uint (of_nat p :: u16) = int p"
  by (simp add: uint_nat unat_of_nat_lt)

lemma reverse_cursor_at:
  assumes "cursor_reg t - 80 = of_nat (Suc p)" "Suc p < 1920" "length (terminal_buffer t) = 2000"
  shows "at_position (reverse_cursor t) p \<and> terminal_buffer (reverse_cursor t) = terminal_buffer t
    \<and> terminal_color (reverse_cursor t) = terminal_color t"
proof -
  have "cursor_reg t - 80 - 1 = of_nat p" using assms(1) by simp
  moreover have "uint (of_nat p :: u16) = int p" using assms(2) by (intro uint_nonneg_pos) simp
  ultimately have "reverse_cursor t = update_cursor
      (t\<lparr>crtc_index := 0x0E, terminal_row := int (p div 80), terminal_column := int (p mod 80)\<rparr>) (int (p mod 80)) (int (p div 80))"
    by (simp add: reverse_cursor_def get_cursor_position_eq update_cursor_absolute_def VGA_WIDTH_def zdiv_int zmod_int)
  then show ?thesis using assms(2,3) pos_split [of p] by (simp add: at_position_def algebra_simps)
qed

text \<open>What one call of \<open>terminal_putchar\<close> is to do.\<close>

definition puts_char :: "terminal \<Rightarrow> byte \<Rightarrow> bool" where
  "puts_char t c \<longleftrightarrow> (\<exists>t'. terminal_putchar t c = Some t' \<and> in_screen t' \<and> terminal_color t' = terminal_color t
     \<and> screen_of t' = screen_put (terminal_color t) (screen_of t) c)"

text \<open>The row a control character finds.\<close>

lemma current_row:
  assumes "p < 1920"
  shows "uint (ucast (word_of_int (uint (of_nat p :: u16) div 80) :: u16) :: byte) = int (p div 80)"
    "uint ((ucast (word_of_int (uint (of_nat p :: u16) div 80) :: u16) :: byte) + 1) = int (p div 80) + 1"
proof -
  have r: "p div 80 < 24" using assms by auto
  have "take_bit 16 (p div 80) = p div 80" using r by (intro take_bit_nat_eq_self) simp
  then have "(ucast (of_nat (p div 80) :: u16) :: byte) = of_nat (p div 80)" by (simp add: unsigned_of_nat)
  then have e: "(ucast (word_of_int (uint (of_nat p :: u16) div 80) :: u16) :: byte) = of_nat (p div 80)"
    using zdiv_int [of p 80] unfolding uint_nonneg_pos [OF assms] by (metis of_int_of_nat_eq of_nat_numeral)
  have u: "unat (of_nat (p div 80) :: byte) = p div 80" "unat (of_nat (Suc (p div 80)) :: byte) = Suc (p div 80)"
    using r by (intro unat_of_nat_lt; simp)+
  show "uint (ucast (word_of_int (uint (of_nat p :: u16) div 80) :: u16) :: byte) = int (p div 80)"
    unfolding e unfolding uint_nat u ..
  show "uint ((ucast (word_of_int (uint (of_nat p :: u16) div 80) :: u16) :: byte) + 1) = int (p div 80) + 1"
    unfolding e unfolding of_nat_add_1 uint_nat u by simp
qed

lemma putchar_newline: "at_position t p \<Longrightarrow> puts_char t 10"
proof -
  assume at: "at_position t p"
  then have p: "p < 1920" "length (terminal_buffer t) = 2000" "cursor_reg t - 80 = of_nat p" by (auto simp: at_position_def)
  let ?t = "t\<lparr>crtc_index := 0x0E\<rparr>"
  define u where "u = (if 24 \<le> int (p div 80) + 1 then (terminal_scroll_line_down ?t)\<lparr>terminal_column := - 1\<rparr>
    else update_cursor ?t (- 1) (int (p div 80) + 1))"
  have "terminal_putchar t 10 = Some (next_column u)"
    using p(3) current_row(2) [OF p(1)]
    by (simp add: terminal_putchar.simps get_cursor_position_eq VGA_WIDTH_def VGA_HEIGHT_def u_def)
  moreover have "p div 80 \<le> 23" using p(1) by auto
  then have "in_screen (next_column u) \<and> terminal_color (next_column u) = terminal_color t
      \<and> screen_of (next_column u) = scrolled (terminal_color t) (terminal_buffer t, (p div 80 + 1) * 80)"
    using next_column_ok [of u] p(2) by (auto simp: u_def scroll_buffer scrolled_def nat_add_distrib)
  ultimately show ?thesis using at_position_screen [OF at] by (simp add: puts_char_def screen_put_def)
qed

lemma putchar_return: "at_position t p \<Longrightarrow> puts_char t 13"
proof -
  assume at: "at_position t p"
  then have p: "p < 1920" "length (terminal_buffer t) = 2000" "cursor_reg t - 80 = of_nat p" by (auto simp: at_position_def)
  define u where "u = update_cursor (t\<lparr>crtc_index := 0x0E\<rparr>) (- 1) (int (p div 80))"
  have "terminal_putchar t 13 = Some (next_column u)"
    using p(3) current_row(1) [OF p(1)] by (simp add: terminal_putchar.simps get_cursor_position_eq VGA_WIDTH_def u_def)
  moreover have r: "p div 80 \<le> 23" using p(1) by auto
  then have "p div 80 * 80 \<noteq> 1920" by auto
  then have "in_screen (next_column u) \<and> terminal_color (next_column u) = terminal_color t
      \<and> screen_of (next_column u) = (terminal_buffer t, p div 80 * 80)"
    using next_column_ok [of u] p(2) r by (auto simp: u_def scrolled_def nat_mult_distrib)
  ultimately show ?thesis using at_position_screen [OF at] by (simp add: puts_char_def screen_put_def)
qed

lemma putchar_tab: "in_screen t \<Longrightarrow> puts_char t 9"
proof -
  assume t: "in_screen t"
  let ?t = "t\<lparr>crtc_index := 0x0E\<rparr>"
  have "in_screen ?t" "screen_of ?t = screen_of t" using t by (simp_all add: in_screen_def screen_of_def)
  then obtain u where u: "write_loop ?t (replicate 4 (ch (CHR '' ''))) = Some u" "in_screen u" "terminal_color u = terminal_color t"
    "screen_of u = foldl (put_plain (terminal_color t)) (screen_of t) (replicate 4 (ch (CHR '' '')))"
    using write_plain [of ?t "replicate 4 (ch (CHR '' ''))"] by auto
  define v where "v = update_cursor u (terminal_column u) (terminal_row u)"
  have "terminal_putchar t 9 = Some (next_column v)"
    using u(1) by (simp add: terminal_putchar.simps get_cursor_position_eq v_def)
  moreover have "in_screen (next_column v) \<and> terminal_color (next_column v) = terminal_color t
      \<and> screen_of (next_column v) = scrolled (terminal_color t) (fst (screen_of u), snd (screen_of u) + 1)"
    using next_column_ok [of v] u(2,3) by (auto simp: v_def in_screen_def screen_of_def nat_add_distrib)
  ultimately show ?thesis unfolding u(4) by (simp add: puts_char_def screen_put_def Let_def)
qed

lemma putchar_backspace: "at_position t p \<Longrightarrow> 2 \<le> p \<Longrightarrow> puts_char t 8"
proof -
  assume at: "at_position t p" and "2 \<le> p"
  then obtain q where q: "p = Suc (Suc q)" by (metis add_2_eq_Suc le_Suc_ex)
  have p: "Suc (Suc q) < 1920" "length (terminal_buffer t) = 2000" "cursor_reg t - 80 = of_nat (Suc (Suc q))"
    using at by (auto simp: at_position_def q)
  define u where "u = reverse_cursor (t\<lparr>crtc_index := 0x0E\<rparr>)"
  have u: "at_position u (Suc q)" "terminal_buffer u = terminal_buffer t" "terminal_color u = terminal_color t"
    using reverse_cursor_at [of "t\<lparr>crtc_index := 0x0E\<rparr>" "Suc q"] p unfolding u_def by simp_all
  have "in_screen u" using u(1) terminal_ok_position [of u] at_position_screen [OF u(1)] by (simp add: terminal_ok_def)
  define v where "v = u\<lparr>terminal_buffer := (terminal_buffer t)[Suc q := blank_cell (terminal_color t)]\<rparr>"
  have put: "terminal_putentryat u (ch (CHR '' '')) (terminal_color u) (terminal_column u) (terminal_row u) = Some v"
    using putentryat_ok [OF \<open>in_screen u\<close>] at_position_screen [OF u(1)] u(2,3) by (simp add: v_def blank_cell_def)
  define w where "w = reverse_cursor v"
  have w: "at_position w q" "terminal_buffer w = terminal_buffer v" "terminal_color w = terminal_color t"
    using reverse_cursor_at [of v q] u p by (simp_all add: w_def v_def at_position_def)
  have "terminal_putchar t 8 = Some (next_column w)"
    using put by (simp add: terminal_putchar.simps get_cursor_position_eq w_def u_def [symmetric])
  moreover have "in_screen (next_column w) \<and> terminal_color (next_column w) = terminal_color t
      \<and> screen_of (next_column w) = (terminal_buffer v, Suc q)"
    using next_column_ok [of w] w at_position_screen [OF w(1)] p(1)
    by (auto simp: at_position_def scrolled_def screen_of_def nat_add_distrib)
  ultimately show ?thesis using at_position_screen [OF at] by (simp add: puts_char_def screen_put_def q v_def)
qed

text \<open>Behind the left end of the first row the position wraps to the end of the 16-bit range.\<close>

lemma putentryat_outside:
  "length (terminal_buffer t) = 2000 \<Longrightarrow> 2000 \<le> y * 80 + x \<Longrightarrow> y * 80 + x < 2 ^ 64 \<Longrightarrow> terminal_putentryat t c color x y = None"
proof -
  assume a: "length (terminal_buffer t) = 2000" "2000 \<le> y * 80 + x" "y * 80 + x < 2 ^ 64"
  have "unat (word_of_int (y * 80 + x) :: u64) = nat (y * 80 + x)"
    using a(2,3) unat_of_nat_lt [of "nat (y * 80 + x)", where 'a = 64] by simp
  then show ?thesis using a unfolding terminal_putentryat_def VGA_WIDTH_def by (simp only: Let_def) simp
qed

lemma reverse_cursor_wraps:
  assumes "cursor_reg t - 80 = 0"
  shows "terminal_row (reverse_cursor t) = 819" "terminal_column (reverse_cursor t) = 15"
    "terminal_buffer (reverse_cursor t) = terminal_buffer t"
proof -
  have "(- 1 :: u16) = 65535" by simp
  then have "cursor_reg t - 80 - 1 = 65535" using assms by simp
  then show "terminal_row (reverse_cursor t) = 819" "terminal_column (reverse_cursor t) = 15"
    "terminal_buffer (reverse_cursor t) = terminal_buffer t"
    by (simp_all add: reverse_cursor_def get_cursor_position_eq update_cursor_absolute_def VGA_WIDTH_def Let_def)
qed

lemma backspace_at_0: "at_position t 0 \<Longrightarrow> terminal_putchar t 8 = None"
proof -
  assume at: "at_position t 0"
  let ?u = "reverse_cursor (t\<lparr>crtc_index := 0x0E\<rparr>)"
  have "cursor_reg (t\<lparr>crtc_index := 0x0E\<rparr>) - 80 = 0" using at by (simp add: at_position_def)
  note r = reverse_cursor_wraps [OF this]
  have "length (terminal_buffer ?u) = 2000" using r(3) at by (simp add: at_position_def)
  then have "terminal_putentryat ?u (ch (CHR '' '')) (terminal_color ?u) 15 819 = None" by (rule putentryat_outside) simp_all
  then show ?thesis using r by (simp add: terminal_putchar.simps get_cursor_position_eq)
qed

lemma backspace_at_1:
  assumes "at_position t 1"
  shows "\<exists>t'. terminal_putchar t 8 = Some t' \<and> terminal_row t' = 819 \<and> terminal_column t' = 16 \<and> length (terminal_buffer t') = 2000"
proof -
  have p: "length (terminal_buffer t) = 2000" "cursor_reg t - 80 = of_nat (Suc 0)" using assms by (auto simp: at_position_def)
  define u where "u = reverse_cursor (t\<lparr>crtc_index := 0x0E\<rparr>)"
  have u: "at_position u 0" "terminal_buffer u = terminal_buffer t"
    using reverse_cursor_at [of "t\<lparr>crtc_index := 0x0E\<rparr>" 0] p unfolding u_def by simp_all
  have "in_screen u" using u(1) terminal_ok_position [of u] at_position_screen [OF u(1)] by (simp add: terminal_ok_def)
  define v where "v = u\<lparr>terminal_buffer := (terminal_buffer u)[snd (screen_of u) := vga_entry (ch (CHR '' '')) (terminal_color u)]\<rparr>"
  have put: "terminal_putentryat u (ch (CHR '' '')) (terminal_color u) (terminal_column u) (terminal_row u) = Some v"
    unfolding v_def by (rule putentryat_ok [OF \<open>in_screen u\<close>])
  have "cursor_reg v - 80 = 0" using u(1) by (simp add: v_def at_position_def)
  note r = reverse_cursor_wraps [OF this]
  have "terminal_putchar t 8 = Some (next_column (reverse_cursor v))"
    using put by (simp add: terminal_putchar.simps get_cursor_position_eq u_def [symmetric])
  then show ?thesis using r p(1) u(2) by (simp add: next_column_def VGA_WIDTH_def v_def)
qed

text \<open>
  C34. The terminal implements a run of cells with one position: for every character \<open>putchar\<close> returns,
  keeps the position inside the first 24 rows and the cursor registers equal to it, and changes
  the screen as described by \<open>screen_put\<close>: a plain character fills its cell, the end of the last row
  scrolls the screen by one row, a tab is four blanks and a fifth cell that is passed over.  The
  one exception is a backspace at the first or second place of the screen: it, or the next plain
  character, is written outside the screen.
\<close>

theorem putchar_refines_screen:
  assumes "terminal_ok t"
  shows "if c = 8 \<and> snd (screen_of t) < 2
    then \<forall>x. x \<notin> {8, 9, 10, 13} \<longrightarrow> do { t' \<leftarrow> putchar t c; putchar t' x } = None
    else \<exists>t'. putchar t c = Some t' \<and> terminal_ok t' \<and> terminal_color t' = terminal_color t
           \<and> screen_of t' = screen_put (terminal_color t) (screen_of t) c"
proof (cases "c = 8 \<and> snd (screen_of t) < 2")
  case True
  then consider "at_position t 0" | "at_position t 1"
    using assms terminal_ok_position [of t] by (metis One_nat_def less_2_cases)
  then have "do { t' \<leftarrow> putchar t 8; putchar t' x } = None" if "x \<notin> {8, 9, 10, 13}" for x
  proof cases
    case 1
    then show ?thesis by (simp add: putchar_def terminal_write_def backspace_at_0)
  next
    case 2
    then obtain t' where t': "terminal_putchar t 8 = Some t'" "terminal_row t' = 819" "terminal_column t' = 16"
      "length (terminal_buffer t') = 2000" using backspace_at_1 by blast
    then show ?thesis
      using that by (simp add: putchar_def terminal_write_def terminal_putchar.simps [of _ x] get_cursor_position_eq putentryat_outside)
  qed
  then show ?thesis using True by simp
next
  case False
  have in_s: "in_screen t" and at: "at_position t (snd (screen_of t))"
    using assms terminal_ok_position by (auto simp: terminal_ok_def)
  have "puts_char t c"
  proof (cases "c \<in> {8, 9, 10, 13}")
    case True
    then show ?thesis
      using False putchar_newline [OF at] putchar_return [OF at] putchar_tab [OF in_s] putchar_backspace [OF at] by auto
  next
    case False
    then show ?thesis using putchar_plain [OF in_s False] by (simp add: puts_char_def screen_put_def)
  qed
  then show ?thesis
    using False terminal_ok_update by (auto simp: puts_char_def putchar_def terminal_write_def)
qed

text \<open>An empty screen with the cursor at its first place.\<close>

definition empty_terminal :: terminal where
  "empty_terminal = \<lparr>terminal_row = 0, terminal_column = 0, terminal_color = 10, terminal_buffer = replicate 2000 (blank_cell 10),
     crtc_index = 0, crtc_reg = (\<lambda>_. 0)(0x0F := 80)\<rparr>"

theorem putchar_refines_screen_witness:
  "(\<exists>t'. putchar empty_terminal 65 = Some t' \<and> snd (screen_of t') = 1 \<and> fst (screen_of t') ! 0 = 0x0A41)
   \<and> do { t' \<leftarrow> putchar empty_terminal 8; putchar t' 65 } = None"
proof -
  have s: "screen_of empty_terminal = (replicate 2000 (blank_cell 10), 0)" "terminal_color empty_terminal = 10"
    by (simp_all add: screen_of_def empty_terminal_def)
  have ok: "terminal_ok empty_terminal" by (simp add: terminal_ok_def in_screen_def empty_terminal_def cursor_reg_def)
  have "screen_put 10 (replicate 2000 (blank_cell 10), 0) 65 = ((replicate 2000 (blank_cell 10))[0 := 0x0A41], 1)"
    by (simp add: screen_put_def put_plain_def scrolled_def vga_entry_def)
  then show ?thesis
    using putchar_refines_screen [OF ok, of 65] putchar_refines_screen [OF ok, of 8] s by auto
qed

end
