(* ===== verification/FileOps.thy ===== *)
theory FileOps
  imports Disk Vfs
begin

text \<open>
  The file descriptors of the kernel build, \<open>libc/file_op\<close>: \<open>file_op.c\<close>, \<open>list_dir.c\<close> and
  \<open>path_exists.c\<close>.  The descriptor table, the heap that holds the copies of the paths, the tree of
  \<open>Vfs\<close> and the disks are one state; buffers are addresses in the memory of the heap.  The buffers
  the file system allocates and releases inside one call are not tracked.  \<open>None\<close> is an index
  outside the table or a call that does not return.
\<close>

section \<open>State\<close>

record fdp =
  file_path :: u64
  current_offset :: u64
  flags :: int

definition MAX_NUM_OF_FILE_DESCRIPTORS :: nat where "MAX_NUM_OF_FILE_DESCRIPTORS = 256"
definition O_RDONLY :: int where "O_RDONLY = 0"
definition O_WRONLY :: int where "O_WRONLY = 1"
definition O_RDWR :: int where "O_RDWR = 2"
definition SEEK_SET :: int where "SEEK_SET = 0"
definition SEEK_CUR :: int where "SEEK_CUR = 1"
definition SEEK_END :: int where "SEEK_END = 2"

record files =
  fheap :: heap_mem
  fdp_arr :: "fdp list"
  ftree :: vfs
  fdisk :: "u64 \<Rightarrow> disk_reader"

definition fdp_null :: fdp where
  "fdp_null = \<lparr>file_path = 0, current_offset = 0, flags = 0\<rparr>"

definition init_fdp_arr :: "files \<Rightarrow> files" where
  "init_fdp_arr s = s\<lparr>fdp_arr := replicate MAX_NUM_OF_FILE_DESCRIPTORS fdp_null\<rparr>"

text \<open>The memory, and a memory with other contents.\<close>

abbreviation fmem :: "files \<Rightarrow> mem" where "fmem s \<equiv> bytes (fheap s)"

definition set_fmem :: "files \<Rightarrow> mem \<Rightarrow> files" where
  "set_fmem s m = s\<lparr>fheap := (fheap s)\<lparr>bytes := m\<rparr>\<rparr>"

text \<open>The bytes of the C string at an address, as the file system reads it.\<close>

definition path_at :: "mem \<Rightarrow> u64 \<Rightarrow> byte list option" where
  "path_at m p = do { n \<leftarrow> strlen m p; Some (bytes_at m p (unat n)) }"

text \<open>The entry of a descriptor; the array has no other entries.\<close>

definition fdp_at :: "files \<Rightarrow> int \<Rightarrow> fdp option" where
  "fdp_at s f = (if 0 \<le> f \<and> nat f < length (fdp_arr s) then Some (fdp_arr s ! nat f) else None)"

definition set_offset :: "files \<Rightarrow> int \<Rightarrow> u64 \<Rightarrow> files" where
  "set_offset s f off = s\<lparr>fdp_arr := (fdp_arr s)[nat f := (fdp_arr s ! nat f)\<lparr>current_offset := off\<rparr>]\<rparr>"

section \<open>Operations\<close>

definition path_exists :: "files \<Rightarrow> u64 \<Rightarrow> int option" where
  "path_exists s path_ptr = do { p \<leftarrow> path_at (fmem s) path_ptr; vfs_path_exists (ftree s) (fdisk s) p }"

definition list_dir :: "files \<Rightarrow> u64 \<Rightarrow> byte list list option" where
  "list_dir s path_ptr = do { p \<leftarrow> path_at (fmem s) path_ptr; vfs_list_dir (ftree s) (fdisk s) p }"

text \<open>The path is copied without its terminator.\<close>

definition open_slot :: "files \<Rightarrow> u64 \<Rightarrow> int \<Rightarrow> nat \<Rightarrow> (files \<times> int) option" where
  "open_slot s path_ptr fl i =
     do { path_size \<leftarrow> strlen (fmem s) path_ptr;
          (h, path_copy) \<leftarrow> malloc (fheap s) path_size;
          let s = set_fmem (s\<lparr>fheap := h\<rparr>) (fst (memcpy (bytes h) path_copy path_ptr path_size));
          Some (s\<lparr>fdp_arr := (fdp_arr s)[i := \<lparr>file_path = path_copy, current_offset = 0, flags = fl\<rparr>]\<rparr>, int i) }"

definition open_c :: "files \<Rightarrow> u64 \<Rightarrow> int \<Rightarrow> (files \<times> int) option" where
  "open_c s path_ptr fl =
     do { e \<leftarrow> path_exists s path_ptr;
          if e = 0 then Some (s, - 1)
          else case find (\<lambda>i. file_path (fdp_arr s ! i) = 0) [0..<MAX_NUM_OF_FILE_DESCRIPTORS] of
              Some i \<Rightarrow> open_slot s path_ptr fl i
            | None \<Rightarrow> Some (s, - 1) }"

text \<open>On success \<open>close\<close> ends without a return value: \<open>None\<close> as the result.\<close>

definition close :: "files \<Rightarrow> int \<Rightarrow> (files \<times> int option) option" where
  "close s f =
     do { d \<leftarrow> fdp_at s f;
          if file_path d = 0 then Some (s, Some (- 1))
          else do { h \<leftarrow> free (fheap s) (file_path d);
                    Some (s\<lparr>fheap := h, fdp_arr := (fdp_arr s)[nat f := d\<lparr>file_path := 0\<rparr>]\<rparr>, None) } }"

definition read :: "files \<Rightarrow> int \<Rightarrow> u64 \<Rightarrow> u64 \<Rightarrow> (files \<times> int) option" where
  "read s f buf cnt =
     do { d \<leftarrow> fdp_at s f;
          if \<not> (flags d = O_RDONLY \<or> flags d = O_RDWR) then Some (s, - 3)
          else if file_path d = 0 then Some (s, - 1)
          else do { p \<leftarrow> path_at (fmem s) (file_path d);
                    (n, bs) \<leftarrow> vfs_read (ftree s) (fdisk s) p (current_offset d) cnt;
                    let cnt_read = (word_of_int n :: u64);
                    let s = set_fmem s (put_bytes (fmem s) buf bs);
                    Some (set_offset s f (current_offset d + (cnt_read - 1)), sint cnt_read) } }"

definition write_c :: "files \<Rightarrow> int \<Rightarrow> u64 \<Rightarrow> u64 \<Rightarrow> (files \<times> int) option" where
  "write_c s f buf cnt =
     do { d \<leftarrow> fdp_at s f;
          if \<not> (flags d = O_WRONLY \<or> flags d = O_RDWR) then Some (s, - 3)
          else if file_path d = 0 then Some (s, - 1)
          else do { p \<leftarrow> path_at (fmem s) (file_path d);
                    let (v, n) = vfs_write (ftree s) p (current_offset d) cnt (bytes_at (fmem s) buf (unat cnt));
                    let cnt_wrote = (word_of_int n :: u64);
                    Some (set_offset (s\<lparr>ftree := v\<rparr>) f (current_offset d + (cnt_wrote - 1)), sint cnt_wrote) } }"

text \<open>The comparison of \<open>SEEK_END\<close> is made on unsigned numbers, where it always holds.\<close>

definition lseek :: "files \<Rightarrow> int \<Rightarrow> u64 \<Rightarrow> int \<Rightarrow> (files \<times> int) option" where
  "lseek s f offset whence =
     do { d \<leftarrow> fdp_at s f;
          if file_path d = 0 then Some (s, - 1)
          else do { p \<leftarrow> path_at (fmem s) (file_path d);
                    n \<leftarrow> vfs_get_file_size (ftree s) (fdisk s) p;
                    let file_size = (word_of_int n :: u64);
                    let seek = (\<lambda>off. Some (set_offset s f off, sint off));
                    if whence = SEEK_SET then (if offset < file_size then seek offset else Some (s, - 3))
                    else if whence = SEEK_CUR then
                      (if offset + current_offset d < file_size then seek (current_offset d + offset) else Some (s, - 3))
                    else if whence = SEEK_END then
                      (if 0 \<le> file_size - offset - 1 then seek (file_size - offset - 1) else Some (s, - 3))
                    else Some (s, sint (current_offset d)) } }"

section \<open>Strings in memory\<close>

lemma path_at_cstr: "cstr m p s \<Longrightarrow> path_at m p = Some s"
proof -
  assume s: "cstr m p s"
  then have "unat (of_nat (length s) :: u64) = length s" using cstr_length by (intro unat_of_nat_lt) simp
  moreover have "bytes_at m p (length s) = s" using cstr_nth [OF s] by (intro nth_equalityI) auto
  ultimately show ?thesis by (simp add: path_at_def strlen_eq [OF s])
qed

lemma cstr_bytes_cong:
  assumes "cstr m p s" "bytes_at m' p (Suc (length s)) = bytes_at m p (Suc (length s))"
  shows "cstr m' p s"
proof -
  have "m' (p + of_nat i) = m (p + of_nat i)" if "i < Suc (length s)" for i
    using that assms(2) by (metis nth_bytes_at)
  then show ?thesis using cstr_nth [OF assms(1)] cstr_end [OF assms(1)] cstr_no_nul [OF assms(1)] by (intro cstrI) auto
qed

text \<open>A buffer that shares no byte with a string and its terminator.\<close>

definition apart :: "u64 \<Rightarrow> byte list \<Rightarrow> u64 \<Rightarrow> nat \<Rightarrow> bool" where
  "apart p s b n \<longleftrightarrow> unat p + length s < 2 ^ 64 \<and> unat b + n \<le> 2 ^ 64 \<and> (unat p + length s < unat b \<or> unat b + n \<le> unat p)"

lemma cstr_put_apart: "cstr m p s \<Longrightarrow> apart p s b (length bs) \<Longrightarrow> cstr (put_bytes m b bs) p s"
  unfolding apart_def by (rule cstr_bytes_cong, assumption, rule bytes_at_put_other) linarith+

section \<open>Files\<close>

text \<open>
  \<open>file_at v rd p bs cont\<close>: the path \<open>p\<close> leads to a file of an ext2 file system with blocks of \<open>bs\<close>
  bytes, and the bytes of the file are \<open>cont\<close>.
\<close>

definition ext2_file :: "vfs \<Rightarrow> (u64 \<Rightarrow> disk_reader) \<Rightarrow> byte list \<Rightarrow> filesystem_data \<Rightarrow> u64 \<Rightarrow> bool" where
  "ext2_file v rd p fs ino_num \<longleftrightarrow>
     (let r = vfs_get_node v p; d = rd (disk_number fs) in
      case found_node r of None \<Rightarrow> False
      | Some n \<Rightarrow> vtype (nodes v n) = VFS_NODE_TYPE_FILE_SYSTEM \<and> vdata (nodes v n) = Mounted fs
          \<and> fs_type fs = FILESYSTEM_TYPE_EXT2 \<and> ino_num \<noteq> 0
          \<and> ext2_get_inode_number_at_path d fs (ext2_read_super_block d fs) (fs_path r) = Some ino_num)"

definition file_at :: "vfs \<Rightarrow> (u64 \<Rightarrow> disk_reader) \<Rightarrow> byte list \<Rightarrow> nat \<Rightarrow> byte list \<Rightarrow> bool" where
  "file_at v rd p bs cont \<longleftrightarrow>
     (\<exists>fs ino_num ino img past. let d = disk_data img past; sb = ext2_read_super_block d fs; w = s_block_get_block_size sb in
        ext2_file v rd p fs ino_num \<and> rd (disk_number fs) = d \<and> unat w = bs \<and> bs mod 512 = 0 \<and> 0 < bs
        \<and> unat (start_offset fs) mod 512 = 0 \<and> ext2_read_inode_metadata d fs sb ino_num = Some ino
        \<and> ext2_get_inode_size d fs sb ino_num = Some (of_nat (length cont)) \<and> length cont < 2 ^ 63
        \<and> list_all (\<lambda>i. cont ! i = file_byte d img fs w ino i) [0..<length cont])"

lemma ext2_file_ops:
  assumes "ext2_file v rd p fs ino_num" "rd (disk_number fs) = d"
  shows "vfs_read v rd p off n = map_option (\<lambda>bs. (int (length bs), bs)) (ext2_read_inode d fs (ext2_read_super_block d fs) ino_num off n)"
    "vfs_get_file_size v rd p = map_option sint (ext2_get_inode_size d fs (ext2_read_super_block d fs) ino_num)"
    "ext2_read_inode_metadata d fs (ext2_read_super_block d fs) ino_num = Some ino \<Longrightarrow> \<exists>e. vfs_path_exists v rd p = Some e \<and> e \<noteq> 0"
proof -
  obtain n where f: "found_node (vfs_get_node v p) = Some n" "vtype (nodes v n) = VFS_NODE_TYPE_FILE_SYSTEM"
      "vdata (nodes v n) = Mounted fs" "fs_type fs = FILESYSTEM_TYPE_EXT2" "ino_num \<noteq> 0"
      "ext2_get_inode_number_at_path d fs (ext2_read_super_block d fs) (fs_path (vfs_get_node v p)) = Some ino_num"
    using assms unfolding ext2_file_def Let_def by (auto split: option.splits)
  show "vfs_read v rd p off n = map_option (\<lambda>bs. (int (length bs), bs)) (ext2_read_inode d fs (ext2_read_super_block d fs) ino_num off n)" for off n
    by (cases "ext2_read_inode d fs (ext2_read_super_block d fs) ino_num off n") (simp_all add: vfs_read_def Let_def f assms(2))
  show "vfs_get_file_size v rd p = map_option sint (ext2_get_inode_size d fs (ext2_read_super_block d fs) ino_num)"
    by (cases "ext2_get_inode_size d fs (ext2_read_super_block d fs) ino_num") (simp_all add: vfs_get_file_size_def Let_def f assms(2))
  show "ext2_read_inode_metadata d fs (ext2_read_super_block d fs) ino_num = Some ino \<Longrightarrow> \<exists>e. vfs_path_exists v rd p = Some e \<and> e \<noteq> 0"
    by (simp add: vfs_path_exists_def Let_def f assms(2))
qed

lemma file_atE:
  assumes "file_at v rd p bs cont"
  obtains fs ino_num ino img past d sb w where "ext2_file v rd p fs ino_num" "rd (disk_number fs) = d" "d = disk_data img past"
      "sb = ext2_read_super_block d fs" "w = s_block_get_block_size sb" "unat w = bs" "bs mod 512 = 0" "0 < bs"
      "unat (start_offset fs) mod 512 = 0" "ext2_read_inode_metadata d fs sb ino_num = Some ino"
      "ext2_get_inode_size d fs sb ino_num = Some (of_nat (length cont))" "length cont < 2 ^ 63"
      "\<And>i. i < length cont \<Longrightarrow> cont ! i = file_byte d img fs w ino i"
  using assms by (auto simp: file_at_def Let_def list_all_iff)

lemma file_size:
  assumes "file_at v rd p bs cont"
  shows "vfs_get_file_size v rd p = Some (int (length cont))"
  using assms
proof (rule file_atE)
  fix fs ino_num d sb
  assume f: "ext2_file v rd p fs ino_num" "rd (disk_number fs) = d" "sb = ext2_read_super_block d fs"
    "ext2_get_inode_size d fs sb ino_num = Some (of_nat (length cont))" "length cont < 2 ^ 63"
  then have "sint (of_nat (length cont) :: u64) = int (length cont)"
    by (simp add: signed_of_nat signed_take_bit_int_eq_self)
  then show ?thesis using ext2_file_ops(2) [OF f(1,2)] f(3,4) by simp
qed

lemma file_exists: "file_at v rd p bs cont \<Longrightarrow> \<exists>e. vfs_path_exists v rd p = Some e \<and> e \<noteq> 0"
  by (erule file_atE) (metis ext2_file_ops(3))

lemma file_vfs_read:
  assumes "file_at v rd p bs cont" "0 < unat n" "unat off < length cont"
    and "unat off mod bs = 0 \<and> unat off + unat n < 2 ^ 64 \<or> unat off mod 512 + unat n \<le> 512 \<and> unat off + unat n \<le> length cont"
  shows "vfs_read v rd p off n = Some (int (length (take (unat n) (drop (unat off) cont))), take (unat n) (drop (unat off) cont))"
  using assms(1)
proof (rule file_atE)
  let ?bs = "take (unat n) (drop (unat off) cont)"
  fix fs ino_num ino img past d sb w
  assume f: "ext2_file v rd p fs ino_num" "rd (disk_number fs) = d" "d = disk_data img past"
      "sb = ext2_read_super_block d fs" "w = s_block_get_block_size sb" "unat w = bs" "bs mod 512 = 0" "0 < bs"
      "unat (start_offset fs) mod 512 = 0" "ext2_read_inode_metadata d fs sb ino_num = Some ino"
      "ext2_get_inode_size d fs sb ino_num = Some (of_nat (length cont))" "length cont < 2 ^ 63"
      "\<And>i. i < length cont \<Longrightarrow> cont ! i = file_byte d img fs w ino i"
  have len: "unat (of_nat (length cont) :: u64) = length cont" using f(12) by (intro unat_of_nat_lt) simp
  have part: "map (file_byte d img fs w ino) [unat off..<min (length cont) (unat off + unat n)] = ?bs"
    using assms(3) by (intro nth_equalityI) (auto simp: f(13) nth_upt less_diff_conv)
  have "ext2_read_inode d fs sb ino_num off n = Some ?bs"
  proof (cases "unat off mod bs = 0 \<and> unat off + unat n < 2 ^ 64")
    case True
    then have "ext2_read_inode d fs sb ino_num off n =
        Some (map (file_byte d img fs w ino) [unat off..<min (unat (of_nat (length cont) :: u64)) (unat off + unat n)])"
      unfolding f(3) by (intro image.ext2_read_inode_aligned) (use f assms(2,3) len in \<open>simp_all add: word_less_nat_alt\<close>)
    then show ?thesis by (simp only: part len)
  next
    case False
    then have r: "unat off mod 512 + unat n \<le> 512" "unat off + unat n \<le> length cont" using assms(4) by auto
    then have "ext2_read_inode d fs sb ino_num off n = Some (map (file_byte d img fs w ino) [unat off..<unat off + unat n])"
      unfolding f(3) by (intro image.ext2_read_inode_sector [where len = "of_nat (length cont)"]) (use f assms(2) len in simp_all)
    then show ?thesis using part r by (simp add: min_absorb2)
  qed
  then show ?thesis using ext2_file_ops(1) [OF f(1,2)] f(4) by simp
qed

section \<open>Descriptors\<close>

lemma set_offset_simps [simp]:
  "fheap (set_offset s f off) = fheap s" "ftree (set_offset s f off) = ftree s" "fdisk (set_offset s f off) = fdisk s"
  "fheap (set_fmem s m) = (fheap s)\<lparr>bytes := m\<rparr>" "ftree (set_fmem s m) = ftree s" "fdisk (set_fmem s m) = fdisk s"
  "fdp_arr (set_fmem s m) = fdp_arr s" "fdp_at (set_fmem s m) f = fdp_at s f"
  "length (fdp_arr (set_offset s f off)) = length (fdp_arr s)"
  by (simp_all add: set_offset_def set_fmem_def fdp_at_def)

lemma fdp_at_set_offset [simp]:
  "fdp_at s f = Some d \<Longrightarrow> fdp_at (set_offset s f off) f = Some (d\<lparr>current_offset := off\<rparr>)"
  by (auto simp: fdp_at_def set_offset_def split: if_splits)

text \<open>A descriptor through which a file can be read.\<close>

definition opened :: "files \<Rightarrow> int \<Rightarrow> fdp \<Rightarrow> byte list \<Rightarrow> nat \<Rightarrow> byte list \<Rightarrow> bool" where
  "opened s f d p bs cont \<longleftrightarrow> fdp_at s f = Some d \<and> (flags d = O_RDONLY \<or> flags d = O_RDWR) \<and> file_path d \<noteq> 0
     \<and> cstr (fmem s) (file_path d) p \<and> file_at (ftree s) (fdisk s) p bs cont"

text \<open>The reads the file system serves exactly: from the start of a block, or inside one sector.\<close>

definition readable :: "nat \<Rightarrow> byte list \<Rightarrow> nat \<Rightarrow> nat \<Rightarrow> bool" where
  "readable bs cont off n \<longleftrightarrow> 0 < n \<and> off < length cont \<and>
     (off mod bs = 0 \<and> off + n < 2 ^ 64 \<or> off mod 512 + n \<le> 512 \<and> off + n \<le> length cont)"

lemma opened_length: "opened s f d p bs cont \<Longrightarrow> length cont < 2 ^ 63"
  unfolding opened_def by (auto elim: file_atE)

lemma read_file:
  assumes "opened s f d p bs cont" "readable bs cont (unat (current_offset d)) (unat n)"
  defines "dat \<equiv> take (unat n) (drop (unat (current_offset d)) cont)"
  shows "read s f buf n = Some (set_offset (set_fmem s (put_bytes (fmem s) buf dat)) f (current_offset d + (of_nat (length dat) - 1)), int (length dat))"
proof -
  have "vfs_read (ftree s) (fdisk s) p (current_offset d) n = Some (int (length dat), dat)"
    using file_vfs_read [of "ftree s" "fdisk s" p bs cont n "current_offset d"] assms by (simp add: opened_def readable_def)
  moreover have "length dat < 2 ^ 63" using opened_length [OF assms(1)] by (simp add: dat_def)
  then have "sint (of_nat (length dat) :: u64) = int (length dat)" by (simp add: signed_of_nat signed_take_bit_int_eq_self)
  ultimately show ?thesis
    using assms(1) path_at_cstr [of "fmem s" "file_path d" p] by (simp add: read_def opened_def Let_def)
qed

lemma opened_after_read:
  assumes "opened s f d p bs cont" "apart (file_path d) p buf (length dat)"
  shows "opened (set_offset (set_fmem s (put_bytes (fmem s) buf dat)) f off) f (d\<lparr>current_offset := off\<rparr>) p bs cont"
  using assms cstr_put_apart [of "fmem s" "file_path d" p buf dat] by (simp add: opened_def)

section \<open>The descriptor table\<close>

text \<open>Every path in use is a block of its own on the heap.\<close>

definition files_ok :: "files \<Rightarrow> u64 set \<Rightarrow> bool" where
  "files_ok s P \<longleftrightarrow> length (fdp_arr s) = MAX_NUM_OF_FILE_DESCRIPTORS \<and> live (fheap s) P \<and>
     (\<forall>i < MAX_NUM_OF_FILE_DESCRIPTORS. file_path (fdp_arr s ! i) \<noteq> 0 \<longrightarrow> file_path (fdp_arr s ! i) \<in> P \<and>
        (\<forall>j < MAX_NUM_OF_FILE_DESCRIPTORS. file_path (fdp_arr s ! j) = file_path (fdp_arr s ! i) \<longrightarrow> j = i))"

text \<open>The string at \<open>p\<close>, terminator included, lies in the live block \<open>q\<close>.\<close>

definition string_in :: "heap_mem \<Rightarrow> u64 \<Rightarrow> u64 \<Rightarrow> byte list \<Rightarrow> bool" where
  "string_in h q p s \<longleftrightarrow> cstr (bytes h) p s \<and> p = q + of_nat (unat (p - q)) \<and> unat (p - q) + length s < length (contents h q)"

lemma block_part:
  assumes "live h P" "q \<in> P" "live h' P'" "q \<in> P'" "contents h' q = contents h q" "i + n \<le> length (contents h q)"
  shows "bytes_at (bytes h') (q + of_nat i) n = bytes_at (bytes h) (q + of_nat i) n"
  using contents_bytes [OF assms(1,2)] contents_bytes [OF assms(3,4)] assms(5,6) by (metis take_drop_bytes_at)

lemma string_in_keep:
  assumes "string_in h q p s" "live h P" "q \<in> P" "live h' P'" "q \<in> P'" "contents h' q = contents h q"
  shows "string_in h' q p s"
proof -
  have "bytes_at (bytes h') (q + of_nat (unat (p - q))) (Suc (length s)) = bytes_at (bytes h) (q + of_nat (unat (p - q))) (Suc (length s))"
    using assms(1) by (intro block_part [OF assms(2-6)]) (simp add: string_in_def)
  then show ?thesis using assms(1,6) cstr_bytes_cong [of "bytes h" p s "bytes h'"] by (simp add: string_in_def)
qed

lemma aalign_aalign: "aalign (aalign n 16) 16 = aalign n 16"
proof -
  have "16 * k mod 16 = (0 :: u64)" for k
    by (simp add: word_unat_eq_iff unat_mod unat_word_ariths mod_mult2_eq [of _ 16 "2 ^ 60", simplified])
  from this [of "n div 16 + 1"] show ?thesis unfolding aalign_def by (simp only: mult.commute [of _ 16]) simp
qed

lemma malloc_aalign: "malloc h (aalign n 16) = malloc h n"
  by (simp add: malloc_def aalign_aalign)

lemma open_slot_copies:
  assumes "files_ok s P" "q \<in> P" "string_in (fheap s) q pp p" "length p mod 16 \<noteq> 0" "length p < 2 ^ 30"
    "unat (heap_end (heap (fheap s))) + 2 ^ 32 \<le> 2 ^ 64"
  shows "\<exists>h c. open_slot s pp fl i = Some (s\<lparr>fheap := h, fdp_arr := (fdp_arr s)[i := \<lparr>file_path = c, current_offset = 0, flags = fl\<rparr>]\<rparr>, int i)
    \<and> live h (insert c P) \<and> c \<notin> P \<and> c \<noteq> 0 \<and> string_in h c c p \<and> (\<forall>b \<in> P. contents h b = contents (fheap s) b)
    \<and> (\<exists>h1. malloc (fheap s) (of_nat (length p)) = Some (h1, c) \<and> h = h1\<lparr>bytes := put_bytes (bytes h1) c p\<rparr>)"
proof -
  let ?n = "of_nat (length p) :: u64"
  have cs: "cstr (fmem s) pp p" and off: "pp = q + of_nat (unat (pp - q))" "unat (pp - q) + length p < length (contents (fheap s) q)"
    using assms(3) by (simp_all add: string_in_def)
  have un: "unat ?n = length p" using assms(5) by (intro unat_of_nat_lt) simp
  have al: "length p < unat (aalign ?n 16)" "unat (aalign ?n 16) < length p + 16"
  proof -
    have b: "unat ?n \<le> unat (aalign ?n 16)" "unat (aalign ?n 16) < unat ?n + unat (16 :: u64)" "unat (16 :: u64) dvd unat (aalign ?n 16)"
      using aalign_bounds [of 16 ?n] un assms(5) by simp_all
    then show "unat (aalign ?n 16) < length p + 16" by (simp add: un)
    have "length p \<noteq> unat (aalign ?n 16)" using b(3) assms(4) by auto
    then show "length p < unat (aalign ?n 16)" using b(1) un by simp
  qed
  have live: "live (fheap s) P" using assms(1) by (simp add: files_ok_def)
  obtain h1 c where m: "malloc (fheap s) ?n = Some (h1, c)" "live h1 (insert c P)" "c \<notin> P" "c \<noteq> 0"
      "unat (aalign ?n 16) \<le> length (contents h1 c)" "set (contents h1 c) \<subseteq> {0}" "\<forall>b \<in> P. contents h1 b = contents (fheap s) b"
    using kernel_heap.alloc_law [OF live, of "aalign ?n 16"] al(2) assms(5,6) by (auto simp: ready_def malloc_aalign)
  have s1: "string_in h1 q pp p" using m assms(2) by (intro string_in_keep [OF assms(3) live assms(2) m(2)]) auto
  let ?h = "h1\<lparr>bytes := put_bytes (bytes h1) c p\<rparr>"
  have p: "bytes_at (bytes h1) pp (length p) = p"
    using s1 cstr_nth by (intro nth_equalityI) (auto simp: string_in_def)
  have "fst (memcpy (bytes h1) (c + of_nat 0) (q + of_nat (unat (pp - q))) ?n) = put_bytes (bytes h1) (c + of_nat 0) (bytes_at (bytes h1) (q + of_nat (unat (pp - q))) (unat ?n))"
    using m al un off(2) assms(2) by (intro memcpy_blocks [OF m(2)]) auto
  then have cp: "fst (memcpy (bytes h1) c pp ?n) = put_bytes (bytes h1) c p" using off(1) un p by simp
  have o: "open_slot s pp fl i = Some (s\<lparr>fheap := ?h, fdp_arr := (fdp_arr s)[i := \<lparr>file_path = c, current_offset = 0, flags = fl\<rparr>]\<rparr>, int i)"
    by (simp add: open_slot_def strlen_eq [OF cs] m(1) cp set_fmem_def Let_def)
  have len: "length p < length (contents h1 c)" using m(5) al(1) by linarith
  have b: "contents ?h b = contents (fheap s) b" if "b \<in> P" for b
    using store_in_block [OF m(2), of c b p] m(3,7) that len by auto
  have "cstr (put_bytes (bytes h1) c p) c p"
  proof (rule cstrI)
    show "put_bytes (bytes h1) c p (c + of_nat j) = p ! j" if "j < length p" for j
      using that assms(5) by (intro put_bytes_in) auto
    show "0 \<notin> set p" by (rule cstr_no_nul [OF cs])
    have "bytes h1 (c + ?n) = contents h1 c ! length p" using contents_bytes [OF m(2), of c] len by (metis insertI1 nth_bytes_at)
    also have "\<dots> = 0" using m(6) len nth_mem by fastforce
    finally show "put_bytes (bytes h1) c p (c + ?n) = 0" by (simp add: put_bytes_out un)
  qed
  then have "string_in ?h c c p" using len by (simp add: string_in_def)
  then show ?thesis using o b m(1-4) by (intro exI [of _ ?h] exI [of _ c]) simp
qed

lemma close_frees:
  assumes "files_ok s P" "i < MAX_NUM_OF_FILE_DESCRIPTORS" "file_path (fdp_arr s ! i) \<noteq> 0" "freeable (fheap s) (file_path (fdp_arr s ! i))"
  shows "\<exists>h. close s (int i) = Some (s\<lparr>fheap := h, fdp_arr := (fdp_arr s)[i := (fdp_arr s ! i)\<lparr>file_path := 0\<rparr>]\<rparr>, None)
    \<and> live h (P - {file_path (fdp_arr s ! i)}) \<and> (\<forall>b \<in> P - {file_path (fdp_arr s ! i)}. contents h b = contents (fheap s) b)"
proof -
  have f: "live (fheap s) P" "file_path (fdp_arr s ! i) \<in> P" "length (fdp_arr s) = MAX_NUM_OF_FILE_DESCRIPTORS"
    using assms(1-3) by (auto simp: files_ok_def)
  from kernel_heap.dealloc_law [OF f(1,2) assms(4)] show ?thesis
    using assms(2,3) f(3) by (auto simp: close_def fdp_at_def)
qed

lemma files_ok_open:
  assumes "files_ok s P" "live h (insert c P)" "c \<notin> P" "i < MAX_NUM_OF_FILE_DESCRIPTORS"
  shows "files_ok (s\<lparr>fheap := h, fdp_arr := (fdp_arr s)[i := \<lparr>file_path = c, current_offset = off, flags = fl\<rparr>]\<rparr>) (insert c P)"
  using assms by (auto simp: files_ok_def nth_list_update)

lemma files_ok_close:
  assumes "files_ok s P" "live h (P - {file_path (fdp_arr s ! i)})" "i < MAX_NUM_OF_FILE_DESCRIPTORS" "file_path d = 0"
  shows "files_ok (s\<lparr>fheap := h, fdp_arr := (fdp_arr s)[i := d]\<rparr>) (P - {file_path (fdp_arr s ! i)})"
  using assms by (auto simp: files_ok_def nth_list_update)

lemma find_upt_cases:
  "(find Q [0..<n] = None \<and> (\<forall>i < n. \<not> Q i)) \<or> (\<exists>i < n. find Q [0..<n] = Some i \<and> Q i \<and> (\<forall>j < i. \<not> Q j))"
proof (cases "find Q [0..<n]")
  case None
  then have "\<forall>i < n. \<not> Q i" by (simp add: find_None_iff)
  then show ?thesis using None by blast
next
  case (Some i)
  then show ?thesis using find_upt_SomeD [OF Some] by auto
qed

section \<open>A file system with one file\<close>

text \<open>
  For the examples: a disk with an ext2 file system of 1 KB blocks, mounted at the root of the tree,
  whose inode 2 has the bytes \<open>cont\<close> in block 7.
\<close>

definition file_img :: "byte list \<Rightarrow> u64 \<Rightarrow> byte" where
  "file_img cont a =
     (if 7168 \<le> a \<and> unat (a - 7168) < length cont then cont ! unat (a - 7168)
      else if a = 1064 then 8 else if a = 1080 then 0x53 else if a = 1081 then 0xEF else if a = 1112 then 0x80
      else if a = 2056 then 5 else if a = 5252 then of_nat (length cont) else if a = 5288 then 7 else 0)"

definition mounted_root :: vfs where
  "mounted_root = \<lparr>nodes = (\<lambda>_. \<lparr>vtype = VFS_NODE_TYPE_FILE_SYSTEM, vname = lit ''/'', vdata = Mounted small_fs\<rparr>), next_node = 1, vfs_root = 0\<rparr>"

lemma le16_disk_data:
  assumes "unat offset mod 512 + unat sz \<le> 512 * ((unat sz + 511) div 512)" "i + 2 \<le> unat sz"
  shows "le16 (disk_data img past offset sz) i = of_le [img (offset + of_nat i), img (offset + of_nat (i + 1))]"
proof -
  have "disk_data img past offset sz = bytes_at img offset (unat sz)"
    using assms(1) by (auto simp: disk_data_def bytes_at_def Let_def)
  moreover have "field (bytes_at img offset (unat sz)) i 2 = map (\<lambda>j. img (offset + of_nat j)) [i, i + 1]"
    using assms(2) by (intro nth_equalityI) (auto simp: field_def nth_Cons' less_Suc_eq numeral_eq_Suc add_ac)
  ultimately show ?thesis by (simp add: le16_def)
qed

lemma file_img_super:
  fixes cont past
  defines "d \<equiv> disk_data (file_img cont) past"
  defines "sb \<equiv> ext2_read_super_block d small_fs"
  shows "s_block_get_block_size sb = 1024" "number_of_inodes_per_group sb = 8" "inode_size sb = 128"
proof -
  have v: "file_img cont 1048 = 0" "file_img cont 1049 = 0" "file_img cont 1050 = 0" "file_img cont 1051 = 0" "file_img cont 1064 = 8"
    "file_img cont 1065 = 0" "file_img cont 1066 = 0" "file_img cont 1067 = 0" "file_img cont 1080 = 0x53" "file_img cont 1081 = 0xEF"
    "file_img cont 1112 = 0x80" "file_img cont 1113 = 0"
    by (simp_all add: file_img_def)
  have m: "le16 (d 1024 1024) 56 = 0xEF53" "le32 (d 1024 1024) 24 = 0" "le32 (d 1024 1024) 40 = 8" "le16 (d 1024 1024) 88 = 128"
    by (simp_all add: d_def le16_disk_data le32_disk_data v of_le_def)
  then show "s_block_get_block_size sb = 1024" "number_of_inodes_per_group sb = 8" "inode_size sb = 128"
    by (simp_all add: sb_def ext2_read_super_block_def small_fs_def Let_def decode_super_block_def s_block_get_block_size_def)
qed

lemma file_img_inode:
  fixes cont past
  assumes "length cont < 256"
  defines "d \<equiv> disk_data (file_img cont) past"
  defines "sb \<equiv> ext2_read_super_block d small_fs"
  shows "\<exists>ino. ext2_read_inode_metadata d small_fs sb 2 = Some ino \<and> i_block ino ! 0 = 7"
    "ext2_get_inode_size d small_fs sb 2 = Some (of_nat (length cont))"
proof -
  have v: "file_img cont 2056 = 5" "file_img cont 2057 = 0" "file_img cont 2058 = 0" "file_img cont 2059 = 0"
    "file_img cont 5252 = of_nat (length cont)" "file_img cont 5253 = 0" "file_img cont 5254 = 0" "file_img cont 5255 = 0"
    "file_img cont 5288 = 7" "file_img cont 5289 = 0" "file_img cont 5290 = 0" "file_img cont 5291 = 0"
    "file_img cont 5356 = 0" "file_img cont 5357 = 0" "file_img cont 5358 = 0" "file_img cont 5359 = 0"
    by (simp_all add: file_img_def)
  note sbs = file_img_super [of cont past, folded d_def, folded sb_def]
  have "start_block_inode_table (ext2_read_block_group_descriptor d small_fs sb 0) = 5"
    by (simp add: ext2_read_block_group_descriptor_def sizeof_block_group_descriptor_def decode_block_group_descriptor_def
        small_fs_def le32_disk_data d_def of_le_def sbs v)
  then have ino: "ext2_read_inode_metadata d small_fs sb 2 = Some (decode_inode (d 5248 128))"
    by (simp add: ext2_read_inode_metadata_def Let_def sbs small_fs_def)
  have "le32 (d 5248 128) 40 = 7" "le32 (d 5248 128) 108 = 0" "le32 (d 5248 128) 4 = of_nat (length cont)"
    using assms(1) by (simp_all add: d_def le32_disk_data v of_le_def word_unat_eq_iff unsigned_ucast_eq unat_of_nat take_bit_nat_eq_self)
  moreover from this(3) have "ucast (le32 (d 5248 128) 4) = (of_nat (length cont) :: u64)"
    using assms(1) by (simp add: word_unat_eq_iff unsigned_ucast_eq unat_of_nat take_bit_nat_eq_self)
  ultimately show "\<exists>ino. ext2_read_inode_metadata d small_fs sb 2 = Some ino \<and> i_block ino ! 0 = 7"
      "ext2_get_inode_size d small_fs sb 2 = Some (of_nat (length cont))"
    by (simp_all add: ext2_get_inode_size_def ino decode_inode_def)
qed

lemma mounted_file:
  assumes "length cont < 256"
  shows "file_at mounted_root (\<lambda>_. disk_data (file_img cont) past) (lit ''/'') 1024 cont"
proof -
  let ?d = "disk_data (file_img cont) past"
  let ?sb = "ext2_read_super_block ?d small_fs"
  note sbs = file_img_super [of cont past] and ino = file_img_inode [OF assms, of past]
  obtain i where i: "ext2_read_inode_metadata ?d small_fs ?sb 2 = Some i" "i_block i ! 0 = 7" using ino(1) by blast
  have f: "ext2_file mounted_root (\<lambda>_. ?d) (lit ''/'') small_fs 2"
    by (simp add: ext2_file_def vfs_get_node_def preprocess_path_def strip_trailing.simps PATH_SEPERATOR_def isspace_def skip_root_def vfs_walk.simps
        mounted_root_def fs_path_def ext2_get_inode_number_at_path_def EXT2_ROOT_INODE_def small_fs_def)
  have "cont ! k = file_byte ?d (file_img cont) small_fs 1024 i k" if "k < length cont" for k
  proof -
    have k: "k < 256" "unat (of_nat k :: u64) = k" using that assms by (auto intro!: unat_of_nat_lt)
    then have "nth_block ?d small_fs 1024 i (of_nat (k div 1024)) = 7" by (simp add: nth_block_def i(2))
    moreover have "unat (7168 + of_nat k :: u64) = 7168 + k" using k by (subst unat_add_of_nat) simp_all
    then have "file_img cont (7168 + of_nat k) = cont ! k" using k that by (simp add: file_img_def word_le_nat_alt)
    ultimately show ?thesis using k by (simp add: file_byte_def block_offset_def small_fs_def)
  qed
  then show ?thesis
    unfolding file_at_def Let_def using f i(1) ino(2) sbs assms
    by (intro exI [of _ small_fs] exI [of _ 2] exI [of _ i] exI [of _ "file_img cont"] exI [of _ past]) (simp add: list_all_iff small_fs_def)
qed

section \<open>Properties\<close>


text \<open>The file system of one file with an empty table, and the path in a heap block.\<close>

definition closed_files :: "byte list \<Rightarrow> heap_mem \<Rightarrow> files" where
  "closed_files cont h = \<lparr>fheap = h, fdp_arr = replicate 256 fdp_null, ftree = mounted_root,
     fdisk = (\<lambda>_. disk_data (file_img cont) (\<lambda>_. 0))\<rparr>"

lemma closed_files_ready:
  obtains h q where "files_ok (closed_files cont h) {q}" "string_in (fheap (closed_files cont h)) q q (lit ''/'')"
    "unsorted_bin_head (heap (fheap (closed_files cont h))) = 0" "heap_end (heap (fheap (closed_files cont h))) = 0x2000080"
proof -
  have inv: "heap_inv fresh_heap [] []" unfolding fresh_heap_def by (rule init_heap_inv) simp
  then have live: "live fresh_heap {}" by (auto simp: live_def)
  have e: "heap_end (heap fresh_heap) = 0x2000040" "unsorted_bin_head (heap fresh_heap) = 0"
    by (simp_all add: fresh_heap_def init_heap_def brk_def aalign_def Let_def)
  obtain h q where h: "malloc fresh_heap 16 = Some (h, q)" "live h {q}" "16 \<le> length (contents h q)" "set (contents h q) \<subseteq> {0}"
    using kernel_heap.alloc_law [OF live, of 16] e by (auto simp: ready_def)
  have "malloc fresh_heap 16 = Some (h, q) \<Longrightarrow> unsorted_bin_head (heap h) = 0 \<and> heap_end (heap h) = 0x2000080"
    by (simp add: malloc_def Let_def find_free.simps grow_heap_def sbrk_def link_allocated_eq e aalign_def max_def) (auto simp: e)
  note he = this [OF h(1)]
  let ?h = "h\<lparr>bytes := put_bytes (bytes h) q (lit ''/'')\<rparr>"
  have "bytes h (q + of_nat 1) = contents h q ! 1" using contents_bytes [OF h(2)] h(3)
    by (metis insertI1 less_le_trans nth_bytes_at one_less_numeral_iff semiring_norm(76))
  also have "\<dots> = 0" using h(3,4) nth_mem [of 1 "contents h q"] by (metis less_le_trans one_less_numeral_iff semiring_norm(76) singletonD subsetD)
  finally have "string_in (fheap (closed_files cont ?h)) q q (lit ''/'')" using h(3) by (simp add: string_in_def closed_files_def put_bytes_single)
  moreover have "files_ok (closed_files cont ?h) {q}"
    using h(2) by (simp add: files_ok_def closed_files_def MAX_NUM_OF_FILE_DESCRIPTORS_def fdp_null_def)
  ultimately show ?thesis using that [of ?h q] he by (simp add: closed_files_def)
qed

lemma closed_files_simps [simp]:
  "length (fdp_arr (closed_files cont h)) = 256" "i < 256 \<Longrightarrow> file_path (fdp_arr (closed_files cont h) ! i) = 0"
  by (simp_all add: closed_files_def fdp_null_def)

lemma closed_files_file:
  "length cont < 256 \<Longrightarrow> file_at (ftree (closed_files cont h)) (fdisk (closed_files cont h)) (lit ''/'') 1024 cont"
  using mounted_file [of cont "\<lambda>_. 0"] by (simp add: closed_files_def)



text \<open>Descriptor 3 open for reading on a file of three bytes.\<close>

definition three_bytes :: files where
  "three_bytes = \<lparr>fheap = fresh_heap\<lparr>bytes := put_bytes (\<lambda>_. 0) 0x100 (lit ''/'')\<rparr>,
     fdp_arr = (replicate 256 fdp_null)[3 := \<lparr>file_path = 0x100, current_offset = 0, flags = O_RDONLY\<rparr>],
     ftree = mounted_root, fdisk = (\<lambda>_. disk_data (file_img (lit ''ABC'')) (\<lambda>_. 0))\<rparr>"


end
