(* ===== verification/Elf.thy ===== *)
theory Elf
  imports FileOps
begin

text \<open>
  The loader of program files, \<open>kernel/process/elf.c\<close> with the structures of
  \<open>kernel/include/elf.h\<close> it uses.  Headers are records decoded from the memory they were read into;
  the output of \<open>readelf -h\<close> for \<open>print\<close> is left out.
\<close>

section \<open>Headers\<close>

record Elf64_Ehdr =
  e_ident :: "byte list"
  e_type :: u16
  e_machine :: u16
  e_version :: u32
  e_entry :: u64
  e_phoff :: u64
  e_shoff :: u64
  e_flags :: u32
  e_ehsize :: u16
  e_phentsize :: u16
  e_phnum :: u16
  e_shentsize :: u16
  e_shnum :: u16
  e_shstrndx :: u16

record Elf64_Phdr =
  p_type :: u32
  p_flags :: u32
  p_offset :: u64
  p_vaddr :: u64
  p_paddr :: u64
  p_filesz :: u64
  p_memsz :: u64
  p_align :: u64

definition EI_NIDENT :: nat where "EI_NIDENT = 16"
definition ELFMAG :: "byte list" where "ELFMAG = 0x7F # lit ''ELF''"
definition EI_CLASS :: nat where "EI_CLASS = 4"
definition ELFCLASS64 :: byte where "ELFCLASS64 = 2"
definition EI_DATA :: nat where "EI_DATA = 5"
definition ELFDATA2LSB :: byte where "ELFDATA2LSB = 1"
definition PT_LOAD :: u32 where "PT_LOAD = 1"
definition sizeof_Elf64_Ehdr :: u64 where "sizeof_Elf64_Ehdr = 64"

definition le64 :: "byte list \<Rightarrow> nat \<Rightarrow> u64" where "le64 b i = of_le (field b i 8)"

definition decode_ehdr :: "byte list \<Rightarrow> Elf64_Ehdr" where
  "decode_ehdr b =
     \<lparr>e_ident = take EI_NIDENT b, e_type = le16 b 16, e_machine = le16 b 18, e_version = le32 b 20, e_entry = le64 b 24,
      e_phoff = le64 b 32, e_shoff = le64 b 40, e_flags = le32 b 48, e_ehsize = le16 b 52, e_phentsize = le16 b 54,
      e_phnum = le16 b 56, e_shentsize = le16 b 58, e_shnum = le16 b 60, e_shstrndx = le16 b 62\<rparr>"

definition decode_phdr :: "byte list \<Rightarrow> Elf64_Phdr" where
  "decode_phdr b =
     \<lparr>p_type = le32 b 0, p_flags = le32 b 4, p_offset = le64 b 8, p_vaddr = le64 b 16, p_paddr = le64 b 24,
      p_filesz = le64 b 32, p_memsz = le64 b 40, p_align = le64 b 48\<rparr>"

definition ehdr_at :: "files \<Rightarrow> u64 \<Rightarrow> Elf64_Ehdr" where "ehdr_at s p = decode_ehdr (bytes_at (fmem s) p 64)"
definition phdr_at :: "files \<Rightarrow> u64 \<Rightarrow> Elf64_Phdr" where "phdr_at s p = decode_phdr (bytes_at (fmem s) p 56)"

section \<open>Loading\<close>

definition fmalloc :: "files \<Rightarrow> u64 \<Rightarrow> (files \<times> u64) option" where
  "fmalloc s n = do { (h, p) \<leftarrow> malloc (fheap s) n; Some (s\<lparr>fheap := h\<rparr>, p) }"

definition ffree :: "files \<Rightarrow> u64 \<Rightarrow> files option" where
  "ffree s p = do { h \<leftarrow> free (fheap s) p; Some (s\<lparr>fheap := h\<rparr>) }"

definition fmemcpy :: "files \<Rightarrow> u64 \<Rightarrow> u64 \<Rightarrow> u64 \<Rightarrow> files" where
  "fmemcpy s dst src n = set_fmem s (fst (memcpy (fmem s) dst src n))"

text \<open>The results of \<open>lseek\<close> and \<open>read\<close> are ignored.\<close>

definition readelf_header :: "files \<Rightarrow> int \<Rightarrow> (files \<times> u64) option" where
  "readelf_header s f =
     do { (s, elf_ehdr) \<leftarrow> fmalloc s sizeof_Elf64_Ehdr;
          if elf_ehdr = 0 then Some (s, 0)
          else do { (s, _) \<leftarrow> lseek s f 0 SEEK_SET;
                    (s, _) \<leftarrow> read s f elf_ehdr sizeof_Elf64_Ehdr;
                    let ident = e_ident (ehdr_at s elf_ehdr);
                    if take 4 ident \<noteq> ELFMAG then Some (s, 0)
                    else if ident ! EI_CLASS \<noteq> ELFCLASS64 then Some (s, 0)
                    else if ident ! EI_DATA \<noteq> ELFDATA2LSB then Some (s, 0)
                    else Some (s, elf_ehdr) } }"

definition read_segment :: "files \<Rightarrow> u64 \<Rightarrow> u64 \<Rightarrow> int \<Rightarrow> (files \<times> u64) option" where
  "read_segment s elf_ehdr elf_phdr f =
     do { (s, elf_ps) \<leftarrow> fmalloc s (ucast (e_phentsize (ehdr_at s elf_ehdr)) + p_filesz (phdr_at s elf_phdr));
          let s = fmemcpy s elf_ps elf_phdr (ucast (e_phentsize (ehdr_at s elf_ehdr)));
          (s, _) \<leftarrow> lseek s f (p_offset (phdr_at s elf_phdr)) SEEK_SET;
          (s, _) \<leftarrow> read s f (elf_ps + ucast (e_phentsize (ehdr_at s elf_ehdr))) (p_filesz (phdr_at s elf_phdr));
          s \<leftarrow> ffree s elf_phdr;
          Some (s, elf_ps) }"

definition readelf_ps :: "files \<Rightarrow> u64 \<Rightarrow> int \<Rightarrow> (files \<times> u64) option" where
  "readelf_ps s elf_ehdr f =
     do { (s, elf_phdr) \<leftarrow> fmalloc s (ucast (e_phentsize (ehdr_at s elf_ehdr)));
          (s, _) \<leftarrow> lseek s f (e_phoff (ehdr_at s elf_ehdr)) SEEK_SET;
          (s, _) \<leftarrow> read s f elf_phdr (ucast (e_phentsize (ehdr_at s elf_ehdr)));
          if p_type (phdr_at s elf_phdr) \<noteq> PT_LOAD then Some (s, 0)
          else read_segment s elf_ehdr elf_phdr f }"

definition readelf :: "files \<Rightarrow> u64 \<Rightarrow> u64 \<Rightarrow> (files \<times> u64) option" where
  "readelf s dst path_ptr =
     do { (s, f) \<leftarrow> open_c s path_ptr O_RDONLY;
          (s, elf_ehdr) \<leftarrow> readelf_header s f;
          if elf_ehdr = 0 then do { s \<leftarrow> ffree s elf_ehdr; Some (s, 0) }
          else do { (s, elf_ps) \<leftarrow> readelf_ps s elf_ehdr f;
                    if elf_ps = 0 then do { s \<leftarrow> ffree s elf_ehdr; s \<leftarrow> ffree s elf_ps; Some (s, 0) }
                    else do { let s = fmemcpy s dst (elf_ps + ucast (e_phentsize (ehdr_at s elf_ehdr))) (p_filesz (phdr_at s elf_ps));
                              (s, _) \<leftarrow> close s f;
                              s \<leftarrow> ffree s elf_ehdr;
                              s \<leftarrow> ffree s elf_ps;
                              Some (s, dst) } } }"

section \<open>Heaps without free chunks\<close>

text \<open>The newest allocated chunk has no stale back pointer, so every block can be given back.\<close>

definition tidy :: "heap_mem \<Rightarrow> bool" where
  "tidy h \<longleftrightarrow> bk (chunk h (mchunk (heap h))) = 0 \<or> mchunk (heap h) = 0"

lemma tidy_bytes [simp]: "tidy (h\<lparr>bytes := m\<rparr>) = tidy h"
  by (simp add: tidy_def)

lemma tidy_freeable: "tidy h \<Longrightarrow> live h P \<Longrightarrow> p \<in> P \<Longrightarrow> freeable h p"
proof -
  assume t: "tidy h" and "live h P" "p \<in> P"
  then obtain as bs a where "heap_inv h as bs" "a \<in> set as" "p = a + 32" by (auto simp: live_def)
  then have "p - 32 \<noteq> 0" using heap_inv_nonzero [of h as bs] by auto
  then show "freeable h p" using t by (auto simp: tidy_def freeable_def)
qed

lemma tidy_dll: "heap_inv h as bs \<Longrightarrow> tidy h \<longleftrightarrow> dll (chunk h) (mchunk (heap h)) 0 as"
  by (cases as) (auto simp: heap_inv_def tidy_def)

lemma malloc_tidy:
  assumes "unsorted_bin_head (heap h) = 0" "malloc h n = Some (h', p)"
  shows "tidy h' \<and> unsorted_bin_head (heap h') = 0"
  using assms by (subst (asm) malloc_def)
    (auto simp: Let_def find_free.simps [of _ 0] grow_heap_def sbrk_def link_allocated_eq tidy_def split: if_splits)

lemma malloc_heap_end:
  assumes "unsorted_bin_head (heap h) = 0" "malloc h n = Some (h', p)" "unat n \<le> 2 ^ 31" "unat (heap_end (heap h)) + 2 ^ 33 \<le> 2 ^ 64"
  shows "unat (heap_end (heap h')) \<le> unat (heap_end (heap h)) + unat n + 192"
proof -
  let ?sz = "ucast (sizeof_malloc_chunk + max (HEAP_CHUNK_MIN_SIZE_BYTES - sizeof_malloc_chunk) (aalign n 16)) :: u32"
  have e: "heap_end (heap h') = heap_end (heap h) + aalign (ucast ?sz) 64"
    using assms(1,2) by (subst (asm) malloc_def)
      (auto simp: Let_def find_free.simps [of _ 0] grow_heap_def sbrk_def link_allocated_eq split: if_splits)
  have "unat (aalign n 16) < unat n + 16" using assms(3) aalign_bounds(2) [of 16 n] by simp
  then have sz: "unat ?sz \<le> unat n + 80" using grow_size [OF assms(3)] by simp
  have u: "unat (ucast x :: u64) = unat x" for x :: u32 using unat_lt_32 [of x] by (simp add: unsigned_ucast_eq take_bit_nat_eq_self)
  have "unat (aalign (ucast ?sz) 64) < unat ?sz + 64"
    using aalign_bounds(2) [of 64 "ucast ?sz :: u64"] sz assms(3) unfolding u [of ?sz] by simp
  then have "unat (aalign (ucast ?sz) 64) \<le> unat n + 192" using sz by linarith
  moreover have "unat (heap_end (heap h')) \<le> unat (heap_end (heap h)) + unat (aalign (ucast ?sz) 64)"
    unfolding e by (simp add: unat_word_ariths)
  ultimately show ?thesis by linarith
qed

lemma free_tidy:
  assumes "live h P" "tidy h" "p \<in> P" "free h p = Some h'"
  shows "tidy h'"
proof -
  obtain as bs a where inv: "heap_inv h as bs" and a: "a \<in> set as" "p = a + 32" using assms(1,3) by (auto simp: live_def)
  have q: "dll (chunk h) (unsorted_bin_head (heap h)) 0 bs" and d: "distinct (as @ bs)" and w: "wdll (chunk h) (mchunk (heap h)) as"
    using inv by (auto simp: heap_inv_def)
  have nz: "0 \<notin> set (as @ bs)" by (rule heap_inv_nonzero [OF inv])
  have qa: "unsorted_bin_head (heap h) \<noteq> a" using dll_first [OF q] a d nz by (auto split: list.splits)
  have h': "h' = link_free (unlink_allocated h a) a"
    using assms(4) a nz by (auto simp: free_def find_data_eq [OF w] find_data_found [OF inv a(1)])
  obtain xs ys where as: "as = xs @ a # ys" using a by (meson split_list)
  have t: "dll (unlink_ck (chunk h) a) (if bk (chunk h a) = 0 then fd (chunk h a) else mchunk (heap h)) 0 (xs @ ys)"
    using tidy_dll [OF inv] assms(2) d unfolding as by (intro dll_unlink) auto
  have "dll (chunk h') (mchunk (heap h')) 0 (xs @ ys)"
    unfolding h' using t qa d as nz dll_first [OF q]
    by (subst dll_cong [of "xs @ ys" _ "unlink_ck (chunk h) a"]) (auto simp: link_free_eq unlink_allocated_eq link_ck_def split: list.splits if_splits)
  then show ?thesis by (cases "xs @ ys") (auto simp: tidy_def)
qed

text \<open>\<open>free\<close> clears the block and writes no other byte.\<close>

lemma free_bytes:
  assumes "live h P" "p \<in> P" "free h p = Some h'"
  shows "bytes h' = put_bytes (bytes h) p (replicate (length (contents h p)) 0)"
proof -
  obtain as bs a where inv: "heap_inv h as bs" and a: "a \<in> set as" "p = a + 32" using assms(1,2) by (auto simp: live_def)
  have q: "dll (chunk h) (unsorted_bin_head (heap h)) 0 bs" and d: "distinct (as @ bs)" and w: "wdll (chunk h) (mchunk (heap h)) as"
    and bl: "blocks_ok (chunk h) (unat (g_heap_malloc_state_base h) + 64) (unat (heap_end (heap h))) (set (as @ bs))"
    using inv by (auto simp: heap_inv_def)
  have nz: "0 \<notin> set (as @ bs)" by (rule heap_inv_nonzero [OF inv])
  have qa: "unsorted_bin_head (heap h) \<noteq> a" using dll_first [OF q] a d nz by (auto split: list.splits)
  have h': "h' = link_free (unlink_allocated h a) a"
    using assms(3) a nz by (auto simp: free_def find_data_eq [OF w] find_data_found [OF inv a(1)])
  have a64: "64 \<le> unat (mchunk_size (chunk h a))" using bl a by (auto simp: blocks_ok_def)
  have "data (chunk h a) = p" using heap_inv_data [OF inv] a by simp
  then show ?thesis unfolding h' using qa a(2)
    by (simp add: link_free_eq unlink_allocated_eq unat_data_size [OF a64] contents_def payload_def)
qed

section \<open>Reading a file into heap blocks\<close>

text \<open>
  \<open>session s0 f p bs cont P d s\<close>: in the state \<open>s\<close>, reached from \<open>s0\<close>, descriptor \<open>f\<close> is open for reading
  on the file \<open>cont\<close> at path \<open>p\<close>, and \<open>P\<close> are the live heap blocks.
\<close>

definition session :: "files \<Rightarrow> int \<Rightarrow> byte list \<Rightarrow> nat \<Rightarrow> byte list \<Rightarrow> u64 set \<Rightarrow> fdp \<Rightarrow> files \<Rightarrow> bool" where
  "session s0 f p bs cont P d s \<longleftrightarrow> live (fheap s) P \<and> tidy (fheap s) \<and> ftree s = ftree s0 \<and> fdisk s = fdisk s0
     \<and> 0 \<le> f \<and> nat f < length (fdp_arr s0) \<and> fdp_arr s = (fdp_arr s0)[nat f := d] \<and> flags d = O_RDONLY
     \<and> file_path d \<in> P \<and> file_path d \<noteq> 0 \<and> string_in (fheap s) (file_path d) (file_path d) p
     \<and> file_at (ftree s0) (fdisk s0) p bs cont"

lemma session_opened: "session s0 f p bs cont P d s \<Longrightarrow> opened s f d p bs cont"
  by (auto simp: session_def opened_def string_in_def fdp_at_def)

lemma session_malloc:
  assumes "session s0 f p bs cont P d s" "unsorted_bin_head (heap (fheap s)) = 0" "unat n \<le> 2 ^ 30"
    "unat (heap_end (heap (fheap s))) + 2 ^ 33 \<le> 2 ^ 64"
  shows "\<exists>s' b. fmalloc s n = Some (s', b) \<and> session s0 f p bs cont (insert b P) d s' \<and> b \<notin> P \<and> b \<noteq> 0
    \<and> unat n \<le> length (contents (fheap s') b) \<and> (\<forall>q \<in> P. contents (fheap s') q = contents (fheap s) q)
    \<and> unsorted_bin_head (heap (fheap s')) = 0 \<and> unat (heap_end (heap (fheap s'))) \<le> unat (heap_end (heap (fheap s))) + unat n + 192"
proof -
  have l: "live (fheap s) P" and q: "file_path d \<in> P" "string_in (fheap s) (file_path d) (file_path d) p"
    using assms(1) by (simp_all add: session_def)
  obtain h b where m: "malloc (fheap s) n = Some (h, b)" "live h (insert b P)" "b \<notin> P" "b \<noteq> 0" "unat n \<le> length (contents h b)"
      "\<forall>q \<in> P. contents h q = contents (fheap s) q"
    using kernel_heap.alloc_law [OF l, of n] assms(3,4) by (auto simp: ready_def)
  have "string_in h (file_path d) (file_path d) p" using m(6) q by (intro string_in_keep [OF q(2) l q(1) m(2)]) auto
  then have "session s0 f p bs cont (insert b P) d (s\<lparr>fheap := h\<rparr>)"
    using assms(1) m(2) malloc_tidy [OF assms(2) m(1)] by (simp add: session_def)
  moreover have "unat n \<le> 2 ^ 31" using assms(3) by simp
  note malloc_heap_end [OF assms(2) m(1) this assms(4)]
  ultimately show ?thesis
    using m malloc_tidy [OF assms(2) m(1)] by (intro exI [of _ "s\<lparr>fheap := h\<rparr>"] exI [of _ b]) (simp add: fmalloc_def)
qed

lemma session_seek:
  assumes "session s0 f p bs cont P d s" "unat off < length cont"
  shows "\<exists>s' r. lseek s f off SEEK_SET = Some (s', r) \<and> session s0 f p bs cont P (d\<lparr>current_offset := off\<rparr>) s' \<and> fheap s' = fheap s"
proof -
  have o: "opened s f d p bs cont" by (rule session_opened [OF assms(1)])
  then have sz: "vfs_get_file_size (ftree s) (fdisk s) p = Some (int (length cont))" "path_at (fmem s) (file_path d) = Some p"
    by (auto simp: opened_def intro: file_size path_at_cstr)
  have "unat (of_nat (length cont) :: u64) = length cont" using opened_length [OF o] by (intro unat_of_nat_lt) simp
  then have "off < of_nat (length cont)" using assms(2) by (simp add: word_less_nat_alt)
  then have "lseek s f off SEEK_SET = Some (set_offset s f off, sint off)"
    using o sz by (simp add: lseek_def opened_def Let_def)
  moreover have "session s0 f p bs cont P (d\<lparr>current_offset := off\<rparr>) (set_offset s f off)"
    using assms(1) by (auto simp: session_def set_offset_def)
  ultimately show ?thesis by (metis set_offset_simps(1))
qed

text \<open>A write inside one block leaves the other blocks alone.\<close>

lemma store_inside:
  assumes "live h P" "b \<in> P" "q \<in> P" "q \<noteq> b" "j + length bs \<le> length (contents h b)"
  shows "contents (h\<lparr>bytes := put_bytes (bytes h) (b + of_nat j) bs\<rparr>) q = contents h q"
proof (cases "bs = []")
  case True
  then show ?thesis by simp
next
  case False
  then have "0 < length bs" by simp
  then have u: "unat (b + of_nat j) = unat b + j" using live_bound [OF assms(1,2)] assms(5) by (intro unat_add_of_nat) linarith
  have "bytes_at (put_bytes (bytes h) (b + of_nat j) bs) q (length (contents h q)) = bytes_at (bytes h) q (length (contents h q))"
    using live_bound [OF assms(1)] assms kernel_heap.apart_law [OF assms(1,2,3)] u
    by (intro bytes_at_put_other) fastforce+
  then show ?thesis using contents_with_bytes [OF assms(1,3)] contents_bytes [OF assms(1,3)] by simp
qed

lemma session_store:
  assumes "session s0 f p bs cont P d s" "b \<in> P" "b \<noteq> file_path d" "j + length dat \<le> length (contents (fheap s) b)"
  defines "s' \<equiv> set_fmem s (put_bytes (fmem s) (b + of_nat j) dat)"
  shows "session s0 f p bs cont P d s'" "\<And>q. q \<in> P \<Longrightarrow> q \<noteq> b \<Longrightarrow> contents (fheap s') q = contents (fheap s) q"
    "bytes_at (fmem s') (b + of_nat j) (length dat) = dat" "bytes_at (fmem s') b j = bytes_at (fmem s) b j"
proof -
  have l: "live (fheap s) P" using assms(1) by (simp add: session_def)
  show c: "contents (fheap s') q = contents (fheap s) q" if "q \<in> P" "q \<noteq> b" for q
    unfolding s'_def using store_inside [OF l assms(2) that assms(4)] by simp
  have fp: "file_path d \<in> P" "string_in (fheap s) (file_path d) (file_path d) p" using assms(1) by (simp_all add: session_def)
  have l': "live (fheap s') P" using l by (simp add: s'_def)
  have "string_in (fheap s') (file_path d) (file_path d) p"
    using fp assms(3) c by (intro string_in_keep [OF fp(2) l fp(1) l']) auto
  then show "session s0 f p bs cont P d s'" using assms(1) by (simp add: session_def s'_def)
  have lb: "unat b + length (contents (fheap s) b) \<le> 2 ^ 64" by (rule live_bound [OF l assms(2)])
  then show "bytes_at (fmem s') (b + of_nat j) (length dat) = dat" using assms(4) by (simp add: s'_def)
  show "bytes_at (fmem s') b j = bytes_at (fmem s) b j"
  proof (cases "dat = []")
    case True
    then show ?thesis by (simp add: s'_def)
  next
    case False
    then have "0 < length dat" by simp
    then have u: "unat (b + of_nat j) = unat b + j" using lb assms(4) by (intro unat_add_of_nat) linarith
    then show ?thesis using lb assms(4) by (simp add: s'_def bytes_at_put_other)
  qed
qed

lemma session_offset: "session s0 f p bs cont P d s \<Longrightarrow> session s0 f p bs cont P (d\<lparr>current_offset := off\<rparr>) (set_offset s f off)"
  by (auto simp: session_def set_offset_def)

lemma session_read:
  assumes "session s0 f p bs cont P d s" "readable bs cont (unat (current_offset d)) (unat n)"
    and "b \<in> P" "b \<noteq> file_path d" "j + unat n \<le> length (contents (fheap s) b)"
  defines "dat \<equiv> take (unat n) (drop (unat (current_offset d)) cont)"
  shows "\<exists>s' r d'. read s f (b + of_nat j) n = Some (s', r) \<and> session s0 f p bs cont P d' s' \<and> file_path d' = file_path d
    \<and> heap (fheap s') = heap (fheap s) \<and> (\<forall>q \<in> P. length (contents (fheap s') q) = length (contents (fheap s) q))
    \<and> (\<forall>q \<in> P - {b}. contents (fheap s') q = contents (fheap s) q)
    \<and> bytes_at (fmem s') (b + of_nat j) (length dat) = dat \<and> bytes_at (fmem s') b j = bytes_at (fmem s) b j"
proof -
  let ?s = "set_fmem s (put_bytes (fmem s) (b + of_nat j) dat)" and ?o = "current_offset d + (of_nat (length dat) - 1)"
  have j: "j + length dat \<le> length (contents (fheap s) b)" using assms(5) by (simp add: dat_def)
  note st = session_store [OF assms(1,3,4) j]
  have r: "read s f (b + of_nat j) n = Some (set_offset ?s f ?o, int (length dat))"
    unfolding dat_def by (rule read_file [OF session_opened [OF assms(1)] assms(2)])
  show ?thesis
    using r session_offset [OF st(1)] st(2-4)
    by (intro exI [of _ "set_offset ?s f ?o"] exI [of _ "int (length dat)"] exI [of _ "d\<lparr>current_offset := ?o\<rparr>"]) simp
qed

section \<open>A program file\<close>

text \<open>
  A file that \<open>readelf\<close> accepts: a 64-bit little-endian program whose first program header is a
  loadable segment, with both the header and the segment in reach of an exact read.
\<close>

definition elf_file :: "nat \<Rightarrow> byte list \<Rightarrow> Elf64_Ehdr \<Rightarrow> Elf64_Phdr \<Rightarrow> bool" where
  "elf_file bs cont eh ph \<longleftrightarrow> 64 \<le> length cont \<and> eh = decode_ehdr (take 64 cont) \<and> take 4 (e_ident eh) = ELFMAG
     \<and> e_ident eh ! EI_CLASS = ELFCLASS64 \<and> e_ident eh ! EI_DATA = ELFDATA2LSB \<and> 56 \<le> unat (e_phentsize eh)
     \<and> readable bs cont (unat (e_phoff eh)) (unat (e_phentsize eh)) \<and> unat (e_phoff eh) + unat (e_phentsize eh) \<le> length cont
     \<and> ph = decode_phdr (take 56 (drop (unat (e_phoff eh)) cont)) \<and> p_type ph = PT_LOAD
     \<and> readable bs cont (unat (p_offset ph)) (unat (p_filesz ph)) \<and> unat (p_offset ph) + unat (p_filesz ph) \<le> length cont
     \<and> unat (p_filesz ph) \<le> 2 ^ 29"

lemma header_keep:
  assumes "live (fheap s) P" "b \<in> P" "live (fheap s') P'" "b \<in> P'" "contents (fheap s') b = contents (fheap s) b"
  shows "64 \<le> length (contents (fheap s) b) \<Longrightarrow> ehdr_at s' b = ehdr_at s b"
    "56 \<le> length (contents (fheap s) b) \<Longrightarrow> phdr_at s' b = phdr_at s b"
  using block_part [OF assms, of 0] by (simp_all add: ehdr_at_def phdr_at_def)

lemma readelf_header_ok:
  assumes "session s0 f p bs cont P d s" "unsorted_bin_head (heap (fheap s)) = 0" "unat (heap_end (heap (fheap s))) + 2 ^ 33 \<le> 2 ^ 64"
    and "elf_file bs cont eh ph"
  shows "\<exists>s' b d'. readelf_header s f = Some (s', b) \<and> session s0 f p bs cont (insert b P) d' s' \<and> file_path d' = file_path d
    \<and> b \<notin> P \<and> b \<noteq> 0 \<and> 64 \<le> length (contents (fheap s') b) \<and> ehdr_at s' b = eh \<and> (\<forall>q \<in> P. contents (fheap s') q = contents (fheap s) q)
    \<and> unsorted_bin_head (heap (fheap s')) = 0 \<and> unat (heap_end (heap (fheap s'))) \<le> unat (heap_end (heap (fheap s))) + 256"
proof -
  have e: "64 \<le> length cont" "eh = decode_ehdr (take 64 cont)" using assms(4) by (simp_all add: elf_file_def)
  have id: "take 4 (e_ident eh) = ELFMAG" "e_ident eh ! EI_CLASS = ELFCLASS64" "e_ident eh ! EI_DATA = ELFDATA2LSB"
    using assms(4) unfolding elf_file_def by blast+
  obtain s1 b where m: "fmalloc s 64 = Some (s1, b)" "session s0 f p bs cont (insert b P) d s1" "b \<notin> P" "b \<noteq> 0"
      "64 \<le> length (contents (fheap s1) b)" "\<forall>q \<in> P. contents (fheap s1) q = contents (fheap s) q"
      "unsorted_bin_head (heap (fheap s1)) = 0" "unat (heap_end (heap (fheap s1))) \<le> unat (heap_end (heap (fheap s))) + 256"
    using session_malloc [OF assms(1,2) _ assms(3), of 64] by auto
  obtain s2 r2 where k: "lseek s1 f 0 SEEK_SET = Some (s2, r2)" "session s0 f p bs cont (insert b P) (d\<lparr>current_offset := 0\<rparr>) s2" "fheap s2 = fheap s1"
    using session_seek [OF m(2), of 0] e(1) by fastforce
  have fp: "b \<noteq> file_path (d\<lparr>current_offset := 0\<rparr>)" using assms(1) m(3) by (auto simp: session_def)
  have rd: "readable bs cont (unat (current_offset (d\<lparr>current_offset := 0\<rparr>))) (unat (64 :: u64))" using e(1) by (cases cont) (simp_all add: readable_def)
  obtain s3 r3 d3 where r: "read s2 f b 64 = Some (s3, r3)" "session s0 f p bs cont (insert b P) d3 s3" "file_path d3 = file_path d"
      "heap (fheap s3) = heap (fheap s2)" "\<forall>q \<in> insert b P. length (contents (fheap s3) q) = length (contents (fheap s2) q)"
      "\<forall>q \<in> insert b P - {b}. contents (fheap s3) q = contents (fheap s2) q" "bytes_at (fmem s3) b 64 = take 64 cont"
    using session_read [OF k(2) rd insertI1 fp, of 0] m(5) k(3) e(1) by auto
  have eh: "ehdr_at s3 b = eh" using r(7) e(2) by (simp add: ehdr_at_def)
  have "readelf_header s f = Some (s3, b)"
    using m(1,4) k(1) r(1) eh id by (simp add: readelf_header_def sizeof_Elf64_Ehdr_def Let_def)
  then show ?thesis using r m k(3) eh by (intro exI [of _ s3] exI [of _ b] exI [of _ d3]) auto
qed

lemma unat_ucast_16 [simp]: "unat (ucast (x :: u16) :: u64) = unat x"
proof -
  have "unat x < 2 ^ 16" by (rule order_less_le_trans [OF unsigned_less]) simp
  then show ?thesis by (simp add: unsigned_ucast_eq take_bit_nat_eq_self)
qed

lemma free_heap_end: "free h p = Some h' \<Longrightarrow> heap_end (heap h') = heap_end (heap h)"
  by (auto simp: free_def link_free_def unlink_allocated_eq set_bk_def set_fd_def Let_def split: bind_splits if_splits)

lemma free_tidy_block:
  assumes "live h P" "tidy h" "b \<in> P"
  shows "\<exists>h'. free h b = Some h' \<and> live h' (P - {b}) \<and> tidy h' \<and> (\<forall>q \<in> P - {b}. contents h' q = contents h q)
    \<and> bytes h' = put_bytes (bytes h) b (replicate (length (contents h b)) 0) \<and> heap_end (heap h') = heap_end (heap h)"
proof -
  obtain h' where "free h b = Some h'" "live h' (P - {b})" "\<forall>q \<in> P - {b}. contents h' q = contents h q"
    using kernel_heap.dealloc_law [OF assms(1,3) tidy_freeable [OF assms(2,1,3)]] by blast
  then show ?thesis using free_tidy [OF assms] free_bytes [OF assms(1,3)] free_heap_end by auto
qed

lemma session_free:
  assumes "session s0 f p bs cont P d s" "b \<in> P" "b \<noteq> file_path d"
  shows "\<exists>s'. ffree s b = Some s' \<and> session s0 f p bs cont (P - {b}) d s' \<and> (\<forall>q \<in> P - {b}. contents (fheap s') q = contents (fheap s) q)
    \<and> heap_end (heap (fheap s')) = heap_end (heap (fheap s))"
proof -
  have l: "live (fheap s) P" "tidy (fheap s)" "file_path d \<in> P" "string_in (fheap s) (file_path d) (file_path d) p"
    using assms(1) by (simp_all add: session_def)
  obtain h where h: "free (fheap s) b = Some h" "live h (P - {b})" "tidy h" "\<forall>q \<in> P - {b}. contents h q = contents (fheap s) q"
      "heap_end (heap h) = heap_end (heap (fheap s))"
    using free_tidy_block [OF l(1,2) assms(2)] by blast
  have "string_in h (file_path d) (file_path d) p"
    using l(3) assms(3) h(4) by (intro string_in_keep [OF l(4) l(1) l(3) h(2)]) auto
  then have "session s0 f p bs cont (P - {b}) d (s\<lparr>fheap := h\<rparr>)" using assms h(2,3) by (simp add: session_def)
  then show ?thesis using h by (intro exI [of _ "s\<lparr>fheap := h\<rparr>"]) (simp add: ffree_def)
qed

lemma session_copy:
  assumes "session s0 f p bs cont P d s" "a \<in> P" "b \<in> P" "b \<noteq> a" "b \<noteq> file_path d"
    "unat n \<le> length (contents (fheap s) a)" "unat n \<le> length (contents (fheap s) b)"
  shows "session s0 f p bs cont P d (fmemcpy s b a n)" "heap (fheap (fmemcpy s b a n)) = heap (fheap s)"
    "\<And>q. q \<in> P \<Longrightarrow> q \<noteq> b \<Longrightarrow> contents (fheap (fmemcpy s b a n)) q = contents (fheap s) q"
    "length (contents (fheap (fmemcpy s b a n)) b) = length (contents (fheap s) b)"
    "bytes_at (fmem (fmemcpy s b a n)) b (unat n) = bytes_at (fmem s) a (unat n)"
proof -
  have l: "live (fheap s) P" using assms(1) by (simp add: session_def)
  have "fst (memcpy (fmem s) (b + of_nat 0) (a + of_nat 0) n) = put_bytes (fmem s) (b + of_nat 0) (bytes_at (fmem s) (a + of_nat 0) (unat n))"
    using assms by (intro memcpy_blocks [OF l]) auto
  then have e: "fmemcpy s b a n = set_fmem s (put_bytes (fmem s) (b + of_nat 0) (bytes_at (fmem s) a (unat n)))"
    by (simp add: fmemcpy_def)
  note st = session_store [OF assms(1,3,5), of 0 "bytes_at (fmem s) a (unat n)"]
  show "session s0 f p bs cont P d (fmemcpy s b a n)" "\<And>q. q \<in> P \<Longrightarrow> q \<noteq> b \<Longrightarrow> contents (fheap (fmemcpy s b a n)) q = contents (fheap s) q"
    "bytes_at (fmem (fmemcpy s b a n)) b (unat n) = bytes_at (fmem s) a (unat n)"
    unfolding e using st assms(7) by simp_all
  show "heap (fheap (fmemcpy s b a n)) = heap (fheap s)" "length (contents (fheap (fmemcpy s b a n)) b) = length (contents (fheap s) b)"
    by (simp_all add: e)
qed

text \<open>The steps both readers share: a new block, a seek and an exact read into the block.\<close>

lemma session_fetch:
  assumes "session s0 f p bs cont P d s" "readable bs cont (unat off) (unat n)" "unat off + unat n \<le> length cont"
    and "b \<in> P" "b \<noteq> file_path d" "j + unat n \<le> length (contents (fheap s) b)"
  shows "\<exists>s1 r1 s2 r2 d'. lseek s f off SEEK_SET = Some (s1, r1) \<and> read s1 f (b + of_nat j) n = Some (s2, r2)
    \<and> fheap s1 = fheap s \<and> session s0 f p bs cont P d' s2 \<and> file_path d' = file_path d
    \<and> heap (fheap s2) = heap (fheap s) \<and> (\<forall>q \<in> P. length (contents (fheap s2) q) = length (contents (fheap s) q))
    \<and> (\<forall>q \<in> P - {b}. contents (fheap s2) q = contents (fheap s) q)
    \<and> bytes_at (fmem s2) (b + of_nat j) (unat n) = take (unat n) (drop (unat off) cont) \<and> bytes_at (fmem s2) b j = bytes_at (fmem s) b j"
proof -
  have "unat off < length cont" using assms(2) by (simp add: readable_def)
  then obtain s1 r1 where k: "lseek s f off SEEK_SET = Some (s1, r1)" "session s0 f p bs cont P (d\<lparr>current_offset := off\<rparr>) s1" "fheap s1 = fheap s"
    using session_seek [OF assms(1)] by blast
  have l: "length (take (unat n) (drop (unat off) cont)) = unat n" using assms(3) by simp
  have "readable bs cont (unat (current_offset (d\<lparr>current_offset := off\<rparr>))) (unat n)" "b \<noteq> file_path (d\<lparr>current_offset := off\<rparr>)"
    "j + unat n \<le> length (contents (fheap s1) b)" using assms k(3) by simp_all
  from session_read [OF k(2) this(1) assms(4) this(2,3)] obtain s2 r2 d' where r: "read s1 f (b + of_nat j) n = Some (s2, r2)"
      "session s0 f p bs cont P d' s2" "file_path d' = file_path d"
      "heap (fheap s2) = heap (fheap s1)" "\<forall>q \<in> P. length (contents (fheap s2) q) = length (contents (fheap s1) q)"
      "\<forall>q \<in> P - {b}. contents (fheap s2) q = contents (fheap s1) q"
      "bytes_at (fmem s2) (b + of_nat j) (unat n) = take (unat n) (drop (unat off) cont)" "bytes_at (fmem s2) b j = bytes_at (fmem s1) b j"
    using l by auto
  then show ?thesis using k by metis
qed

lemma elf_fileD:
  assumes "elf_file bs cont eh ph"
  shows "56 \<le> unat (e_phentsize eh)" "readable bs cont (unat (e_phoff eh)) (unat (e_phentsize eh))"
    "unat (e_phoff eh) + unat (e_phentsize eh) \<le> length cont" "ph = decode_phdr (take 56 (drop (unat (e_phoff eh)) cont))"
    "p_type ph = PT_LOAD" "readable bs cont (unat (p_offset ph)) (unat (p_filesz ph))"
    "unat (p_offset ph) + unat (p_filesz ph) \<le> length cont" "unat (p_filesz ph) \<le> 2 ^ 29" "unat (e_phentsize eh) < 2 ^ 16"
proof -
  show "unat (e_phentsize eh) < 2 ^ 16" by (rule order_less_le_trans [OF unsigned_less]) simp
qed (use assms in \<open>(unfold elf_file_def, blast)+\<close>)

lemma read_segment_ok:
  assumes ses: "session s0 f p bs cont (insert b P) d s" and bP: "b \<notin> P" "b \<noteq> file_path d"
    and bin: "unsorted_bin_head (heap (fheap s)) = 0" and room: "unat (heap_end (heap (fheap s))) + 2 ^ 33 \<le> 2 ^ 64"
    and elf: "elf_file bs cont eh ph" and eb: "eb \<in> P" "64 \<le> length (contents (fheap s) eb)" "ehdr_at s eb = eh"
    and hd: "unat (e_phentsize eh) \<le> length (contents (fheap s) b)"
      "bytes_at (fmem s) b (unat (e_phentsize eh)) = take (unat (e_phentsize eh)) (drop (unat (e_phoff eh)) cont)"
  defines "n \<equiv> unat (e_phentsize eh)" and "m \<equiv> unat (p_filesz ph)"
  shows "\<exists>s' ps d'. read_segment s eb b f = Some (s', ps) \<and> session s0 f p bs cont (insert ps P) d' s' \<and> file_path d' = file_path d
    \<and> ps \<notin> P \<and> ps \<noteq> 0 \<and> n + m \<le> length (contents (fheap s') ps) \<and> phdr_at s' ps = ph
    \<and> bytes_at (fmem s') (ps + of_nat n) m = take m (drop (unat (p_offset ph)) cont) \<and> (\<forall>q \<in> P. contents (fheap s') q = contents (fheap s) q)
    \<and> unat (heap_end (heap (fheap s'))) \<le> unat (heap_end (heap (fheap s))) + n + m + 192"
proof -
  let ?n = "ucast (e_phentsize eh) :: u64"
  note e = elf_fileD [OF elf, folded n_def m_def] and hd = hd [folded n_def]
  have un: "unat ?n = n" by (simp add: n_def)
  have ph: "phdr_at s b = ph" using bytes_at_prefix [of 56 n "fmem s" b] e(1,4) hd(2) by (simp add: phdr_at_def)
  have um: "unat (?n + p_filesz ph) = n + m" using un e(8,9) by (simp add: unat_word_ariths m_def)
  have rm: "n + m \<le> 2 ^ 30" using e(8,9) by simp
  obtain s4 ps where q: "fmalloc s (?n + p_filesz ph) = Some (s4, ps)" "session s0 f p bs cont (insert ps (insert b P)) d s4" "ps \<notin> insert b P"
      "ps \<noteq> 0" "n + m \<le> length (contents (fheap s4) ps)" "\<forall>q \<in> insert b P. contents (fheap s4) q = contents (fheap s) q"
      "unat (heap_end (heap (fheap s4))) \<le> unat (heap_end (heap (fheap s))) + (n + m) + 192"
    using session_malloc [OF ses bin, of "?n + p_filesz ph"] rm room unfolding um by auto
  have pf: "ps \<noteq> file_path d" using q(3) ses by (auto simp: session_def)
  let ?s5 = "fmemcpy s4 ps b ?n" and ?P = "insert ps (insert b P)"
  have ses5: "session s0 f p bs cont ?P d ?s5" "heap (fheap ?s5) = heap (fheap s4)" "\<forall>x \<in> insert b P. contents (fheap ?s5) x = contents (fheap s) x"
      "length (contents (fheap ?s5) ps) = length (contents (fheap s4) ps)" "bytes_at (fmem ?s5) ps n = bytes_at (fmem s4) b n"
    using session_copy [OF q(2), of b ps ?n, unfolded un] q(3,5,6) pf hd(1) by auto
  have live: "live (fheap s) (insert b P)" "live (fheap s4) ?P" "live (fheap ?s5) ?P" using ses q(2) ses5(1) by (simp_all add: session_def)
  obtain s6 r6 s7 r7 d7 where w: "lseek ?s5 f (p_offset ph) SEEK_SET = Some (s6, r6)" "read s6 f (ps + of_nat n) (p_filesz ph) = Some (s7, r7)"
      "fheap s6 = fheap ?s5" "session s0 f p bs cont ?P d7 s7" "file_path d7 = file_path d" "heap (fheap s7) = heap (fheap ?s5)"
      "\<forall>x \<in> ?P. length (contents (fheap s7) x) = length (contents (fheap ?s5) x)" "\<forall>x \<in> ?P - {ps}. contents (fheap s7) x = contents (fheap ?s5) x"
      "bytes_at (fmem s7) (ps + of_nat n) m = take m (drop (unat (p_offset ph)) cont)" "bytes_at (fmem s7) ps n = bytes_at (fmem ?s5) ps n"
    using session_fetch [OF ses5(1), of "p_offset ph" "p_filesz ph" ps n] e(6,7) pf q(5) ses5(4) unfolding m_def by auto
  have P8: "?P - {b} = insert ps P" using q(3) bP(1) by auto
  obtain s8 where z: "ffree s7 b = Some s8" "session s0 f p bs cont (insert ps P) d7 s8"
      "\<forall>x \<in> insert ps P. contents (fheap s8) x = contents (fheap s7) x" "heap_end (heap (fheap s8)) = heap_end (heap (fheap s7))"
    using session_free [OF w(4), of b] bP(2) w(5) unfolding P8 by auto
  have eh: "ehdr_at s4 eb = eh" "ehdr_at s6 eb = eh" and ph5: "phdr_at ?s5 b = ph" "phdr_at s6 b = ph"
    using header_keep(1) [OF live(1) _ live(2), of eb] header_keep(1) [OF live(1) _ live(3), of eb] header_keep(2) [OF live(1) insertI1 live(3)]
      q(6) ses5(3) eb w(3) e(1) hd(1) ph by (auto simp: ehdr_at_def phdr_at_def)
  have run: "read_segment s eb b f = Some (s8, ps)"
    using q(1) w(1,2) z(1) eb(3) ph eh ph5 un by (simp add: read_segment_def n_def)
  have live8: "live (fheap s7) ?P" "live (fheap s8) (insert ps P)" using w(4) z(2) by (simp_all add: session_def)
  have len8: "n + m \<le> length (contents (fheap s7) ps)" using w(7) ses5(4) q(5) by simp
  have k8: "bytes_at (fmem s8) (ps + of_nat i) j = bytes_at (fmem s7) (ps + of_nat i) j" if "i + j \<le> n + m" for i j
    using block_part [OF live8(1) insertI1 live8(2) insertI1, of i j] z(3) that len8 by simp
  have "bytes_at (fmem s4) b n = bytes_at (fmem s) b n" using block_part [OF live(1) insertI1 live(2), of 0 n] q(6) hd(1) by simp
  then have d8: "bytes_at (fmem s8) (ps + of_nat n) m = take m (drop (unat (p_offset ph)) cont)"
      "bytes_at (fmem s8) ps n = take n (drop (unat (e_phoff eh)) cont)"
    using k8 [of n m] k8 [of 0 n] w(9,10) ses5(5) hd(2) by simp_all
  then have "phdr_at s8 ps = ph" using bytes_at_prefix [of 56 n "fmem s8" ps] e(1,4) by (simp add: phdr_at_def)
  moreover have "\<forall>x \<in> P. contents (fheap s8) x = contents (fheap s) x" using z(3) w(8) ses5(3) q(3) by auto
  moreover have "unat (heap_end (heap (fheap s8))) \<le> unat (heap_end (heap (fheap s))) + n + m + 192" using z(4) w(6) ses5(2) q(7) by simp
  ultimately show ?thesis
    using run z(2,3) d8(1) q(3,4) w(5) len8 by (intro exI [of _ s8] exI [of _ ps] exI [of _ d7]) simp
qed

lemma readelf_ps_ok:
  assumes ses: "session s0 f p bs cont P d s" and bin: "unsorted_bin_head (heap (fheap s)) = 0"
    and room: "unat (heap_end (heap (fheap s))) + 2 ^ 34 \<le> 2 ^ 64" and elf: "elf_file bs cont eh ph"
    and eb: "eb \<in> P" "64 \<le> length (contents (fheap s) eb)" "ehdr_at s eb = eh"
  defines "n \<equiv> unat (e_phentsize eh)" and "m \<equiv> unat (p_filesz ph)"
  shows "\<exists>s' ps d'. readelf_ps s eb f = Some (s', ps) \<and> session s0 f p bs cont (insert ps P) d' s' \<and> file_path d' = file_path d
    \<and> ps \<notin> P \<and> ps \<noteq> 0 \<and> n + m \<le> length (contents (fheap s') ps) \<and> phdr_at s' ps = ph
    \<and> bytes_at (fmem s') (ps + of_nat n) m = take m (drop (unat (p_offset ph)) cont) \<and> (\<forall>q \<in> P. contents (fheap s') q = contents (fheap s) q)
    \<and> unat (heap_end (heap (fheap s'))) \<le> unat (heap_end (heap (fheap s))) + 2 * n + m + 384"
proof -
  let ?n = "ucast (e_phentsize eh) :: u64"
  note e = elf_fileD [OF elf, folded n_def m_def]
  have un: "unat ?n = n" by (simp add: n_def)
  obtain s1 b where a: "fmalloc s ?n = Some (s1, b)" "session s0 f p bs cont (insert b P) d s1" "b \<notin> P" "b \<noteq> 0"
      "n \<le> length (contents (fheap s1) b)" "\<forall>q \<in> P. contents (fheap s1) q = contents (fheap s) q"
      "unsorted_bin_head (heap (fheap s1)) = 0" "unat (heap_end (heap (fheap s1))) \<le> unat (heap_end (heap (fheap s))) + n + 192"
    using session_malloc [OF ses bin, of ?n] room e(9) unfolding un by auto
  have "file_path d \<in> P" using ses by (simp add: session_def)
  then have bf: "b \<noteq> file_path d" using a(3) by auto
  obtain s2 r2 s3 r3 d3 where k: "lseek s1 f (e_phoff eh) SEEK_SET = Some (s2, r2)" "read s2 f b ?n = Some (s3, r3)" "fheap s2 = fheap s1"
      "session s0 f p bs cont (insert b P) d3 s3" "file_path d3 = file_path d" "heap (fheap s3) = heap (fheap s1)"
      "\<forall>q \<in> insert b P. length (contents (fheap s3) q) = length (contents (fheap s1) q)"
      "\<forall>q \<in> insert b P - {b}. contents (fheap s3) q = contents (fheap s1) q"
      "bytes_at (fmem s3) b n = take n (drop (unat (e_phoff eh)) cont)"
    using session_fetch [OF a(2), of "e_phoff eh" ?n b 0] e(2,3) a(3,5) bf unfolding un by auto
  have c3: "\<forall>q \<in> P. contents (fheap s3) q = contents (fheap s) q" using k(8) a(3,6) by auto
  have live: "live (fheap s) P" "live (fheap s1) (insert b P)" "live (fheap s3) (insert b P)"
    using ses a(2) k(4) by (simp_all add: session_def)
  have eh1: "ehdr_at s1 eb = eh" "ehdr_at s2 eb = eh" "ehdr_at s3 eb = eh"
    using header_keep(1) [OF live(1) eb(1) live(2)] header_keep(1) [OF live(1) eb(1) live(3)] a(6) c3 eb k(3)
    by (auto simp: ehdr_at_def)
  have "phdr_at s3 b = ph" using bytes_at_prefix [of 56 n "fmem s3" b] e(1,4) k(9) by (simp add: phdr_at_def)
  then have run: "readelf_ps s eb f = read_segment s3 eb b f" using a(1) k(1,2) eb(3) eh1 e(5) by (simp add: readelf_ps_def)
  have "\<exists>s' ps d'. read_segment s3 eb b f = Some (s', ps) \<and> session s0 f p bs cont (insert ps P) d' s' \<and> file_path d' = file_path d3
    \<and> ps \<notin> P \<and> ps \<noteq> 0 \<and> n + m \<le> length (contents (fheap s') ps) \<and> phdr_at s' ps = ph
    \<and> bytes_at (fmem s') (ps + of_nat n) m = take m (drop (unat (p_offset ph)) cont) \<and> (\<forall>q \<in> P. contents (fheap s') q = contents (fheap s3) q)
    \<and> unat (heap_end (heap (fheap s'))) \<le> unat (heap_end (heap (fheap s3))) + n + m + 192"
    unfolding n_def m_def
    by (rule read_segment_ok [OF k(4) a(3) _ _ _ elf eb(1) _ eh1(3)])
      (use bf k a c3 eb room e(9) in \<open>simp_all add: n_def\<close>)
  then show ?thesis unfolding run using c3 k(5,6) a(8) by fastforce
qed

section \<open>The memory outside the heap\<close>

lemma live_below: "live h P \<Longrightarrow> b \<in> P \<Longrightarrow> unat b + length (contents h b) \<le> unat (heap_end (heap h))"
proof -
  assume "live h P" "b \<in> P"
  then obtain as bs a where inv: "heap_inv h as bs" and a: "a \<in> set as" "b = a + 32" by (auto simp: live_def)
  have bl: "blocks_ok (chunk h) (unat (g_heap_malloc_state_base h) + 64) (unat (heap_end (heap h))) (set (as @ bs))"
    using inv by (simp add: heap_inv_def)
  have "unat b = unat a + 32"
    using unat_data [OF bl, of a] heap_inv_data [OF inv, of a] a unat_lt_64 [of "heap_end (heap h)"] by simp
  moreover have "block_end (chunk h) a \<le> unat (heap_end (heap h))" "64 \<le> unat (mchunk_size (chunk h a))" using bl a by (auto simp: blocks_ok_def)
  ultimately show ?thesis using a by (simp add: contents_def payload_def block_end_def)
qed

lemma contents_outside:
  assumes "live h P" "b \<in> P" "unat (heap_end (heap h)) \<le> unat a" "unat a + length dat \<le> 2 ^ 64"
  shows "contents (h\<lparr>bytes := put_bytes (bytes h) a dat\<rparr>) b = contents h b"
proof -
  have "bytes_at (put_bytes (bytes h) a dat) b (length (contents h b)) = bytes_at (bytes h) b (length (contents h b))"
    using live_below [OF assms(1,2)] live_bound [OF assms(1,2)] assms(3,4) by (intro bytes_at_put_other) linarith+
  then show ?thesis using contents_with_bytes [OF assms(1,2)] contents_bytes [OF assms(1,2)] by simp
qed

text \<open>Giving back a list of blocks: what lies above the heap stays.\<close>

fun frees :: "heap_mem \<Rightarrow> u64 list \<Rightarrow> heap_mem option" where
  "frees h [] = Some h"
| "frees h (b # bs) = do { h \<leftarrow> free h b; frees h bs }"

lemma frees_ok:
  assumes "live h P" "tidy h" "distinct xs" "set xs \<subseteq> P" "unat (heap_end (heap h)) \<le> unat a" "unat a + n \<le> 2 ^ 64"
  shows "\<exists>h'. frees h xs = Some h' \<and> live h' (P - set xs) \<and> (\<forall>q \<in> P - set xs. contents h' q = contents h q)
    \<and> bytes_at (bytes h') a n = bytes_at (bytes h) a n"
  using assms
proof (induction xs arbitrary: h P)
  case Nil
  then show ?case by simp
next
  case (Cons b xs)
  then obtain h1 where h1: "free h b = Some h1" "live h1 (P - {b})" "tidy h1" "\<forall>q \<in> P - {b}. contents h1 q = contents h q"
      "bytes h1 = put_bytes (bytes h) b (replicate (length (contents h b)) 0)" "heap_end (heap h1) = heap_end (heap h)"
    using free_tidy_block [of h P b] by auto
  have "bytes_at (bytes h1) a n = bytes_at (bytes h) a n"
    using live_below [OF Cons.prems(1), of b] live_bound [OF Cons.prems(1), of b] Cons.prems(4-6) unfolding h1(5) by (intro bytes_at_put_other) auto
  moreover obtain h' where "frees h1 xs = Some h'" "live h' (P - {b} - set xs)" "\<forall>q \<in> P - {b} - set xs. contents h' q = contents h1 q"
      "bytes_at (bytes h') a n = bytes_at (bytes h1) a n"
    using Cons.IH [OF h1(2,3)] Cons.prems(3-6) h1(6) by auto
  moreover have "P - {b} - set xs = P - set (b # xs)" by auto
  ultimately show ?case using h1(1,4) by auto
qed

section \<open>Properties\<close>

lemma session_after_open:
  assumes "files_ok s P" "q \<in> P" "string_in (fheap s) q pp p" "length p mod 16 \<noteq> 0" "length p < 2 ^ 30"
    and "unat (heap_end (heap (fheap s))) + 2 ^ 35 \<le> 2 ^ 64" "unsorted_bin_head (heap (fheap s)) = 0" "file_at (ftree s) (fdisk s) p bs cont"
    and i: "i < 256" "file_path (fdp_arr s ! i) = 0" "\<forall>j < i. file_path (fdp_arr s ! j) \<noteq> 0"
  shows "\<exists>s' c. open_c s pp O_RDONLY = Some (s', int i) \<and> session s (int i) p bs cont (insert c P) \<lparr>file_path = c, current_offset = 0, flags = O_RDONLY\<rparr> s'
    \<and> c \<notin> P \<and> unsorted_bin_head (heap (fheap s')) = 0 \<and> (\<forall>b \<in> P. contents (fheap s') b = contents (fheap s) b)
    \<and> unat (heap_end (heap (fheap s'))) \<le> unat (heap_end (heap (fheap s))) + length p + 192"
proof -
  let ?d = "\<lambda>c. \<lparr>file_path = c, current_offset = 0, flags = O_RDONLY\<rparr>"
  have room: "unat (heap_end (heap (fheap s))) + 2 ^ 32 \<le> 2 ^ 64" "unat (heap_end (heap (fheap s))) + 2 ^ 33 \<le> 2 ^ 64" using assms(6) by simp_all
  obtain h c h1 where o: "open_slot s pp O_RDONLY i = Some (s\<lparr>fheap := h, fdp_arr := (fdp_arr s)[i := ?d c]\<rparr>, int i)"
      "live h (insert c P)" "c \<notin> P" "c \<noteq> 0" "string_in h c c p" "\<forall>b \<in> P. contents h b = contents (fheap s) b"
      "malloc (fheap s) (of_nat (length p)) = Some (h1, c)" "h = h1\<lparr>bytes := put_bytes (bytes h1) c p\<rparr>"
    using open_slot_copies [OF assms(1-5) room(1)] by metis
  have un: "unat (of_nat (length p) :: u64) = length p" using assms(5) by (intro unat_of_nat_lt) simp
  have t: "tidy h" "unsorted_bin_head (heap h) = 0" using malloc_tidy [OF assms(7) o(7)] o(8) by simp_all
  have "unat (heap_end (heap h)) \<le> unat (heap_end (heap (fheap s))) + length p + 192"
    using malloc_heap_end [OF assms(7) o(7)] room(2) assms(5) o(8) un by simp
  moreover have "find (\<lambda>i. file_path (fdp_arr s ! i) = 0) [0..<MAX_NUM_OF_FILE_DESCRIPTORS] = Some i"
    using find_upt_cases [of "\<lambda>i. file_path (fdp_arr s ! i) = 0" 256] i by (metis MAX_NUM_OF_FILE_DESCRIPTORS_def nat_neq_iff)
  moreover obtain e where "path_exists s pp = Some e" "e \<noteq> 0"
    using file_exists [OF assms(8)] assms(3) path_at_cstr [of "fmem s" pp p] by (auto simp: path_exists_def string_in_def)
  ultimately show ?thesis
    using o t i(1) assms(1,8) by (intro exI [of _ "s\<lparr>fheap := h, fdp_arr := (fdp_arr s)[i := ?d c]\<rparr>"] exI [of _ c])
      (simp add: open_c_def session_def files_ok_def MAX_NUM_OF_FILE_DESCRIPTORS_def)
qed

lemma load_segment:
  assumes "session s0 f p bs cont P d s" "ps \<in> P" "n + unat m \<le> length (contents (fheap s) ps)"
    and "unat (heap_end (heap (fheap s))) \<le> unat dst" "unat dst + unat m \<le> 2 ^ 64" "distinct [file_path d, eb, ps]" "eb \<in> P" "0 < unat m"
  shows "\<exists>s'. do { (s1, _) \<leftarrow> close (fmemcpy s dst (ps + of_nat n) m) f; s2 \<leftarrow> ffree s1 eb; ffree s2 ps } = Some s'
    \<and> bytes_at (fmem s') dst (unat m) = bytes_at (fmem s) (ps + of_nat n) (unat m) \<and> live (fheap s') (P - {file_path d, eb, ps})
    \<and> (\<forall>q \<in> P - {file_path d, eb, ps}. contents (fheap s') q = contents (fheap s) q) \<and> ftree s' = ftree s0 \<and> fdisk s' = fdisk s0
    \<and> fdp_arr s' = (fdp_arr s0)[nat f := d\<lparr>file_path := 0\<rparr>]"
proof -
  have ses: "live (fheap s) P" "tidy (fheap s)" "0 \<le> f" "nat f < length (fdp_arr s0)" "fdp_arr s = (fdp_arr s0)[nat f := d]" "file_path d \<in> P"
      "file_path d \<noteq> 0" "ftree s = ftree s0" "fdisk s = fdisk s0"
    using assms(1) by (simp_all add: session_def)
  let ?seg = "bytes_at (fmem s) (ps + of_nat n) (unat m)"
  let ?h = "(fheap s)\<lparr>bytes := put_bytes (fmem s) dst ?seg\<rparr>"
  have "unat (ps + of_nat n) = unat ps + n"
    using live_below [OF ses(1) assms(2)] live_bound [OF ses(1) assms(2)] assms(3,8) by (intro unat_add_of_nat) linarith
  then have cp: "fmemcpy s dst (ps + of_nat n) m = s\<lparr>fheap := ?h\<rparr>"
    using memcpy_eq [of dst m "ps + of_nat n" "fmem s"] assms(3,4,5) live_below [OF ses(1) assms(2)] live_bound [OF ses(1) assms(2)]
    by (simp add: fmemcpy_def set_fmem_def)
  obtain h' where h': "frees ?h [file_path d, eb, ps] = Some h'" "live h' (P - {file_path d, eb, ps})"
      "\<forall>q \<in> P - {file_path d, eb, ps}. contents h' q = contents ?h q" "bytes_at (bytes h') dst (unat m) = bytes_at (bytes ?h) dst (unat m)"
    using frees_ok [of ?h P "[file_path d, eb, ps]" dst "unat m"] ses assms by auto
  have d: "bytes_at (bytes ?h) dst (unat m) = ?seg" using bytes_at_put_bytes [of ?seg "fmem s" dst] assms(5) by simp
  have c: "contents ?h q = contents (fheap s) q" if "q \<in> P" for q using contents_outside [OF ses(1) that, of dst ?seg] assms(4,5) by simp
  obtain h1 h2 where fr: "free ?h (file_path d) = Some h1" "free h1 eb = Some h2" "free h2 ps = Some h'" using h'(1) by (auto split: bind_splits)
  have "fdp_at (s\<lparr>fheap := ?h\<rparr>) f = Some d" using ses by (simp add: fdp_at_def)
  then have "do { (s1, _) \<leftarrow> close (fmemcpy s dst (ps + of_nat n) m) f; s2 \<leftarrow> ffree s1 eb; ffree s2 ps } =
      Some (s\<lparr>fheap := h', fdp_arr := (fdp_arr s)[nat f := d\<lparr>file_path := 0\<rparr>]\<rparr>)"
    unfolding cp using fr ses by (simp add: close_def ffree_def)
  then show ?thesis
    using h' d c ses by (intro exI [of _ "s\<lparr>fheap := h', fdp_arr := (fdp_arr s)[nat f := d\<lparr>file_path := 0\<rparr>]\<rparr>"]) simp
qed


text \<open>A program of four bytes.\<close>

definition tiny_elf :: "byte list" where
  "tiny_elf = [0x7F, 0x45, 0x4C, 0x46, 2, 1] @ replicate 26 0 @ [64] @ replicate 21 0 @ [56] @ replicate 9 0
     @ [1] @ replicate 7 0 @ [120] @ replicate 23 0 @ [4] @ replicate 23 0 @ [0xEB, 0xFE, 0x90, 0xF4]"

lemma tiny_elf_file:
  "length tiny_elf = 124" "e_phoff (decode_ehdr (take 64 tiny_elf)) = 64" "e_phentsize (decode_ehdr (take 64 tiny_elf)) = 56"
  "take 4 (e_ident (decode_ehdr (take 64 tiny_elf))) = ELFMAG" "e_ident (decode_ehdr (take 64 tiny_elf)) ! EI_CLASS = ELFCLASS64"
  "e_ident (decode_ehdr (take 64 tiny_elf)) ! EI_DATA = ELFDATA2LSB"
  "p_type (decode_phdr (take 56 (drop 64 tiny_elf))) = PT_LOAD" "p_offset (decode_phdr (take 56 (drop 64 tiny_elf))) = 120"
  "p_filesz (decode_phdr (take 56 (drop 64 tiny_elf))) = 4" "take 4 (drop 120 tiny_elf) = [0xEB, 0xFE, 0x90, 0xF4]"
  by code_simp+


end
