(* ===== verification/Interrupts.thy ===== *)
theory Interrupts
  imports Sched Keyboard Nic
begin

text \<open>
  Entry into the kernel: the interrupt descriptor table of \<open>idt.c\<close>, the handler of \<open>isr.c\<close> that
  composes the timer, the scheduler, the keyboard and the network card, \<open>interrupts.c\<close>, and the
  system call entry of \<open>libc/sys/syscall.c\<close>.  The assembly stubs \<open>handle_n_isr\<close> and \<open>syscall_entry\<close>
  are addresses.  What a device shows when its interrupt arrives is an argument of the handler.
\<close>

section \<open>The descriptor table\<close>

record idt_gate_descriptor =
  offset_low :: u16
  selector :: u16
  ist :: byte
  type_attributes :: byte
  offset_medium :: u16
  offset_high :: u32
  zero :: u32

record idt_register =
  limit :: u16
  base :: u64

definition IDT_ENTRIES_AMOUNT :: nat where "IDT_ENTRIES_AMOUNT = 256"
definition INT_TYPE_ATTRIBUTES :: byte where "INT_TYPE_ATTRIBUTES = 0x8E"
definition PIC1_OFFSET :: nat where "PIC1_OFFSET = 0x20"

definition null_gate :: idt_gate_descriptor where
  "null_gate = \<lparr>offset_low = 0, selector = 0, ist = 0, type_attributes = 0, offset_medium = 0, offset_high = 0, zero = 0\<rparr>"

text \<open>The table is at the address \<open>idt_addr\<close>; \<open>lidt\<close> loads the register.\<close>

definition update_idt :: "u64 \<Rightarrow> idt_register" where
  "update_idt idt_addr = \<lparr>limit = of_nat (IDT_ENTRIES_AMOUNT * 16) - 1, base = idt_addr\<rparr>"

definition idt_gate_init :: "idt_gate_descriptor list \<Rightarrow> byte \<Rightarrow> u64 \<Rightarrow> idt_gate_descriptor list" where
  "idt_gate_init idt gate_descriptor_num handler =
     idt[unat gate_descriptor_num :=
       \<lparr>offset_low = ucast (handler AND 0xFFFF), selector = ucast KERNEL_CS_SELECTOR_OFFSET_GDT, ist = 0,
        type_attributes = INT_TYPE_ATTRIBUTES, offset_medium = ucast (drop_bit 0x10 handler AND 0xFFFF),
        offset_high = ucast (drop_bit 0x20 handler AND 0xFFFFFFFF), zero = 0\<rparr>]"

text \<open>\<open>handle n\<close> is the address of the stub \<open>handle_n_isr\<close>; the gates are set in this order.\<close>

definition isr_vectors :: "nat list" where
  "isr_vectors = [0..<35] @ [PIC1_OFFSET + unat RTL8139_INTERRUPT_LINE]"

definition init_isr_handlers :: "(nat \<Rightarrow> u64) \<Rightarrow> u64 \<Rightarrow> idt_gate_descriptor list \<Rightarrow> idt_gate_descriptor list \<times> idt_register" where
  "init_isr_handlers handle idt_addr idt =
     (fold (\<lambda>n idt. idt_gate_init idt (of_nat n) (handle n)) isr_vectors idt, update_idt idt_addr)"

section \<open>The interrupt handler\<close>

record machine =
  sch :: sched
  kbd :: keyboard_t
  nw :: net

definition IRQ_PIT :: nat where "IRQ_PIT = 0"
definition IRQ_KEYBOARD :: nat where "IRQ_KEYBOARD = 1"

definition mmu_of :: "machine \<Rightarrow> mmu" where "mmu_of m = mm (kn (sch m))"

definition set_space :: "machine \<Rightarrow> u64 \<Rightarrow> machine" where
  "set_space m root = m\<lparr>sch := (sch m)\<lparr>kn := (kn (sch m))\<lparr>mm := set_pml4_address (flush_tlb (mmu_of m)) root\<rparr>\<rparr>\<rparr>"

text \<open>
  The branches for the three devices: \<open>rnp\<close> is the address of \<open>run_next_proc\<close>, \<open>scan\<close> the byte at the
  keyboard port and \<open>status\<close> the interrupt status of the card.  The heap switch around the card's
  handler is undone before the branch ends, and the card's handler uses no heap.
\<close>

definition irq_device :: "u64 \<Rightarrow> byte \<Rightarrow> u16 \<Rightarrow> machine \<Rightarrow> nat \<Rightarrow> registers \<Rightarrow> (machine \<times> registers) option" where
  "irq_device rnp scan status m isr_num g =
     (if isr_num = IRQ_PIT + PIC1_OFFSET then
        let s = sch m; (s, g) = handle_sched_on_pit_tick rnp (s\<lparr>pit := pit_handler (pit s)\<rparr>) g
        in Some (m\<lparr>sch := s\<rparr>, g)
      else if isr_num = IRQ_KEYBOARD + PIC1_OFFSET then
        do { k \<leftarrow> buffer_put (kbd m) scan; Some (m\<lparr>kbd := k\<rparr>, g) }
      else if isr_num = PIC1_OFFSET + unat RTL8139_INTERRUPT_LINE then
        do { n \<leftarrow> rtl8139_handler (nw m) status; Some (m\<lparr>nw := n\<rparr>, g) }
      else Some (m, g))"

text \<open>An exception prints a message and loops for ever: \<open>None\<close>.\<close>

definition isr_handler :: "u64 \<Rightarrow> byte \<Rightarrow> u16 \<Rightarrow> machine \<Rightarrow> nat \<Rightarrow> registers \<Rightarrow> (machine \<times> registers) option" where
  "isr_handler rnp scan status m isr_num g =
     (let m = m\<lparr>sch := (sch m)\<lparr>sched_triggered := False\<rparr>\<rparr>;
          prev_cr3 = cr3 (mmu_of m);
          cr3_changed = (prev_cr3 \<noteq> PML4_KERNEL \<and> prev_cr3 \<noteq> PML4_BOOT);
          m = (if cr3_changed then set_space m PML4_KERNEL else m)
      in if isr_num \<le> 31 then None
         else do { (m, g) \<leftarrow> irq_device rnp scan status m isr_num g;
                   let m = m\<lparr>nw := (nw m)\<lparr>io := pic_send_eoi (io (nw m)) (of_nat (isr_num - PIC1_OFFSET))\<rparr>\<rparr>;
                   Some (if cr3_changed \<and> \<not> sched_triggered (sch m) then set_space m prev_cr3 else m, g) })"

section \<open>System calls\<close>

datatype SYSCALL_NR = sys_exit | sys_exec | sys_printf | sys_getchar | sys_time | sys_date | sys_sleep | sys_abort | sys_malloc
  | sys_free | sys_print_heap | sys_stdin_clear | sys_stdin_insert | sys_shutdown | sys_tty_init | sys_scanf | sys_memset
  | sys_memcpy | sys_fgets | sys_open | sys_close | sys_read | sys_write | sys_lseek | sys_list_dir | sys_path_exists
  | sys_send_dns_request

text \<open>The table in the order of the numbers; each entry stands for the function of the same name.\<close>

definition SYSCALL_TABLE :: "SYSCALL_NR list" where
  "SYSCALL_TABLE = [sys_exit, sys_exec, sys_printf, sys_getchar, sys_time, sys_date, sys_sleep, sys_abort, sys_malloc, sys_free,
     sys_print_heap, sys_stdin_clear, sys_stdin_insert, sys_shutdown, sys_tty_init, sys_scanf, sys_memset, sys_memcpy, sys_fgets,
     sys_open, sys_close, sys_read, sys_write, sys_lseek, sys_list_dir, sys_path_exists, sys_send_dns_request]"

text \<open>
  \<open>call\<close> runs a function of the table on the six arguments and the register block.  A negative
  number reads in front of the table, and without a current process the copy of the registers goes
  to address zero.
\<close>

definition syscall_handler ::
  "(SYSCALL_NR \<Rightarrow> machine \<Rightarrow> u64 list \<Rightarrow> cpu_state \<Rightarrow> (machine \<times> cpu_state \<times> u64) option) \<Rightarrow> machine \<Rightarrow> cpu_state \<Rightarrow> (machine \<times> cpu_state \<times> u64) option" where
  "syscall_handler call m regs =
     (let number = sint (rax regs);
          prev_cr3 = cr3 (mmu_of m);
          m = (if prev_cr3 \<noteq> PML4_KERNEL then set_space m PML4_KERNEL else m)
      in if number \<ge> int (length SYSCALL_TABLE) then Some (m, regs, - 1)
         else if number < 0 then None
         else let k = kn (sch m) in
              if current_pcb k = 0 then None
              else let k = set_pcb k (current_pcb k) ((pcbs k (current_pcb k))\<lparr>cpu_context := regs\<rparr>);
                       m = m\<lparr>sch := (sch m)\<lparr>kn := k\<rparr>\<rparr>
                   in do { (m, regs, ret) \<leftarrow> call (SYSCALL_TABLE ! nat number) m [rdi regs, rsi regs, rdx regs, r10 regs, r8 regs, r9 regs] regs;
                           Some (set_space m prev_cr3, regs, ret) })"

section \<open>Setting up system calls\<close>

text \<open>Model-specific registers by number.  The constraint of \<open>read_msr\<close> gives only the low half.\<close>

type_synonym msrs = "u32 \<Rightarrow> u64"

definition read_msr :: "msrs \<Rightarrow> u32 \<Rightarrow> u64" where
  "read_msr r n = ucast (ucast (r n) :: u32)"

definition write_msr :: "msrs \<Rightarrow> u32 \<Rightarrow> u32 \<Rightarrow> u32 \<Rightarrow> msrs" where
  "write_msr r n lo hi = r(n := ucast lo OR push_bit 32 (ucast hi))"

definition MSR_EFER :: u32 where "MSR_EFER = 0xC0000080"
definition MSR_STAR :: u32 where "MSR_STAR = 0xC0000081"
definition MSR_LSTAR :: u32 where "MSR_LSTAR = 0xC0000082"
definition MSR_KERNEL_GS_BASE :: u32 where "MSR_KERNEL_GS_BASE = 0xC0000102"
definition EFER_SCE :: u32 where "EFER_SCE = 1"

definition enable_syscall :: "msrs \<Rightarrow> msrs" where
  "enable_syscall r =
     (let efer = read_msr r MSR_EFER; efer_lo = ucast (efer AND 0xffffffff) :: u32; efer_hi = ucast (drop_bit 32 efer) :: u32
      in write_msr r MSR_EFER (efer_lo OR EFER_SCE) efer_hi)"

definition configure_segments :: "msrs \<Rightarrow> msrs" where
  "configure_segments r =
     (let star_value = push_bit 32 0x08 OR push_bit 48 0x18 :: u64
      in write_msr r MSR_STAR (ucast (star_value AND 0xffffffff)) (ucast (drop_bit 32 star_value)))"

definition init_syscall :: "u64 \<Rightarrow> u64 \<Rightarrow> msrs \<Rightarrow> msrs" where
  "init_syscall syscall_entry kgb r =
     (let r = enable_syscall r;
          r = write_msr r MSR_LSTAR (ucast (syscall_entry AND 0xffffffff)) (ucast (drop_bit 32 syscall_entry));
          r = write_msr r MSR_KERNEL_GS_BASE (ucast (kgb AND 0xffffffff)) (ucast (drop_bit 32 kgb))
      in configure_segments r)"

section \<open>What the processor finds in the table\<close>

text \<open>
  The packed descriptor in memory, and the documented layout of a 64-bit gate as the processor reads
  it: the target, the code segment, whether it is present, the privilege it asks for and its type.
\<close>

definition gate_bytes :: "idt_gate_descriptor \<Rightarrow> byte list" where
  "gate_bytes d = to_le 2 (offset_low d) @ to_le 2 (selector d) @ [ist d, type_attributes d] @ to_le 2 (offset_medium d)
     @ to_le 4 (offset_high d) @ to_le 4 (zero d)"

definition idt_bytes :: "idt_gate_descriptor list \<Rightarrow> byte list" where
  "idt_bytes idt = concat (map gate_bytes idt)"

definition cpu_gate :: "byte list \<Rightarrow> nat \<Rightarrow> u64 \<times> u16 \<times> bool \<times> byte \<times> byte" where
  "cpu_gate table n =
     (let b = take 16 (drop (16 * n) table); attr = b ! 5
      in (of_le (take 2 b @ take 2 (drop 6 b) @ take 4 (drop 8 b)), of_le (take 2 (drop 2 b)), bit attr 7,
          take_bit 2 (drop_bit 5 attr), take_bit 4 attr))"

lemma length_gate_bytes [simp]: "length (gate_bytes d) = 16"
  by (simp add: gate_bytes_def)

lemma gate_of_table: "n < length idt \<Longrightarrow> take 16 (drop (16 * n) (idt_bytes idt)) = gate_bytes (idt ! n)"
proof (induction idt arbitrary: n)
  case Nil
  then show ?case by simp
next
  case (Cons d idt)
  then show ?case by (cases n) (simp_all add: idt_bytes_def)
qed

text \<open>The three parts of the address are consecutive bytes of it.\<close>

lemma to_le_split:
  fixes h :: u64
  shows "to_le 2 (ucast (h AND 0xFFFF) :: u16) @ to_le 2 (ucast (drop_bit 16 h AND 0xFFFF) :: u16)
    @ to_le 4 (ucast (drop_bit 32 h AND 0xFFFFFFFF) :: u32) = to_le 8 h"
proof -
  have m: "(0xFFFF :: u64) = mask 16" "(0xFFFFFFFF :: u64) = mask 32" by (simp_all add: mask_eq_exp_minus_1)
  have b: "ucast (drop_bit i (ucast (h' AND mask 16) :: u16)) = (ucast (drop_bit i h') :: byte)" if "i \<le> 8" for i and h' :: u64
    using that by (intro bit_word_eqI) (auto simp: bit_ucast_iff bit_drop_bit_eq bit_and_iff bit_mask_iff)
  have c: "ucast (drop_bit i (ucast (h' AND mask 32) :: u32)) = (ucast (drop_bit i h') :: byte)" if "i \<le> 24" for i and h' :: u64
    using that by (intro bit_word_eqI) (auto simp: bit_ucast_iff bit_drop_bit_eq bit_and_iff bit_mask_iff)
  show ?thesis unfolding m by (simp add: to_le_def upt_conv_Cons b c b [of 0, simplified] c [of 0, simplified])
qed

lemma cpu_gate_init:
  assumes "unat n < length idt"
  shows "cpu_gate (idt_bytes (idt_gate_init idt n h)) (unat n) = (h, 8, True, 0, 14)"
proof -
  let ?d = "idt_gate_init idt n h ! unat n"
  have d: "take 2 (gate_bytes ?d) @ take 2 (drop 6 (gate_bytes ?d)) @ take 4 (drop 8 (gate_bytes ?d)) = to_le 8 h"
    using assms to_le_split [of h] by (simp add: idt_gate_init_def gate_bytes_def)
  have s: "of_le (take 2 (drop 2 (gate_bytes ?d))) = (8 :: u16)" "gate_bytes ?d ! 5 = 0x8E"
    using assms by (simp_all add: idt_gate_init_def gate_bytes_def of_le_to_le take_bit_word_eq_self
        KERNEL_CS_SELECTOR_OFFSET_GDT_def INT_TYPE_ATTRIBUTES_def nth_append)
  have t: "take 16 (drop (16 * unat n) (idt_bytes (idt_gate_init idt n h))) = gate_bytes ?d"
    using assms by (intro gate_of_table) (simp add: idt_gate_init_def)
  show ?thesis
    unfolding cpu_gate_def t Let_def s d by (simp add: of_le_to_le take_bit_word_eq_self)
qed

lemma length_idt_gate_init [simp]: "length (idt_gate_init idt n h) = length idt"
  by (simp add: idt_gate_init_def)

lemma gate_init_other: "unat n \<noteq> k \<Longrightarrow> idt_gate_init idt n h ! k = idt ! k"
  by (simp add: idt_gate_init_def)

lemma cpu_gate_cong:
  "k < length idt \<Longrightarrow> k < length idt' \<Longrightarrow> idt ! k = idt' ! k \<Longrightarrow> cpu_gate (idt_bytes idt) k = cpu_gate (idt_bytes idt') k"
  by (simp add: cpu_gate_def gate_of_table)

lemma gates_set:
  fixes handle :: "nat \<Rightarrow> u64"
  assumes "length idt = IDT_ENTRIES_AMOUNT" "\<forall>n \<in> set ns. n < 256"
  defines "t \<equiv> fold (\<lambda>n idt. idt_gate_init idt (of_nat n) (handle n)) ns idt"
  shows "length t = IDT_ENTRIES_AMOUNT \<and> (\<forall>k < 256. (k \<in> set ns \<longrightarrow> cpu_gate (idt_bytes t) k = (handle k, 8, True, 0, 14))
     \<and> (k \<notin> set ns \<longrightarrow> t ! k = idt ! k))"
  using assms(2) unfolding t_def
proof (induction ns rule: rev_induct)
  case Nil
  then show ?case using assms(1) by simp
next
  case (snoc n ns)
  let ?t = "fold (\<lambda>n idt. idt_gate_init idt (of_nat n) (handle n)) ns idt"
  let ?t' = "idt_gate_init ?t (of_nat n) (handle n)"
  have IH: "length ?t = 256" "\<And>k. k < 256 \<Longrightarrow> k \<in> set ns \<Longrightarrow> cpu_gate (idt_bytes ?t) k = (handle k, 8, True, 0, 14)"
    "\<And>k. k < 256 \<Longrightarrow> k \<notin> set ns \<Longrightarrow> ?t ! k = idt ! k"
    using snoc by (simp_all add: IDT_ENTRIES_AMOUNT_def)
  have u: "unat (of_nat n :: byte) = n" using snoc.prems by (simp add: unat_of_nat)
  have same: "cpu_gate (idt_bytes ?t') n = (handle n, 8, True, 0, 14)"
    using cpu_gate_init [of "of_nat n" ?t "handle n"] snoc.prems by (simp add: u IH(1))
  have other: "?t' ! k = ?t ! k" if "k \<noteq> n" for k using gate_init_other [of "of_nat n" k] that u by simp
  have set: "cpu_gate (idt_bytes ?t') k = (handle k, 8, True, 0, 14)" if "k < 256" "k \<in> set ns \<or> k = n" for k
    using cpu_gate_cong [of k ?t' ?t] other [of k] that IH(1) IH(2) [of k] same by (cases "k = n") simp_all
  show ?case using IH(1,3) set other by (simp add: IDT_ENTRIES_AMOUNT_def)
qed

lemma set_isr_vectors: "set isr_vectors = {n. n < 35 \<or> n = 43}"
  by (auto simp: isr_vectors_def PIC1_OFFSET_def RTL8139_INTERRUPT_LINE_def)

text \<open>
  C40. After \<open>init_isr_handlers\<close> the table register covers exactly the 256 gates, and the processor
  finds for the vectors 0 to 34 and 43 a present interrupt gate of kernel privilege that leads into
  the kernel's code segment at exactly the stub of that vector; the other gates are as before.
\<close>

theorem gates_lead_to_stubs:
  assumes "length idt = IDT_ENTRIES_AMOUNT" "(idt', r) = init_isr_handlers handle idt_addr idt" "n < IDT_ENTRIES_AMOUNT"
  shows "base r = idt_addr \<and> unat (limit r) + 1 = length (idt_bytes idt') \<and> length idt' = IDT_ENTRIES_AMOUNT
     \<and> (if n < 35 \<or> n = 43 then cpu_gate (idt_bytes idt') n = (handle n, 8, True, 0, 14) else idt' ! n = idt ! n)"
proof -
  have "\<forall>n \<in> set isr_vectors. n < 256" by (auto simp: set_isr_vectors)
  note g = gates_set [OF assms(1) this, of handle, unfolded set_isr_vectors]
  have e: "idt' = fold (\<lambda>n idt. idt_gate_init idt (of_nat n) (handle n)) isr_vectors idt" "r = update_idt idt_addr"
    using assms(2) by (simp_all add: init_isr_handlers_def)
  have "length (idt_bytes idt') = 16 * length idt'" by (simp add: idt_bytes_def length_concat comp_def sum_list_triv)
  then show ?thesis
    using g assms(3) unfolding e by (simp add: update_idt_def IDT_ENTRIES_AMOUNT_def)
qed

theorem gates_lead_to_stubs_witness:
  "cpu_gate (idt_bytes (fst (init_isr_handlers (\<lambda>n. 0xFFFF800000100000 + 16 * of_nat n) 0x5000 (replicate 256 null_gate)))) 33
     = (0xFFFF800000100210, 8, True, 0, 14)
   \<and> fst (init_isr_handlers (\<lambda>n. 0xFFFF800000100000 + 16 * of_nat n) 0x5000 (replicate 256 null_gate)) ! 44 = null_gate"
proof -
  let ?i = "init_isr_handlers (\<lambda>n. 0xFFFF800000100000 + 16 * of_nat n) 0x5000 (replicate 256 null_gate)"
  show ?thesis
    using gates_lead_to_stubs [of "replicate 256 null_gate" "fst ?i" "snd ?i" "\<lambda>n. 0xFFFF800000100000 + 16 * of_nat n" "0x5000" 33]
      gates_lead_to_stubs [of "replicate 256 null_gate" "fst ?i" "snd ?i" "\<lambda>n. 0xFFFF800000100000 + 16 * of_nat n" "0x5000" 44]
    by (simp add: IDT_ENTRIES_AMOUNT_def)
qed

section \<open>The handler\<close>

lemma send_arp_io: "send_arp n oper sha spa tha tpa = Some n' \<Longrightarrow> io n' = io n"
  by (auto simp: send_arp_def send_packet_def Let_def split: if_splits option.splits bind_splits)

lemma handle_packet_io: "handle_packet n dat len = Some n' \<Longrightarrow> io n' = io n"
  by (auto simp: handle_packet_def handle_packet_arp_def cache_arp_entry_def Let_def dest: send_arp_io split: if_splits)

lemma rtl8139_handler_io: "rtl8139_handler n status = Some n' \<Longrightarrow> io n' = io n"
  by (auto simp: rtl8139_handler_def receive_packet_def out_port_def Let_def dest!: handle_packet_io split: if_splits bind_splits)

lemma set_space_simps [simp]:
  "cr3 (mmu_of (set_space m root)) = root" "kbd (set_space m root) = kbd m" "nw (set_space m root) = nw m"
  "sched_triggered (sch (set_space m root)) = sched_triggered (sch m)" "pit (sch (set_space m root)) = pit (sch m)"
  by (simp_all add: set_space_def mmu_of_def set_pml4_address_def)

lemma pic_send_eoi_counts:
  "eois (pic1 (pic_send_eoi p irq)) = eois (pic1 p) + 1"
  "eois (pic2 (pic_send_eoi p irq)) = eois (pic2 p) + (if 8 \<le> irq then 1 else 0)"
  by (simp_all add: pic_send_eoi_def PIC_EOI_def chip_command_def)

lemma irq_number_le: "k < 256 \<Longrightarrow> (8 \<le> (of_nat k :: byte)) = (8 \<le> k)"
  by (simp add: word_le_nat_alt unat_of_nat)

text \<open>A tick either leaves the registers alone or sends user code to \<open>run_next_proc\<close>; it stays in the address space.\<close>

lemma tick_registers:
  assumes "handle_sched_on_pit_tick rnp s g = (s', g')" "\<not> sched_triggered s"
  shows "mm (kn s') = mm (kn s) \<and> pit s' = pit s
     \<and> (if sched_triggered s' then cs g AND 3 \<noteq> 0 \<and> rip g' = rnp \<and> cs g' AND 3 = 0 \<and> \<not> bit (eflags g') 9 else g' = g)"
  using assms by (auto simp: handle_sched_on_pit_tick_def Let_def KERNEL_CS_SELECTOR_OFFSET_GDT_def bit_and_iff bit_not_iff
      bit_exp_iff split: if_splits)

text \<open>What one device interrupt does to each part of the machine.\<close>

definition device_effect :: "u64 \<Rightarrow> byte \<Rightarrow> u16 \<Rightarrow> nat \<Rightarrow> machine \<Rightarrow> registers \<Rightarrow> machine \<Rightarrow> registers \<Rightarrow> bool" where
  "device_effect rnp scan status isr_num m g m' g' \<longleftrightarrow>
     pit (sch m') = (if isr_num = 32 then pit_handler (pit (sch m)) else pit (sch m))
     \<and> Some (kbd m') = (if isr_num = 33 then buffer_put (kbd m) scan else Some (kbd m))
     \<and> (\<exists>n. Some n = (if isr_num = 43 then rtl8139_handler (nw m) status else Some (nw m)) \<and> nw m' = n\<lparr>io := io (nw m')\<rparr>)
     \<and> (sched_triggered (sch m') \<longrightarrow> isr_num = 32 \<and> cs g AND 3 \<noteq> 0 \<and> rip g' = rnp \<and> cs g' AND 3 = 0 \<and> \<not> bit (eflags g') 9)
     \<and> (\<not> sched_triggered (sch m') \<longrightarrow> g' = g)"

lemma vector_numbers:
  "IRQ_PIT + PIC1_OFFSET = 32" "IRQ_KEYBOARD + PIC1_OFFSET = 33" "PIC1_OFFSET + unat RTL8139_INTERRUPT_LINE = 43"
  by (simp_all add: IRQ_PIT_def IRQ_KEYBOARD_def PIC1_OFFSET_def RTL8139_INTERRUPT_LINE_def)

lemma irq_device_effect:
  assumes "irq_device rnp scan status m isr_num g = Some (m', g')" "\<not> sched_triggered (sch m)"
  shows "device_effect rnp scan status isr_num m g m' g' \<and> io (nw m') = io (nw m) \<and> mmu_of m' = mmu_of m"
proof (cases "isr_num = 32")
  case True
  let ?s = "(sch m)\<lparr>pit := pit_handler (pit (sch m))\<rparr>"
  obtain s where s: "handle_sched_on_pit_tick rnp ?s g = (s, g')" "m' = m\<lparr>sch := s\<rparr>"
    using assms(1) True by (auto simp: irq_device_def vector_numbers Let_def split: prod.splits)
  have n: "nw m = (nw m)\<lparr>io := io (nw m)\<rparr>" by simp
  show ?thesis
    using tick_registers [OF s(1)] assms(2) True n unfolding s(2) device_effect_def mmu_of_def by auto
next
  case False
  then show ?thesis
    using assms by (auto simp: irq_device_def vector_numbers device_effect_def mmu_of_def dest: rtl8139_handler_io
        split: if_splits bind_splits)
qed

lemma irq_device_None:
  "irq_device rnp scan status m isr_num g = None
     \<longleftrightarrow> isr_num = 33 \<and> buffer_put (kbd m) scan = None \<or> isr_num = 43 \<and> rtl8139_handler (nw m) status = None"
  by (auto simp: irq_device_def vector_numbers Let_def split: prod.splits bind_splits)

lemma device_effect_start:
  "pit (sch m1) = pit (sch m) \<Longrightarrow> kbd m1 = kbd m \<Longrightarrow> nw m1 = nw m \<Longrightarrow>
     device_effect rnp scan status isr_num m1 g m' g' = device_effect rnp scan status isr_num m g m' g'"
  by (simp add: device_effect_def)

lemma device_effect_end:
  assumes "device_effect rnp scan status isr_num m g m1 g'" "pit (sch m') = pit (sch m1)" "kbd m' = kbd m1"
    "sched_triggered (sch m') = sched_triggered (sch m1)" "nw m' = (nw m1)\<lparr>io := p\<rparr>"
  shows "device_effect rnp scan status isr_num m g m' g'"
proof -
  obtain n where n: "Some n = (if isr_num = 43 then rtl8139_handler (nw m) status else Some (nw m))" "nw m1 = n\<lparr>io := io (nw m1)\<rparr>"
    using assms(1) unfolding device_effect_def by blast
  have "nw m' = n\<lparr>io := io (nw m')\<rparr>" unfolding assms(5) by (subst n(2)) simp
  then show ?thesis using n(1) assms(1-4) unfolding device_effect_def by auto
qed


text \<open>A key is pressed while the first of the two processes runs.\<close>

definition running :: machine where
  "running = \<lparr>sch = after_slice, kbd = keyboard, nw = host [2, 0, 0, 0, 0, 1] [10, 0, 0, 24]\<rparr>"


section \<open>The system call entry\<close>

text \<open>
  A number beyond the table is refused, but the kernel's address space stays loaded; a number of the
  table runs its function on the six arguments, in the kernel's address space and with the caller's
  registers saved, and gives back the caller's address space whatever the function does to it.
\<close>

lemma length_SYSCALL_TABLE [simp]: "length SYSCALL_TABLE = 27"
  by (simp add: SYSCALL_TABLE_def)

lemma syscall_number_refused:
  assumes "27 \<le> sint (rax regs)"
  shows "\<exists>m'. syscall_handler call m regs = Some (m', regs, - 1) \<and> cr3 (mmu_of m') = PML4_KERNEL"
  using assms by (auto simp: syscall_handler_def Let_def)

lemma syscall_runs:
  assumes "0 \<le> sint (rax regs)" "sint (rax regs) < 27" "current_pcb (kn (sch m)) \<noteq> 0"
    and "syscall_handler call m regs = Some (m', regs', ret)"
  shows "cr3 (mmu_of m') = cr3 (mmu_of m)
     \<and> (\<exists>m1 m2. call (SYSCALL_TABLE ! nat (sint (rax regs))) m1 [rdi regs, rsi regs, rdx regs, r10 regs, r8 regs, r9 regs] regs
           = Some (m2, regs', ret)
         \<and> cr3 (mmu_of m1) = PML4_KERNEL \<and> cpu_context (pcbs (kn (sch m1)) (current_pcb (kn (sch m)))) = regs)"
proof -
  define m0 where "m0 = (if cr3 (mmu_of m) \<noteq> PML4_KERNEL then set_space m PML4_KERNEL else m)"
  define k where "k = kn (sch m0)"
  define p where "p = current_pcb (kn (sch m))"
  define m1 where "m1 = m0\<lparr>sch := (sch m0)\<lparr>kn := set_pcb k p ((pcbs k p)\<lparr>cpu_context := regs\<rparr>)\<rparr>\<rparr>"
  have k: "current_pcb k = p" "cr3 (mmu_of m0) = PML4_KERNEL"
    by (simp_all add: k_def m0_def p_def) (simp add: set_space_def)
  have "syscall_handler call m regs = do { (m2, regs', ret) \<leftarrow> call (SYSCALL_TABLE ! nat (sint (rax regs))) m1
      [rdi regs, rsi regs, rdx regs, r10 regs, r8 regs, r9 regs] regs; Some (set_space m2 (cr3 (mmu_of m)), regs', ret) }"
    using assms(1-3) unfolding syscall_handler_def Let_def m0_def [symmetric] k_def [symmetric] k(1) m1_def [symmetric] p_def [symmetric]
    by simp
  then obtain m2 where m2: "call (SYSCALL_TABLE ! nat (sint (rax regs))) m1
      [rdi regs, rsi regs, rdx regs, r10 regs, r8 regs, r9 regs] regs = Some (m2, regs', ret)" "m' = set_space m2 (cr3 (mmu_of m))"
    using assms(4) by (auto split: bind_splits)
  have "cr3 (mmu_of m1) = PML4_KERNEL" "cpu_context (pcbs (kn (sch m1)) (current_pcb (kn (sch m)))) = regs"
    using k(2) by (simp_all add: m1_def mmu_of_def set_pcb_def k_def p_def)
  then show ?thesis using m2 by auto
qed

text \<open>
  The registers after \<open>init_syscall\<close>: the entry point, the per-processor block and the segments are
  in place; of \<open>EFER\<close> the low half is kept with the bit for system calls, the high half is lost.
\<close>

lemma halves: "ucast (ucast (x AND 0xffffffff) :: u32) OR push_bit 32 (ucast (ucast (drop_bit 32 x) :: u32)) = (x :: u64)"
proof -
  have m: "(0xffffffff :: u64) = mask 32" by (simp add: mask_eq_exp_minus_1)
  show ?thesis unfolding m
    by (rule bit_word_eqI) (auto simp: bit_or_iff bit_push_bit_iff bit_ucast_iff bit_and_iff bit_mask_iff bit_drop_bit_eq)
qed

lemma init_syscall_msrs:
  "init_syscall syscall_entry kgb r =
     r(MSR_EFER := take_bit 32 (r MSR_EFER) OR 1, MSR_LSTAR := syscall_entry, MSR_KERNEL_GS_BASE := kgb, MSR_STAR := 0x0018000800000000)"
proof -
  have m: "(0xffffffff :: u64) = mask 32" by (simp add: mask_eq_exp_minus_1)
  have e: "enable_syscall r = r(MSR_EFER := take_bit 32 (r MSR_EFER) OR 1)"
    unfolding enable_syscall_def read_msr_def write_msr_def Let_def EFER_SCE_def m
    by (intro ext bit_word_eqI) (auto simp: bit_mask_iff bit_or_iff bit_push_bit_iff bit_ucast_iff bit_and_iff bit_take_bit_iff bit_drop_bit_eq bit_1_iff)
  show ?thesis
    unfolding init_syscall_def configure_segments_def Let_def e write_msr_def halves by simp
qed

end
