(* ===== verification/Spec2Isabelle.thy ===== *)
theory Spec2Isabelle
  imports Prelude LibcString LibcMemory LibcHeap LinkedList MmuFrames Paging Ahci Pci Disk Path Ext2 Vfs Keyboard LibcStdlib LibcStdio
    Process Sched Pic Time NetProto Nic Calculator Terminal FileOps Elf Interrupts
begin

text \<open>
  A verification library for the BIOS operating system (\<open>src/\<close>): an x86\_64 kernel with
  its C library, drivers, file system, network stack and user shell.

  \<^bold>\<open>The program and its parts.\<close>  The kernel keeps its data on a heap inside pages it maps itself,
  reads an ext2 disk through AHCI, shows it as a tree of mounted file systems, loads a program from
  it and switches between processes on timer ticks.  Interrupts feed the key buffer, the scheduler
  and the network card.  The C library is built twice; the models are of the kernel build, in which
  a function does the work itself, while in the user build it makes a system call.

  \<^bold>\<open>How the code is modelled.\<close>  Definitions keep the names of the C functions; a suffix \<open>_c\<close> avoids
  a keyword, and the body of a loop is a definition of its own named after it.  A C integer is a word of its width, or
  an \<open>int\<close> with the wrap-around written out; the memory is a function from addresses to bytes; a
  structure is a \<open>record\<close>, and one that the code links and mutates in place lives in a store indexed
  by address.  A function takes the state and returns it changed.  \<open>None\<close> is undefined behaviour, a
  fault or a loop that never ends.  What a device shows to the driver - status registers, scan codes,
  the clock, the contents of a disk - is an argument.  The build has no optimisation, and its plain
  \<open>char\<close> is signed.  Messages printed for debugging are left out.

  \<^bold>\<open>Memory and the C library.\<close>
  \<^item> \<open>Prelude\<close>: machine words, the byte-addressed memory, little-endian fields, C strings in memory.
  \<^item> \<open>LibcString\<close>: \<open>libc/string\<close>, \<open>libc/ctype\<close> and the whitespace filters of \<open>libc/stdio/stdio.c\<close>.
    \<open>memmove\<close> is right on overlapping blocks, \<open>strstr\<close> finds the first occurrence, \<open>strtok\<close> cuts off
    the first token.
  \<^item> \<open>LibcMemory\<close>: the alignment functions of \<open>libc/memory/memory.c\<close> and the macros of \<open>math.h\<close>.
  \<^item> \<open>LibcHeap\<close>: \<open>libc/memory/heap.c\<close>, \<open>malloc.c\<close>, \<open>free.c\<close>.  The invariant is a doubly linked list of
    chunks that tile the heap; \<open>malloc\<close> returns a block disjoint from all live ones, \<open>free\<close> gives it
    back, and a reused chunk keeps a stale back link.  The locale \<open>allocator\<close> is the contract every
    client of the heap relies on; it is interpreted on \<open>malloc\<close> and \<open>free\<close>.
  \<^item> \<open>LinkedList\<close>: \<open>kernel/include/linkedList.h\<close> over that contract; \<open>append_node\<close> prepends.
  \<^item> \<open>LibcStdlib\<close>, \<open>LibcStdio\<close>: number conversion, \<open>printf\<close>, line input and \<open>sscanf\<close>, on all values.
  \<^item> \<open>Time\<close>: \<open>libc/time/time.c\<close>; the day of the week agrees with the calendar.

  \<^bold>\<open>Pages and devices.\<close>
  \<^item> \<open>MmuFrames\<close>: the page frame allocator of \<open>mmu/pframe.c\<close>, first fit (locale \<open>frame_allocator\<close>).
  \<^item> \<open>Paging\<close>: \<open>mmu/page.c\<close>, with the page walk of the processor.  The invariant \<open>table_tree\<close> says that
    no table is shared; \<open>map_page\<close> and \<open>unmap_page\<close> change the translation of one page only.
  \<^item> \<open>Pci\<close>, \<open>Ahci\<close>, \<open>Disk\<close>: \<open>kernel/driver\<close>.  The scan lists exactly the devices of bus 0; a command
    transfers exactly its sectors; \<open>read_disk\<close> delivers any byte range and \<open>write_disk\<close> whole sectors.
  \<^item> \<open>Keyboard\<close>: \<open>scs1.c\<close> and \<open>io.c\<close>; the key buffer is a bounded queue (locale \<open>bounded_queue\<close>), and a
    backspace at the first place of the buffer makes the next read leave the array.
  \<^item> \<open>Terminal\<close>: \<open>tty.c\<close>, which refines a grid of characters with a cursor.
  \<^item> \<open>Pic\<close>: \<open>pic.c\<close>, \<open>pit.c\<close> against the documented chips.

  \<^bold>\<open>Files.\<close>
  \<^item> \<open>Path\<close>, \<open>Ext2\<close>, \<open>Vfs\<close>: path normalisation, the block tree of an inode, directories and the tree
    of mounts.  The locale \<open>disk_image\<close> is what \<open>Ext2\<close> relies on in \<open>read_disk\<close>; it is interpreted on
    the bytes of a disk.  Reading an inode delivers exactly its bytes, the search of a directory
    accepts a prefix of a name, and path lookup refines lookup in a tree.
  \<^item> \<open>FileOps\<close>: \<open>libc/file_op\<close>.  \<open>open\<close> and \<open>close\<close> keep the table of descriptors, and consecutive
    reads overlap by one byte.
  \<^item> \<open>Elf\<close>: \<open>process/elf.c\<close> over \<open>FileOps\<close>; the segment arrives whole and nothing leaks.

  \<^bold>\<open>Processes, interrupts, network.\<close>
  \<^item> \<open>Process\<close>, \<open>Sched\<close>: \<open>process.c\<close>, \<open>proc_op.c\<close>, \<open>sched.c\<close>.  Process ids, process memory and control
    blocks; the choice of the next process is round robin, and stops at one that is not ready.
  \<^item> \<open>Interrupts\<close>: \<open>idt.c\<close>, \<open>isr.c\<close>, \<open>libc/sys/syscall.c\<close>.  The processor finds the right stub for each
    vector.  The handler composes \<open>Pic\<close>, \<open>Sched\<close>, \<open>Keyboard\<close> and \<open>Nic\<close> in one machine state: an
    interrupt has the effect of its device and goes back to where it came from, unless a tick switches
    the process.  A refused system call stays in the kernel's address space.
  \<^item> \<open>NetProto\<close>, \<open>Nic\<close>: packet formats, \<open>rtl8139.c\<close>, \<open>arp.c\<close>, \<open>dns.c\<close>.  Two hosts running this driver
    resolve each other's address.
  \<^item> \<open>Calculator\<close>: \<open>user/shell/bc.c\<close>; it computes the value of every expression tree.

  \<^bold>\<open>Loops and bounds.\<close>  Loops over strings, lists and directories that end only on well-formed data
  are \<open>partial_function (option)\<close>; the theorems show that they return there.  A wait for a device runs
  over the values the device will show or the ticks that will arrive, and ends with \<open>None\<close> when they
  run out; the theorems name the answer it waits for.  All other loops are total functions with a termination proof; there
  is no fuel.

  \<^bold>\<open>Not modelled.\<close>
  \<^item> The boot loader and the assembly stubs (\<open>boot/\<close>, \<open>isr_entry.s\<close>, \<open>syscall_s.s\<close>, \<open>user_entry.s\<close>,
    \<open>flush_tss.s\<close>) are not C code; the addresses of the stubs are arguments.
  \<^item> \<open>kmain\<close> runs the initialisations on states that are kept apart here, and ends in \<open>exec\<close>.  The
    loading of a program into the memory of a process, in \<open>exec\<close>, crosses between address spaces,
    while \<open>Elf\<close> loads into one.
  \<^item> The shell (\<open>user/shell\<close> but for \<open>bc.c\<close>) prints and makes system calls.
  \<^item> The user build of the C library, which only passes arguments to system calls; \<open>abort\<close>,
    \<open>getchar\<close>, \<open>sleep\<close> and the other wrappers; \<open>print_heap\<close>; the waits before an AHCI command.
  \<^item> The translation cache: a change of a page table takes effect at once, so \<open>invlpg\<close> does nothing.
\<close>

end
